(* ===== verification/Prelude.thy ===== *)
theory Prelude
  imports Main "HOL-Library.Word" "HOL-Library.Multiset"
begin

text \<open>
  Shared vocabulary of the development: the outcome of a Rust call, machine integer
  types, decimal rendering and parsing of integers (as \<open>Display\<close> and \<open>FromStr\<close> of the
  standard library do it), little-endian byte images of integers, and the generic lemmas the
  components use. The collections \<open>os_simps\<close>, \<open>trace_simps\<close> and \<open>step_simps\<close> gather,
  respectively, the wrappers of the operating system's calls, the projections of the call
  trace and the unfoldings of one step of a component.
\<close>

named_theorems os_simps
named_theorems trace_simps
named_theorems step_simps

unbundle bit_operations_syntax

section \<open>Outcomes and machine types\<close>

type_synonym byte = "8 word"
type_synonym u32 = "32 word"
type_synonym i32 = "32 word"
type_synonym u64 = "64 word"

text \<open>
  What a call of a Rust function can do: return, panic with a message, or run into undefined
  behaviour (an uninitialised byte read through \<open>assume_init\<close>, an unchecked index out of
  range). A \<open>Result\<close> is a sum inside \<open>Return\<close>, its error on the left.
\<close>

datatype 'a outcome = Return 'a | Panic string | Undefined

definition returns :: "'a outcome \<Rightarrow> bool" where
  "returns r \<longleftrightarrow> (case r of Return _ \<Rightarrow> True | _ \<Rightarrow> False)"

lemma returns_simps [simp]:
  "returns (Return x)" "\<not> returns (Panic m)" "\<not> returns Undefined"
  by (simp_all add: returns_def)

lemma returns_iff: "returns r \<longleftrightarrow> (\<exists>x. r = Return x)"
  by (cases r) auto

text \<open>No undefined behaviour, and no panic with a message outside \<open>M\<close>.\<close>

definition safe :: "string set \<Rightarrow> 'a outcome \<Rightarrow> bool" where
  "safe M r \<longleftrightarrow> (case r of Return _ \<Rightarrow> True | Panic m \<Rightarrow> m \<in> M | Undefined \<Rightarrow> False)"

lemma safe_simps [simp]:
  "safe M (Return x)" "safe M (Panic m) \<longleftrightarrow> m \<in> M" "\<not> safe M Undefined"
  by (simp_all add: safe_def)

lemma safe_UNIV: "safe UNIV r \<longleftrightarrow> r \<noteq> Undefined"
  by (cases r) simp_all

lemma safe_mono: "safe M r \<Longrightarrow> M \<subseteq> N \<Longrightarrow> safe N r"
  by (cases r) auto

section \<open>Truncating casts\<close>

text \<open>The cast \<open>x as i32\<close> of a wider signed integer.\<close>

definition as_i32 :: "int \<Rightarrow> int" where
  "as_i32 x = sint (word_of_int x :: 32 word)"

lemma as_i32_id: "- (2 ^ 31) \<le> x \<Longrightarrow> x < 2 ^ 31 \<Longrightarrow> as_i32 x = x"
  by (simp add: as_i32_def sint_sbintrunc' signed_take_bit_int_eq_self)

section \<open>Decimal rendering\<close>

definition digit_char :: "nat \<Rightarrow> char" where
  "digit_char d = char_of (48 + d)"

fun show_nat :: "nat \<Rightarrow> string" where
  "show_nat n = (if n < 10 then [digit_char n] else show_nat (n div 10) @ [digit_char (n mod 10)])"

declare show_nat.simps [simp del]

definition show_int :: "int \<Rightarrow> string" where
  "show_int x = (if x < 0 then CHR ''-'' # show_nat (nat (- x)) else show_nat (nat x))"

definition digit_val :: "char \<Rightarrow> nat option" where
  "digit_val c = (let k = of_char c :: nat in if 48 \<le> k \<and> k \<le> 57 then Some (k - 48) else None)"

fun read_digits :: "nat \<Rightarrow> string \<Rightarrow> nat option" where
  "read_digits acc [] = Some acc"
| "read_digits acc (c # cs) =
     (case digit_val c of None \<Rightarrow> None | Some d \<Rightarrow> read_digits (10 * acc + d) cs)"

lemma digit_val_char: "d < 10 \<Longrightarrow> digit_val (digit_char d) = Some d"
  by (simp add: digit_val_def digit_char_def Let_def)

lemma read_digits_append:
  "read_digits acc (xs @ ys) =
     (case read_digits acc xs of None \<Rightarrow> None | Some a \<Rightarrow> read_digits a ys)"
  by (induction xs arbitrary: acc) (auto split: option.split)

lemma show_nat_nonempty [simp]: "show_nat n \<noteq> []"
  by (subst show_nat.simps) simp

lemma read_digits_show: "read_digits 0 (show_nat n) = Some n"
proof (induction n rule: show_nat.induct)
  case (1 n)
  show ?case
  proof (cases "n < 10")
    case True
    then show ?thesis by (simp add: show_nat.simps [of n] digit_val_char)
  next
    case False
    with 1 have "read_digits 0 (show_nat (n div 10)) = Some (n div 10)" by simp
    with False show ?thesis
      by (simp add: show_nat.simps [of n] read_digits_append digit_val_char)
  qed
qed

lemma show_nat_inj: "show_nat m = show_nat n \<Longrightarrow> m = n"
  by (metis read_digits_show option.inject)

definition is_digit :: "char \<Rightarrow> bool" where
  "is_digit c \<longleftrightarrow> digit_val c \<noteq> None"

lemma show_nat_digits: "list_all is_digit (show_nat n)"
proof (induction n rule: show_nat.induct)
  case (1 n)
  then show ?case
    by (cases "n < 10") (simp_all add: show_nat.simps [of n] is_digit_def digit_val_char)
qed

section \<open>Memory filled by a call\<close>

text \<open>A buffer after a call has stored \<open>new\<close> at its start; what does not fit is not stored.\<close>

definition fill :: "'a list \<Rightarrow> 'a list \<Rightarrow> 'a list" where
  "fill arr new = take (length arr) (new @ drop (length new) arr)"

lemma length_fill [simp]: "length (fill arr new) = length arr"
  by (simp add: fill_def)

lemma take_fill: "length new \<le> length arr \<Longrightarrow> take (length new) (fill arr new) = new"
  by (simp add: fill_def)

lemma fill_exact: "length new = length arr \<Longrightarrow> fill arr new = new"
  by (simp add: fill_def)

text \<open>
  Memory that need not be initialised: a cell is \<open>None\<close> until something is stored in it, and
  \<open>assume_init\<close> of memory with such a cell is undefined behaviour.
\<close>

type_synonym memory = "byte option list"

definition uninit :: "nat \<Rightarrow> memory" where
  "uninit n = replicate n None"

definition assume_init :: "memory \<Rightarrow> byte list outcome" where
  "assume_init m = (if None \<in> set m then Undefined else Return (map the m))"

lemma length_uninit [simp]: "length (uninit n) = n"
  by (simp add: uninit_def)

lemma assume_init_stored [simp]: "assume_init (map Some bs) = Return bs"
  by (auto simp: assume_init_def comp_def)

lemma assume_init_full: "length bs = n \<Longrightarrow> assume_init (fill (uninit n) (map Some bs)) = Return bs"
  by (simp add: fill_exact)

lemma assume_init_short: "length bs < n \<Longrightarrow> assume_init (fill (uninit n) (map Some bs)) = Undefined"
  by (simp add: assume_init_def fill_def uninit_def)

end
