(* ===== verification/Kernel.thy ===== *)
theory Kernel
  imports Prelude
begin

text \<open>
  The operating system as the program sees it. Every libc, kernel, libpfm and allocator entry
  point the Rust code calls is a field of the record \<open>kernel\<close>, a parameter of all definitions
  that call it: nothing is assumed of it here. A call takes the state of the world and returns
  what the C function returns (the return code first, then what it stores through its pointer
  arguments) and the next world; \<open>k_errno\<close> reads the thread's \<open>errno\<close>.

  The state \<open>os\<close> that the model threads through the program holds the world, the one process
  global of the code (the \<open>LazyLock\<close> cell of libpfm) and a ghost component, the trace of the
  calls made so far with their results. The trace is never read by the modelled code; it is
  what the theorems on order of calls, leaked descriptors and file contents speak about.
\<close>

section \<open>Errors of the standard library\<close>

datatype error_kind = Interrupted | InvalidInput | UnexpectedEof | OtherKind

text \<open>\<open>std::io::Error\<close>: an errno, or a kind with a message.\<close>

datatype io_error = Os int | Custom error_kind string

definition EINTR :: int where "EINTR = 4"
definition EINVAL :: int where "EINVAL = 22"

fun kind :: "io_error \<Rightarrow> error_kind" where
  "kind (Os e) = (if e = EINTR then Interrupted else if e = EINVAL then InvalidInput else OtherKind)"
| "kind (Custom k _) = k"

text \<open>
  The error enums of the crates \<open>perf-ffi\<close> (\<open>error.rs\<close>) and \<open>mqueue\<close>. A cast error of the
  crate zerocopy says why a byte slice is not an image of the wanted type.
\<close>

datatype cast_error = AlignmentError | SizeError

datatype perf_error = IO io_error | Empty | HeaderCast cast_error | EntryCast cast_error

datatype mq_error = MqIO io_error | WrongSize

text \<open>One constructor per \<open>eprintln!\<close> of the program, with the values it prints.\<close>

datatype diag =
    OpenEventsFailed i32 perf_error
  | DescWriteError io_error
  | ReadWriteError io_error
  | EventWriteError io_error
  | GroupReadError i32 perf_error
  | BadMessage u32
  | MqueueReadError mq_error
  | FlushFellBehind u64

section \<open>Data exchanged with the kernel\<close>

record epoll_event =
  ee_events :: u32
  ee_data :: u64

record timespec =
  tv_sec :: int
  tv_nsec :: int

record itimerspec =
  it_interval :: timespec
  it_value :: timespec

record mq_attr =
  mq_flags :: int
  mq_maxmsg :: int
  mq_msgsize :: int
  mq_curmsgs :: int

text \<open>
  The generated binding of \<open>struct perf_event_attr\<close>: the fields the code names, and the bytes
  of all the others with trailing zeros dropped (so \<open>[]\<close> is all zero).
\<close>

record perf_event_attr =
  attr_type :: u32
  attr_size :: u32
  attr_config :: u64
  attr_read_format :: u64
  attr_exclude_hv :: bool
  attr_rest :: "byte list"

definition zeroed_attr :: perf_event_attr where
  "zeroed_attr = \<lparr>attr_type = 0, attr_size = 0, attr_config = 0, attr_read_format = 0,
     attr_exclude_hv = False, attr_rest = []\<rparr>"

section \<open>The calls\<close>

record 'w kernel =
  k_errno :: "'w \<Rightarrow> int"
  k_epoll_create1 :: "int \<Rightarrow> 'w \<Rightarrow> int \<times> 'w"
  k_epoll_ctl :: "int \<Rightarrow> int \<Rightarrow> int \<Rightarrow> epoll_event option \<Rightarrow> 'w \<Rightarrow> int \<times> 'w"
  k_epoll_wait :: "int \<Rightarrow> nat \<Rightarrow> int \<Rightarrow> 'w \<Rightarrow> int \<times> epoll_event list \<times> 'w"
  k_read :: "int \<Rightarrow> nat \<Rightarrow> 'w \<Rightarrow> int \<times> byte list \<times> 'w"
  k_close :: "int \<Rightarrow> 'w \<Rightarrow> 'w"
  k_timerfd_create :: "int \<Rightarrow> int \<Rightarrow> 'w \<Rightarrow> int \<times> 'w"
  k_timerfd_settime :: "int \<Rightarrow> int \<Rightarrow> itimerspec \<Rightarrow> 'w \<Rightarrow> int \<times> 'w"
  k_sigemptyset :: "'w \<Rightarrow> int \<times> byte list \<times> 'w"
  k_sigaddset :: "byte list \<Rightarrow> int \<Rightarrow> 'w \<Rightarrow> int \<times> byte list \<times> 'w"
  k_sigprocmask :: "int \<Rightarrow> byte list \<Rightarrow> 'w \<Rightarrow> int \<times> 'w"
  k_signalfd :: "int \<Rightarrow> byte list \<Rightarrow> int \<Rightarrow> 'w \<Rightarrow> int \<times> 'w"
  k_umask :: "nat \<Rightarrow> 'w \<Rightarrow> nat \<times> 'w"
  k_mq_open :: "string \<Rightarrow> int \<Rightarrow> nat \<Rightarrow> mq_attr \<Rightarrow> 'w \<Rightarrow> int \<times> 'w"
  k_mq_receive :: "int \<Rightarrow> nat \<Rightarrow> 'w \<Rightarrow> int \<times> byte list \<times> 'w"
  k_mq_unlink :: "string \<Rightarrow> 'w \<Rightarrow> 'w"
  k_perf_event_open :: "perf_event_attr \<Rightarrow> int \<Rightarrow> int \<Rightarrow> int \<Rightarrow> nat \<Rightarrow> 'w \<Rightarrow> int \<times> 'w"
  k_ioctl_id :: "int \<Rightarrow> 'w \<Rightarrow> int \<times> u64 \<times> 'w"
  k_pfm_initialize :: "'w \<Rightarrow> int \<times> 'w"
  k_pfm_encode :: "string \<Rightarrow> nat \<Rightarrow> perf_event_attr \<Rightarrow> 'w \<Rightarrow> int \<times> perf_event_attr \<times> 'w"
  k_file_open :: "string \<Rightarrow> 'w \<Rightarrow> int \<times> 'w"
  k_file_write :: "int \<Rightarrow> string \<Rightarrow> 'w \<Rightarrow> nat \<times> io_error option \<times> 'w"
  k_read_file :: "string \<Rightarrow> 'w \<Rightarrow> string option \<times> 'w"
  k_now :: "'w \<Rightarrow> int \<times> 'w"
  k_alloc :: "nat \<Rightarrow> nat \<Rightarrow> 'w \<Rightarrow> nat \<times> 'w"
  k_realloc :: "nat \<Rightarrow> nat \<Rightarrow> nat \<Rightarrow> 'w \<Rightarrow> nat \<times> 'w"
  k_dealloc :: "nat \<Rightarrow> nat \<Rightarrow> 'w \<Rightarrow> 'w"

section \<open>The trace\<close>

datatype call =
    CEpollCreate int
  | CEpollCtl int int int "epoll_event option" int
  | CEpollWait int int
  | CRead int nat int "byte list"
  | CClose int
  | CTimerCreate int int
  | CTimerSettime int itimerspec int
  | CSigprocmask int "byte list" int
  | CSignalfd "byte list" int
  | CUmask nat nat
  | CMqOpen string int nat mq_attr int
  | CMqReceive int nat int
  | CMqUnlink string
  | CPerfOpen perf_event_attr int int int nat int
  | CIoctlId int int u64
  | CPfmInit int
  | CPfmEncode string int
  | CFileOpen string int
  | CFileWrite int string
  | CReadFile string
  | CNow int
  | CAlloc nat nat
  | CRealloc nat nat nat nat
  | CDealloc nat nat
  | CStdout string
  | CStderr diag

record 'w os =
  world :: 'w
  pfm_cell :: "(int + unit) option"
  trace :: "call list"

definition boot :: "'w \<Rightarrow> 'w os" where
  "boot w = \<lparr>world = w, pfm_cell = None, trace = []\<rparr>"

definition log_call :: "call \<Rightarrow> 'w os \<Rightarrow> 'w os" where
  "log_call c s = s\<lparr>trace := trace s @ [c]\<rparr>"

lemma trace_log_call [simp]: "trace (log_call c s) = trace s @ [c]"
  by (simp add: log_call_def)

lemma world_log_call [simp]: "world (log_call c s) = world s"
  by (simp add: log_call_def)

lemma pfm_cell_log_call [simp]: "pfm_cell (log_call c s) = pfm_cell s"
  by (simp add: log_call_def)

section \<open>Making a call\<close>

text \<open>
  Each wrapper runs one entry point on the world and appends the call, with its result, to the
  trace. \<open>last_os_error\<close> is \<open>std::io::Error::last_os_error()\<close>.
\<close>

definition last_os_error :: "'w kernel \<Rightarrow> 'w os \<Rightarrow> io_error" where
  "last_os_error K s = Os (k_errno K (world s))"

definition sys_epoll_create1 :: "'w kernel \<Rightarrow> int \<Rightarrow> 'w os \<Rightarrow> int \<times> 'w os" where
  "sys_epoll_create1 K flags s =
     (case k_epoll_create1 K flags (world s) of (r, w) \<Rightarrow>
        (r, log_call (CEpollCreate r) (s\<lparr>world := w\<rparr>)))"

definition sys_epoll_ctl :: "'w kernel \<Rightarrow> int \<Rightarrow> int \<Rightarrow> int \<Rightarrow> epoll_event option \<Rightarrow> 'w os \<Rightarrow> int \<times> 'w os" where
  "sys_epoll_ctl K epfd op fd ev s =
     (case k_epoll_ctl K epfd op fd ev (world s) of (r, w) \<Rightarrow>
        (r, log_call (CEpollCtl epfd op fd ev r) (s\<lparr>world := w\<rparr>)))"

definition sys_epoll_wait :: "'w kernel \<Rightarrow> int \<Rightarrow> nat \<Rightarrow> int \<Rightarrow> 'w os \<Rightarrow> int \<times> epoll_event list \<times> 'w os" where
  "sys_epoll_wait K epfd n timeout s =
     (case k_epoll_wait K epfd n timeout (world s) of (r, evs, w) \<Rightarrow>
        (r, evs, log_call (CEpollWait epfd r) (s\<lparr>world := w\<rparr>)))"

definition sys_read :: "'w kernel \<Rightarrow> int \<Rightarrow> nat \<Rightarrow> 'w os \<Rightarrow> int \<times> byte list \<times> 'w os" where
  "sys_read K fd n s =
     (case k_read K fd n (world s) of (r, bs, w) \<Rightarrow>
        (r, bs, log_call (CRead fd n r bs) (s\<lparr>world := w\<rparr>)))"

definition sys_timerfd_create :: "'w kernel \<Rightarrow> int \<Rightarrow> int \<Rightarrow> 'w os \<Rightarrow> int \<times> 'w os" where
  "sys_timerfd_create K clk flags s =
     (case k_timerfd_create K clk flags (world s) of (r, w) \<Rightarrow>
        (r, log_call (CTimerCreate clk r) (s\<lparr>world := w\<rparr>)))"

definition sys_timerfd_settime :: "'w kernel \<Rightarrow> int \<Rightarrow> int \<Rightarrow> itimerspec \<Rightarrow> 'w os \<Rightarrow> int \<times> 'w os" where
  "sys_timerfd_settime K fd flags spec s =
     (case k_timerfd_settime K fd flags spec (world s) of (r, w) \<Rightarrow>
        (r, log_call (CTimerSettime fd spec r) (s\<lparr>world := w\<rparr>)))"

definition sys_sigprocmask :: "'w kernel \<Rightarrow> int \<Rightarrow> byte list \<Rightarrow> 'w os \<Rightarrow> int \<times> 'w os" where
  "sys_sigprocmask K how sset s =
     (case k_sigprocmask K how sset (world s) of (r, w) \<Rightarrow>
        (r, log_call (CSigprocmask how sset r) (s\<lparr>world := w\<rparr>)))"

definition sys_signalfd :: "'w kernel \<Rightarrow> int \<Rightarrow> byte list \<Rightarrow> int \<Rightarrow> 'w os \<Rightarrow> int \<times> 'w os" where
  "sys_signalfd K fd sset flags s =
     (case k_signalfd K fd sset flags (world s) of (r, w) \<Rightarrow>
        (r, log_call (CSignalfd sset r) (s\<lparr>world := w\<rparr>)))"

definition sys_umask :: "'w kernel \<Rightarrow> nat \<Rightarrow> 'w os \<Rightarrow> nat \<times> 'w os" where
  "sys_umask K m s =
     (case k_umask K m (world s) of (r, w) \<Rightarrow>
        (r, log_call (CUmask m r) (s\<lparr>world := w\<rparr>)))"

definition sys_mq_open :: "'w kernel \<Rightarrow> string \<Rightarrow> int \<Rightarrow> nat \<Rightarrow> mq_attr \<Rightarrow> 'w os \<Rightarrow> int \<times> 'w os" where
  "sys_mq_open K path flags mode attr s =
     (case k_mq_open K path flags mode attr (world s) of (r, w) \<Rightarrow>
        (r, log_call (CMqOpen path flags mode attr r) (s\<lparr>world := w\<rparr>)))"

definition sys_mq_receive :: "'w kernel \<Rightarrow> int \<Rightarrow> nat \<Rightarrow> 'w os \<Rightarrow> int \<times> byte list \<times> 'w os" where
  "sys_mq_receive K fd n s =
     (case k_mq_receive K fd n (world s) of (r, bs, w) \<Rightarrow>
        (r, bs, log_call (CMqReceive fd n r) (s\<lparr>world := w\<rparr>)))"

definition sys_perf_event_open :: "'w kernel \<Rightarrow> perf_event_attr \<Rightarrow> int \<Rightarrow> int \<Rightarrow> int \<Rightarrow> nat \<Rightarrow> 'w os \<Rightarrow> int \<times> 'w os" where
  "sys_perf_event_open K attr pid cpu grp flags s =
     (case k_perf_event_open K attr pid cpu grp flags (world s) of (r, w) \<Rightarrow>
        (r, log_call (CPerfOpen attr pid cpu grp flags r) (s\<lparr>world := w\<rparr>)))"

definition sys_ioctl_id :: "'w kernel \<Rightarrow> int \<Rightarrow> 'w os \<Rightarrow> int \<times> u64 \<times> 'w os" where
  "sys_ioctl_id K fd s =
     (case k_ioctl_id K fd (world s) of (r, v, w) \<Rightarrow>
        (r, v, log_call (CIoctlId fd r v) (s\<lparr>world := w\<rparr>)))"

definition sys_pfm_initialize :: "'w kernel \<Rightarrow> 'w os \<Rightarrow> int \<times> 'w os" where
  "sys_pfm_initialize K s =
     (case k_pfm_initialize K (world s) of (r, w) \<Rightarrow>
        (r, log_call (CPfmInit r) (s\<lparr>world := w\<rparr>)))"

definition sys_pfm_encode :: "'w kernel \<Rightarrow> string \<Rightarrow> nat \<Rightarrow> perf_event_attr \<Rightarrow> 'w os \<Rightarrow> int \<times> perf_event_attr \<times> 'w os" where
  "sys_pfm_encode K ev plm attr s =
     (case k_pfm_encode K ev plm attr (world s) of (r, a, w) \<Rightarrow>
        (r, a, log_call (CPfmEncode ev r) (s\<lparr>world := w\<rparr>)))"

definition sys_file_open :: "'w kernel \<Rightarrow> string \<Rightarrow> 'w os \<Rightarrow> int \<times> 'w os" where
  "sys_file_open K path s =
     (case k_file_open K path (world s) of (r, w) \<Rightarrow>
        (r, log_call (CFileOpen path r) (s\<lparr>world := w\<rparr>)))"

definition sys_read_file :: "'w kernel \<Rightarrow> string \<Rightarrow> 'w os \<Rightarrow> string option \<times> 'w os" where
  "sys_read_file K path s =
     (case k_read_file K path (world s) of (r, w) \<Rightarrow>
        (r, log_call (CReadFile path) (s\<lparr>world := w\<rparr>)))"

definition sys_now :: "'w kernel \<Rightarrow> 'w os \<Rightarrow> int \<times> 'w os" where
  "sys_now K s =
     (case k_now K (world s) of (r, w) \<Rightarrow>
        (r, log_call (CNow r) (s\<lparr>world := w\<rparr>)))"

definition sys_alloc :: "'w kernel \<Rightarrow> nat \<Rightarrow> nat \<Rightarrow> 'w os \<Rightarrow> nat \<times> 'w os" where
  "sys_alloc K sz align s =
     (case k_alloc K sz align (world s) of (r, w) \<Rightarrow>
        (r, log_call (CAlloc sz r) (s\<lparr>world := w\<rparr>)))"

definition sys_realloc :: "'w kernel \<Rightarrow> nat \<Rightarrow> nat \<Rightarrow> nat \<Rightarrow> 'w os \<Rightarrow> nat \<times> 'w os" where
  "sys_realloc K p sz new_size s =
     (case k_realloc K p sz new_size (world s) of (r, w) \<Rightarrow>
        (r, log_call (CRealloc p sz new_size r) (s\<lparr>world := w\<rparr>)))"

text \<open>The two functions on signal sets work on memory only and are not traced.\<close>

definition sys_sigemptyset :: "'w kernel \<Rightarrow> 'w os \<Rightarrow> int \<times> byte list \<times> 'w os" where
  "sys_sigemptyset K s = (case k_sigemptyset K (world s) of (r, m, w) \<Rightarrow> (r, m, s\<lparr>world := w\<rparr>))"

definition sys_sigaddset :: "'w kernel \<Rightarrow> byte list \<Rightarrow> int \<Rightarrow> 'w os \<Rightarrow> int \<times> byte list \<times> 'w os" where
  "sys_sigaddset K sset sig s =
     (case k_sigaddset K sset sig (world s) of (r, m, w) \<Rightarrow> (r, m, s\<lparr>world := w\<rparr>))"

text \<open>Calls whose result the program ignores or that only report what was consumed.\<close>

definition sys_close :: "'w kernel \<Rightarrow> int \<Rightarrow> 'w os \<Rightarrow> 'w os" where
  "sys_close K fd s = log_call (CClose fd) (s\<lparr>world := k_close K fd (world s)\<rparr>)"

definition sys_mq_unlink :: "'w kernel \<Rightarrow> string \<Rightarrow> 'w os \<Rightarrow> 'w os" where
  "sys_mq_unlink K path s = log_call (CMqUnlink path) (s\<lparr>world := k_mq_unlink K path (world s)\<rparr>)"

definition sys_dealloc :: "'w kernel \<Rightarrow> nat \<Rightarrow> nat \<Rightarrow> 'w os \<Rightarrow> 'w os" where
  "sys_dealloc K p sz s = log_call (CDealloc p sz) (s\<lparr>world := k_dealloc K p sz (world s)\<rparr>)"

text \<open>
  The loop over \<open>write(2)\<close> of the standard library's \<open>File\<close>: the number of bytes taken and
  the error it stopped with. The trace records the bytes taken.
\<close>

definition sys_file_write ::
    "'w kernel \<Rightarrow> int \<Rightarrow> string \<Rightarrow> 'w os \<Rightarrow> nat \<times> io_error option \<times> 'w os" where
  "sys_file_write K fd bs s =
     (case k_file_write K fd bs (world s) of (n, e, w) \<Rightarrow>
        (case e of
           None \<Rightarrow> (length bs, None, log_call (CFileWrite fd bs) (s\<lparr>world := w\<rparr>))
         | Some err \<Rightarrow> (n, Some err, log_call (CFileWrite fd (take n bs)) (s\<lparr>world := w\<rparr>))))"

text \<open>
  \<open>eprintln!\<close> and \<open>println!\<close>, whose stream is written: the model follows the runs in which no print
  fails. A print whose stream cannot be written panics; how \<open>main\<close> ends then is \<open>main_outcome\<close> in the
  theory of the panics. (A stream that was closed counts as written in the standard library.)
\<close>

definition eprintln :: "diag \<Rightarrow> 'w os \<Rightarrow> 'w os" where
  "eprintln d = log_call (CStderr d)"

definition println :: "string \<Rightarrow> 'w os \<Rightarrow> 'w os" where
  "println msg = log_call (CStdout msg)"

section \<open>What a call adds to the trace\<close>

lemma sys_epoll_create1_trace:
  "sys_epoll_create1 K flags s = (r, s') \<Longrightarrow> trace s' = trace s @ [CEpollCreate r] \<and> pfm_cell s' = pfm_cell s"
  by (auto simp: sys_epoll_create1_def split: prod.splits)

lemma sys_epoll_ctl_trace:
  "sys_epoll_ctl K epfd op fd ev s = (r, s') \<Longrightarrow> trace s' = trace s @ [CEpollCtl epfd op fd ev r] \<and> pfm_cell s' = pfm_cell s"
  by (auto simp: sys_epoll_ctl_def split: prod.splits)

lemma sys_epoll_wait_trace:
  "sys_epoll_wait K epfd n timeout s = (r, evs, s') \<Longrightarrow> trace s' = trace s @ [CEpollWait epfd r] \<and> pfm_cell s' = pfm_cell s"
  by (auto simp: sys_epoll_wait_def split: prod.splits)

lemma sys_read_trace:
  "sys_read K fd n s = (r, bs, s') \<Longrightarrow> trace s' = trace s @ [CRead fd n r bs] \<and> pfm_cell s' = pfm_cell s"
  by (auto simp: sys_read_def split: prod.splits)

lemma sys_timerfd_create_trace:
  "sys_timerfd_create K clk flags s = (r, s') \<Longrightarrow> trace s' = trace s @ [CTimerCreate clk r] \<and> pfm_cell s' = pfm_cell s"
  by (auto simp: sys_timerfd_create_def split: prod.splits)

lemma sys_timerfd_settime_trace:
  "sys_timerfd_settime K fd flags spec s = (r, s') \<Longrightarrow> trace s' = trace s @ [CTimerSettime fd spec r] \<and> pfm_cell s' = pfm_cell s"
  by (auto simp: sys_timerfd_settime_def split: prod.splits)

lemma sys_sigprocmask_trace:
  "sys_sigprocmask K how sset s = (r, s') \<Longrightarrow> trace s' = trace s @ [CSigprocmask how sset r] \<and> pfm_cell s' = pfm_cell s"
  by (auto simp: sys_sigprocmask_def split: prod.splits)

lemma sys_signalfd_trace:
  "sys_signalfd K fd sset flags s = (r, s') \<Longrightarrow> trace s' = trace s @ [CSignalfd sset r] \<and> pfm_cell s' = pfm_cell s"
  by (auto simp: sys_signalfd_def split: prod.splits)

lemma sys_umask_trace:
  "sys_umask K m s = (r, s') \<Longrightarrow> trace s' = trace s @ [CUmask m r] \<and> pfm_cell s' = pfm_cell s"
  by (auto simp: sys_umask_def split: prod.splits)

lemma sys_mq_open_trace:
  "sys_mq_open K path flags mode attr s = (r, s') \<Longrightarrow> trace s' = trace s @ [CMqOpen path flags mode attr r] \<and> pfm_cell s' = pfm_cell s"
  by (auto simp: sys_mq_open_def split: prod.splits)

lemma sys_mq_receive_trace:
  "sys_mq_receive K fd n s = (r, bs, s') \<Longrightarrow> trace s' = trace s @ [CMqReceive fd n r] \<and> pfm_cell s' = pfm_cell s"
  by (auto simp: sys_mq_receive_def split: prod.splits)

lemma sys_perf_event_open_trace:
  "sys_perf_event_open K attr pid cpu grp flags s = (r, s') \<Longrightarrow> trace s' = trace s @ [CPerfOpen attr pid cpu grp flags r] \<and> pfm_cell s' = pfm_cell s"
  by (auto simp: sys_perf_event_open_def split: prod.splits)

lemma sys_ioctl_id_trace:
  "sys_ioctl_id K fd s = (r, v, s') \<Longrightarrow> trace s' = trace s @ [CIoctlId fd r v] \<and> pfm_cell s' = pfm_cell s"
  by (auto simp: sys_ioctl_id_def split: prod.splits)

lemma sys_pfm_initialize_trace:
  "sys_pfm_initialize K s = (r, s') \<Longrightarrow> trace s' = trace s @ [CPfmInit r] \<and> pfm_cell s' = pfm_cell s"
  by (auto simp: sys_pfm_initialize_def split: prod.splits)

lemma sys_pfm_encode_trace:
  "sys_pfm_encode K ev plm attr s = (r, a, s') \<Longrightarrow> trace s' = trace s @ [CPfmEncode ev r] \<and> pfm_cell s' = pfm_cell s"
  by (auto simp: sys_pfm_encode_def split: prod.splits)

lemma sys_file_open_trace:
  "sys_file_open K path s = (r, s') \<Longrightarrow> trace s' = trace s @ [CFileOpen path r] \<and> pfm_cell s' = pfm_cell s"
  by (auto simp: sys_file_open_def split: prod.splits)

lemma sys_read_file_trace:
  "sys_read_file K path s = (r, s') \<Longrightarrow> trace s' = trace s @ [CReadFile path] \<and> pfm_cell s' = pfm_cell s"
  by (auto simp: sys_read_file_def split: prod.splits)

lemma sys_now_trace:
  "sys_now K s = (r, s') \<Longrightarrow> trace s' = trace s @ [CNow r] \<and> pfm_cell s' = pfm_cell s"
  by (auto simp: sys_now_def split: prod.splits)

lemma sys_alloc_trace:
  "sys_alloc K sz align s = (r, s') \<Longrightarrow> trace s' = trace s @ [CAlloc sz r] \<and> pfm_cell s' = pfm_cell s"
  by (auto simp: sys_alloc_def split: prod.splits)

lemma sys_realloc_trace:
  "sys_realloc K p sz new_size s = (r, s') \<Longrightarrow> trace s' = trace s @ [CRealloc p sz new_size r] \<and> pfm_cell s' = pfm_cell s"
  by (auto simp: sys_realloc_def split: prod.splits)

lemma sys_file_write_trace:
  "sys_file_write K fd bs s = (n, e, s') \<Longrightarrow>
     trace s' = trace s @ [CFileWrite fd (take n bs)] \<and> pfm_cell s' = pfm_cell s"
  by (auto simp: sys_file_write_def split: prod.splits option.splits)

lemma sys_file_write_complete:
  "sys_file_write K fd bs s = (n, None, s') \<Longrightarrow> n = length bs"
  by (auto simp: sys_file_write_def split: prod.splits option.splits)

lemma sys_unit_traces [simp]:
  "trace (sys_close K fd s) = trace s @ [CClose fd]"
  "trace (sys_mq_unlink K path s) = trace s @ [CMqUnlink path]"
  "trace (sys_dealloc K p sz s) = trace s @ [CDealloc p sz]"
  "trace (eprintln d s) = trace s @ [CStderr d]"
  "trace (println msg s) = trace s @ [CStdout msg]"
  by (simp_all add: sys_close_def sys_mq_unlink_def sys_dealloc_def eprintln_def println_def)

lemma sys_unit_cells [simp]:
  "pfm_cell (sys_close K fd s) = pfm_cell s"
  "pfm_cell (sys_mq_unlink K path s) = pfm_cell s"
  "pfm_cell (sys_dealloc K p sz s) = pfm_cell s"
  "pfm_cell (eprintln d s) = pfm_cell s"
  "pfm_cell (println msg s) = pfm_cell s"
  by (simp_all add: sys_close_def sys_mq_unlink_def sys_dealloc_def eprintln_def println_def)

lemmas sys_traces =
  sys_epoll_create1_trace
  sys_epoll_ctl_trace
  sys_epoll_wait_trace
  sys_read_trace
  sys_timerfd_create_trace
  sys_timerfd_settime_trace
  sys_sigprocmask_trace
  sys_signalfd_trace
  sys_umask_trace
  sys_mq_open_trace
  sys_mq_receive_trace
  sys_perf_event_open_trace
  sys_ioctl_id_trace
  sys_pfm_initialize_trace
  sys_pfm_encode_trace
  sys_file_open_trace
  sys_read_file_trace
  sys_now_trace
  sys_alloc_trace
  sys_realloc_trace
  sys_file_write_trace

lemmas sys_defs [os_simps] =
  sys_epoll_create1_def
  sys_epoll_ctl_def
  sys_epoll_wait_def
  sys_read_def
  sys_timerfd_create_def
  sys_timerfd_settime_def
  sys_sigprocmask_def
  sys_signalfd_def
  sys_umask_def
  sys_mq_open_def
  sys_mq_receive_def
  sys_perf_event_open_def
  sys_ioctl_id_def
  sys_pfm_initialize_def
  sys_pfm_encode_def
  sys_file_open_def
  sys_read_file_def
  sys_now_def
  sys_alloc_def
  sys_realloc_def
  sys_file_write_def sys_close_def sys_mq_unlink_def sys_dealloc_def eprintln_def println_def
  sys_sigemptyset_def sys_sigaddset_def last_os_error_def

section \<open>The descriptors a trace opens and closes\<close>

text \<open>
  What the calls of a trace open (each by the test the code applies to the result; the
  descriptor of a counter goes through \<open>as i32\<close>) and what they close.
\<close>

fun opened_fd :: "call \<Rightarrow> int multiset" where
  "opened_fd (CPerfOpen attr pid cpu grp flags ret) = (if ret < 0 then {#} else {#as_i32 ret#})"
| "opened_fd (CFileOpen path ret) = (if ret < 0 then {#} else {#ret#})"
| "opened_fd (CEpollCreate ret) = (if ret = -1 then {#} else {#ret#})"
| "opened_fd (CTimerCreate clk ret) = (if ret = -1 then {#} else {#ret#})"
| "opened_fd (CSignalfd sset ret) = (if ret = -1 then {#} else {#ret#})"
| "opened_fd (CMqOpen path flags mode attr ret) = (if ret = -1 then {#} else {#ret#})"
| "opened_fd _ = {#}"

fun closed_fd :: "call \<Rightarrow> int multiset" where
  "closed_fd (CClose fd) = {#fd#}"
| "closed_fd _ = {#}"

definition fds_opened :: "call list \<Rightarrow> int multiset" where
  "fds_opened cs = sum_list (map opened_fd cs)"

definition fds_closed :: "call list \<Rightarrow> int multiset" where
  "fds_closed cs = sum_list (map closed_fd cs)"

lemma fds_opened_simps [simp, trace_simps]:
  "fds_opened [] = {#}" "fds_opened (c # cs) = opened_fd c + fds_opened cs"
  "fds_opened (xs @ ys) = fds_opened xs + fds_opened ys"
  by (simp_all add: fds_opened_def)

lemma fds_closed_simps [simp, trace_simps]:
  "fds_closed [] = {#}" "fds_closed (c # cs) = closed_fd c + fds_closed cs"
  "fds_closed (xs @ ys) = fds_closed xs + fds_closed ys"
  by (simp_all add: fds_closed_def)

end
