(* ===== verification/Non_Empty.thy ===== *)
theory Non_Empty
  imports Prelude
begin

text \<open>
  The crate \<open>non-empty\<close> (\<open>non-empty/src/lib.rs\<close>): a boxed slice that is never empty, and the
  \<open>MaybeNonEmpty\<close> that an iterator is collected into. The type's field is private to the crate,
  so the values a client can hold are those the public operations build; \<open>built\<close> is that set,
  one rule per operation that makes or mutates a value. The unchecked index of \<open>first\<close> is
  undefined behaviour on an empty slice, which the theorems exclude for every built value. The
  derived ordering is the lexicographic one and makes the type an instance of \<open>linorder\<close>.
\<close>

section \<open>The types and their operations\<close>

datatype 'a non_empty = NonEmpty (elems: "'a list")

datatype 'a maybe_non_empty = MaybeNonEmpty "'a non_empty option"

definition new_single :: "'a \<Rightarrow> 'a non_empty" where
  "new_single val = NonEmpty [val]"

text \<open>\<open>get_unchecked(0)\<close> and \<open>get_unchecked_mut(0)\<close>: no bounds check.\<close>

definition first :: "'a non_empty \<Rightarrow> 'a outcome" where
  "first ne = (case elems ne of [] \<Rightarrow> Undefined | x # _ \<Rightarrow> Return x)"

definition first_mut :: "('a \<Rightarrow> 'a) \<Rightarrow> 'a non_empty \<Rightarrow> 'a non_empty outcome" where
  "first_mut f ne = (case elems ne of [] \<Rightarrow> Undefined | x # xs \<Rightarrow> Return (NonEmpty (f x # xs)))"

text \<open>The associated function \<open>NonEmpty::is_empty()\<close>, which takes no receiver.\<close>

definition ne_is_empty :: bool where
  "ne_is_empty = False"

text \<open>The shared iterator, in the order in which it yields.\<close>

definition ne_iter :: "'a non_empty \<Rightarrow> 'a list" where
  "ne_iter ne = elems ne"

definition iter_mut :: "('a \<Rightarrow> 'a) \<Rightarrow> 'a non_empty \<Rightarrow> 'a non_empty" where
  "iter_mut f ne = NonEmpty (map f (elems ne))"

fun into_option :: "'a maybe_non_empty \<Rightarrow> 'a non_empty option" where
  "into_option (MaybeNonEmpty m) = m"

definition from_iter :: "'a list \<Rightarrow> 'a maybe_non_empty" where
  "from_iter vals = MaybeNonEmpty (if vals = [] then None else Some (NonEmpty vals))"

text \<open>
  The dereferences. \<open>MaybeNonEmpty\<close> gives its option; a \<open>NonEmpty\<close> gives its slice, and
  \<open>as_ref\<close> and the iteration over a reference the same slice. Through the mutable dereference a
  client can run any operation \<open>f\<close> on the slice; slice operations keep the length.
\<close>

definition maybe_deref :: "'a maybe_non_empty \<Rightarrow> 'a non_empty option" where
  "maybe_deref m = into_option m"

definition ne_deref :: "'a non_empty \<Rightarrow> 'a list" where
  "ne_deref ne = elems ne"

definition ne_as_ref :: "'a non_empty \<Rightarrow> 'a list" where
  "ne_as_ref ne = elems ne"

definition ref_into_iter :: "'a non_empty \<Rightarrow> 'a list" where
  "ref_into_iter ne = elems ne"

definition ne_deref_mut :: "('a list \<Rightarrow> 'a list) \<Rightarrow> 'a non_empty \<Rightarrow> 'a non_empty" where
  "ne_deref_mut f ne = NonEmpty (f (elems ne))"

definition ne_as_mut :: "('a list \<Rightarrow> 'a list) \<Rightarrow> 'a non_empty \<Rightarrow> 'a non_empty" where
  "ne_as_mut f ne = NonEmpty (f (elems ne))"

definition mut_into_iter :: "('a \<Rightarrow> 'a) \<Rightarrow> 'a non_empty \<Rightarrow> 'a non_empty" where
  "mut_into_iter f ne = NonEmpty (map f (elems ne))"

text \<open>\<open>Index\<close> and \<open>IndexMut\<close> at a \<open>usize\<close>: the slice's checked index, which panics.\<close>

definition ne_index :: "'a non_empty \<Rightarrow> nat \<Rightarrow> 'a outcome" where
  "ne_index ne i =
     (if i < length (elems ne) then Return (elems ne ! i) else Panic ''index out of bounds'')"

definition ne_index_mut :: "nat \<Rightarrow> 'a \<Rightarrow> 'a non_empty \<Rightarrow> 'a non_empty outcome" where
  "ne_index_mut i v ne =
     (if i < length (elems ne) then Return (NonEmpty ((elems ne)[i := v]))
      else Panic ''index out of bounds'')"

text \<open>The conversions out of the types; all give the same elements.\<close>

definition option_from :: "'a maybe_non_empty \<Rightarrow> 'a non_empty option" where
  "option_from m = into_option m"

definition owned_into_iter :: "'a non_empty \<Rightarrow> 'a list" where
  "owned_into_iter ne = elems ne"

definition into_boxed_slice :: "'a non_empty \<Rightarrow> 'a list" where
  "into_boxed_slice ne = elems ne"

definition into_vec :: "'a non_empty \<Rightarrow> 'a list" where
  "into_vec ne = elems ne"

section \<open>The derived ordering\<close>

instantiation non_empty :: (linorder) linorder
begin

definition less_eq_non_empty :: "'a non_empty \<Rightarrow> 'a non_empty \<Rightarrow> bool" where
  "less_eq_non_empty x y \<longleftrightarrow> lexordp_eq (elems x) (elems y)"

definition less_non_empty :: "'a non_empty \<Rightarrow> 'a non_empty \<Rightarrow> bool" where
  "less_non_empty x y \<longleftrightarrow> ord_class.lexordp (elems x) (elems y)"

instance
proof
  fix x y z :: "'a non_empty"
  show "(x < y) = (x \<le> y \<and> \<not> y \<le> x)"
    by (simp add: less_non_empty_def less_eq_non_empty_def lexordp_conv_lexordp_eq)
  show "x \<le> x"
    by (simp add: less_eq_non_empty_def lexordp_eq_refl)
  show "x \<le> y \<Longrightarrow> y \<le> z \<Longrightarrow> x \<le> z"
    by (auto simp: less_eq_non_empty_def intro: lexordp_eq_trans)
  show "x \<le> y \<Longrightarrow> y \<le> x \<Longrightarrow> x = y"
    by (cases x; cases y) (auto simp: less_eq_non_empty_def dest: lexordp_eq_antisym)
  show "x \<le> y \<or> y \<le> x"
    using lexordp_eq_linear [of "elems x" "elems y"] by (auto simp: less_eq_non_empty_def)
qed

end

section \<open>Values a client can build\<close>

inductive built :: "'a non_empty \<Rightarrow> bool" where
  single: "built (new_single v)"
| collected: "into_option (from_iter vals) = Some ne \<Longrightarrow> built ne"
| mutated: "built ne \<Longrightarrow> built (iter_mut f ne)"
| first_mutated: "built ne \<Longrightarrow> first_mut f ne = Return ne' \<Longrightarrow> built ne'"
| indexed: "built ne \<Longrightarrow> ne_index_mut i v ne = Return ne' \<Longrightarrow> built ne'"
| dereferenced: "built ne \<Longrightarrow> (\<And>xs. length (g xs) = length xs) \<Longrightarrow> built (ne_deref_mut g ne)"
| as_mutated: "built ne \<Longrightarrow> (\<And>xs. length (g xs) = length xs) \<Longrightarrow> built (ne_as_mut g ne)"
| iterated: "built ne \<Longrightarrow> built (mut_into_iter f ne)"

lemma built_nonempty: "built ne \<Longrightarrow> elems ne \<noteq> []"
proof (induction rule: built.induct)
  case (dereferenced ne g)
  then show ?case by (metis length_0_conv ne_deref_mut_def non_empty.sel)
next
  case (as_mutated ne g)
  then show ?case by (metis length_0_conv ne_as_mut_def non_empty.sel)
qed (auto simp: new_single_def from_iter_def iter_mut_def first_mut_def ne_index_mut_def mut_into_iter_def
    split: if_splits list.splits)

lemma built_NonEmpty: "built (NonEmpty xs) \<longleftrightarrow> xs \<noteq> []"
proof
  assume "xs \<noteq> []"
  then have "into_option (from_iter xs) = Some (NonEmpty xs)" by (simp add: from_iter_def)
  then show "built (NonEmpty xs)" by (rule built.collected)
qed (auto dest: built_nonempty)

text \<open>Collecting the elements of a value gives the value back.\<close>

lemma collect_elems: "built ne \<Longrightarrow> maybe_deref (from_iter (into_vec ne)) = Some ne"
  by (cases ne) (auto simp: maybe_deref_def from_iter_def into_vec_def dest: built_nonempty)

lemma built_first: "built ne \<Longrightarrow> first ne = Return (hd (elems ne))"
  by (cases "elems ne") (auto simp: first_def dest: built_nonempty)

text \<open>
  No sequence of public operations makes \<open>first\<close> or \<open>first_mut\<close> run into undefined
  behaviour: for every value a client can hold, both read the element at index 0, the checked
  index agrees with them, and mutation keeps the length.
\<close>

theorem first_never_undefined:
  assumes "built ne"
  shows "first ne = ne_index ne 0 \<and> returns (first ne)
    \<and> (\<exists>ne'. first_mut f ne = Return ne' \<and> length (elems ne') = length (elems ne) \<and> built ne')"
proof -
  obtain x xs where x: "elems ne = x # xs"
    using built_nonempty [OF assms] by (cases "elems ne") auto
  have "first_mut f ne = Return (NonEmpty (f x # xs))" by (simp add: first_mut_def x)
  then show ?thesis
    by (auto simp: first_def ne_index_def x built_NonEmpty)
qed

theorem first_never_undefined_witness:
  "first (NonEmpty [7, 8::nat]) = ne_index (NonEmpty [7, 8]) 0 \<and> returns (first (NonEmpty [7, 8::nat]))
    \<and> (\<exists>ne'. first_mut Suc (NonEmpty [7, 8]) = Return ne'
          \<and> length (elems ne') = length (elems (NonEmpty [7, 8::nat])) \<and> built ne')"
  by (rule first_never_undefined) (simp add: built_NonEmpty)

end
