(* ===== verification/Slab.thy ===== *)
theory Slab
  imports Prelude "HOL-Library.AList"
begin

text \<open>
  The slot table the poller keeps its sources in. The crate \<open>slab\<close> is a dependency, so the
  table is a parameter: a record of the operations \<open>poll/src/lib.rs\<close> calls, and the predicate
  \<open>slab_laws\<close> with what the crate documents of them, stated over the lookup function. The
  association table at the end is one implementation that satisfies the laws; the witnesses
  instantiate the parameter with it.
\<close>

section \<open>The operations and their documented laws\<close>

text \<open>\<open>sl_set\<close> is the store through the reference that \<open>get_mut\<close> hands out.\<close>

record ('v, 'sl) slab_ops =
  sl_new :: 'sl
  sl_insert :: "'v \<Rightarrow> 'sl \<Rightarrow> nat \<times> 'sl"
  sl_get :: "'sl \<Rightarrow> nat \<Rightarrow> 'v option"
  sl_set :: "nat \<Rightarrow> 'v \<Rightarrow> 'sl \<Rightarrow> 'sl"
  sl_try_remove :: "nat \<Rightarrow> 'sl \<Rightarrow> 'v option \<times> 'sl"
  sl_is_empty :: "'sl \<Rightarrow> bool"

definition slab_laws :: "('v, 'sl) slab_ops \<Rightarrow> bool" where
  "slab_laws S \<longleftrightarrow>
     sl_get S (sl_new S) = Map.empty
   \<and> (\<forall>v sl k sl'. sl_insert S v sl = (k, sl') \<longrightarrow>
        sl_get S sl k = None \<and> sl_get S sl' = (sl_get S sl)(k \<mapsto> v))
   \<and> (\<forall>k v sl. sl_get S sl k \<noteq> None \<longrightarrow> sl_get S (sl_set S k v sl) = (sl_get S sl)(k \<mapsto> v))
   \<and> (\<forall>k sl. fst (sl_try_remove S k sl) = sl_get S sl k
        \<and> sl_get S (snd (sl_try_remove S k sl)) = (sl_get S sl)(k := None))
   \<and> (\<forall>sl. sl_is_empty S sl \<longleftrightarrow> sl_get S sl = Map.empty)
   \<and> (\<forall>sl. finite (dom (sl_get S sl)))"

lemma slab_new: "slab_laws S \<Longrightarrow> sl_get S (sl_new S) = Map.empty"
  by (simp add: slab_laws_def)

lemma slab_insert:
  "slab_laws S \<Longrightarrow> sl_insert S v sl = (k, sl') \<Longrightarrow>
     sl_get S sl k = None \<and> sl_get S sl' = (sl_get S sl)(k \<mapsto> v)"
  unfolding slab_laws_def by blast

lemma slab_set:
  "slab_laws S \<Longrightarrow> sl_get S sl k = Some u \<Longrightarrow> sl_get S (sl_set S k v sl) = (sl_get S sl)(k \<mapsto> v)"
  unfolding slab_laws_def by (metis option.distinct(1))

lemma slab_try_remove:
  assumes "slab_laws S" "sl_try_remove S k sl = (r, sl')"
  shows "r = sl_get S sl k" "sl_get S sl' = (sl_get S sl)(k := None)"
proof -
  have "fst (sl_try_remove S k sl) = sl_get S sl k
      \<and> sl_get S (snd (sl_try_remove S k sl)) = (sl_get S sl)(k := None)"
    using assms(1) unfolding slab_laws_def by blast
  then show "r = sl_get S sl k" "sl_get S sl' = (sl_get S sl)(k := None)"
    by (simp_all add: assms(2))
qed

lemma slab_is_empty: "slab_laws S \<Longrightarrow> sl_is_empty S sl \<longleftrightarrow> sl_get S sl = Map.empty"
  unfolding slab_laws_def by blast

lemma slab_finite: "slab_laws S \<Longrightarrow> finite (dom (sl_get S sl))"
  unfolding slab_laws_def by blast

section \<open>An association table with these laws\<close>

fun fresh_key :: "(nat \<times> 'v) list \<Rightarrow> nat" where
  "fresh_key [] = 0"
| "fresh_key ((k, _) # sl) = max (Suc k) (fresh_key sl)"

definition assoc_slab :: "('v, (nat \<times> 'v) list) slab_ops" where
  "assoc_slab = \<lparr>sl_new = [],
     sl_insert = (\<lambda>v sl. (fresh_key sl, (fresh_key sl, v) # sl)),
     sl_get = map_of,
     sl_set = AList.update,
     sl_try_remove = (\<lambda>k sl. (map_of sl k, AList.delete k sl)),
     sl_is_empty = (\<lambda>sl. sl = [])\<rparr>"

lemma assoc_slab_simps [simp]:
  "sl_new assoc_slab = []"
  "sl_insert assoc_slab v sl = (fresh_key sl, (fresh_key sl, v) # sl)"
  "sl_get assoc_slab = map_of"
  "sl_set assoc_slab = AList.update"
  "sl_try_remove assoc_slab k sl = (map_of sl k, AList.delete k sl)"
  "sl_is_empty assoc_slab sl \<longleftrightarrow> sl = []"
  by (simp_all add: assoc_slab_def)

lemma fresh_key_above: "k \<in> fst ` set sl \<Longrightarrow> k < fresh_key sl"
  by (induction sl rule: fresh_key.induct) (force simp: less_max_iff_disj)+

lemma fresh_key_unused: "map_of sl (fresh_key sl) = None"
  using fresh_key_above [of "fresh_key sl" sl] by (auto simp: map_of_eq_None_iff)

lemma assoc_slab_laws: "slab_laws assoc_slab"
  unfolding slab_laws_def
  by (auto simp: fresh_key_unused update_conv' delete_conv' finite_dom_map_of)

end
