(* ===== verification/Simulation.thy ===== *)
theory Simulation
  imports Kernel "HOL-Library.AList"
begin

text \<open>
  Concrete environments for the witnesses: an operating system in which every call succeeds and
  changes nothing, and one with a working epoll instance whose descriptors have all hung up.
  They show that the hypotheses of the theorems can hold together; no definition of the model
  depends on them.
\<close>

definition idle_kernel :: "'w kernel" where
  "idle_kernel = \<lparr>
     k_errno = (\<lambda>w. 0),
     k_epoll_create1 = (\<lambda>flags w. (3, w)),
     k_epoll_ctl = (\<lambda>epfd op fd ev w. (0, w)),
     k_epoll_wait = (\<lambda>epfd n t w. (0, [], w)),
     k_read = (\<lambda>fd n w. (int n, replicate n 0, w)),
     k_close = (\<lambda>fd w. w),
     k_timerfd_create = (\<lambda>clk flags w. (5, w)),
     k_timerfd_settime = (\<lambda>fd flags spec w. (0, w)),
     k_sigemptyset = (\<lambda>w. (0, [], w)),
     k_sigaddset = (\<lambda>sset sig w. (0, sset @ [word_of_int sig], w)),
     k_sigprocmask = (\<lambda>how sset w. (0, w)),
     k_signalfd = (\<lambda>fd sset flags w. (4, w)),
     k_umask = (\<lambda>m w. (18, w)),
     k_mq_open = (\<lambda>path flags mode attr w. (6, w)),
     k_mq_receive = (\<lambda>fd n w. (int n, replicate n 0, w)),
     k_mq_unlink = (\<lambda>path w. w),
     k_perf_event_open = (\<lambda>attr pid cpu grp flags w. (7, w)),
     k_ioctl_id = (\<lambda>fd w. (0, 1, w)),
     k_pfm_initialize = (\<lambda>w. (0, w)),
     k_pfm_encode = (\<lambda>ev plm attr w. (0, attr, w)),
     k_file_open = (\<lambda>path w. (8, w)),
     k_file_write = (\<lambda>fd bs w. (length bs, None, w)),
     k_read_file = (\<lambda>path w. (None, w)),
     k_now = (\<lambda>w. (0, w)),
     k_alloc = (\<lambda>sz align w. (4096, w)),
     k_realloc = (\<lambda>p sz new_size w. (4096, w)),
     k_dealloc = (\<lambda>p sz w. w)\<rparr>"

text \<open>The world of \<open>hung_kernel\<close> is its interest list.\<close>

definition hung_kernel :: "(int \<times> u64) list kernel" where
  "hung_kernel = idle_kernel\<lparr>
     k_epoll_create1 := (\<lambda>flags w. (3, [])),
     k_epoll_ctl := (\<lambda>epfd op fd ev w.
        (0, case ev of None \<Rightarrow> AList.delete fd w | Some e \<Rightarrow> AList.update fd (ee_data e) w)),
     k_epoll_wait := (\<lambda>epfd n t w.
        let evs = take n (map (\<lambda>(fd, d). \<lparr>ee_events = 0x10, ee_data = d\<rparr>) (AList.clearjunk w))
        in (int (length evs), evs, w))\<rparr>"

definition hung_interest :: "(int \<times> u64) list \<Rightarrow> int \<Rightarrow> int \<Rightarrow> u64 option" where
  "hung_interest w epfd = map_of w"

end
