(* ===== verification/Poll.thy ===== *)
theory Poll
  imports Slab Simulation
begin

text \<open>
  The event loop of the crate \<open>poll\<close> (\<open>poll/src/lib.rs\<close>). A registered source is the boxed
  handler with the value it borrows: the type \<open>'p\<close> stands for what the trait object hides (the
  pollable value together with whatever the closure captured), \<open>'c\<close> for the context handed to
  every handler. \<open>wait_ready\<close> (the retry loop around \<open>epoll_wait\<close>) and \<open>run\<close> may go on for ever
  in the code, so they are partial functions: \<open>None\<close> is a call that does not return.
\<close>

section \<open>Data\<close>

datatype poll_action = Continue | Stop | Remove

text \<open>The constants of the libc crate the loop uses, with their Linux values.\<close>

definition EPOLL_CLOEXEC :: int where "EPOLL_CLOEXEC = 0x80000"
definition EPOLL_CTL_ADD :: int where "EPOLL_CTL_ADD = 1"
definition EPOLL_CTL_DEL :: int where "EPOLL_CTL_DEL = 2"
definition EPOLLIN :: u32 where "EPOLLIN = 0x1"
definition EPOLLERR :: u32 where "EPOLLERR = 0x8"
definition EPOLLHUP :: u32 where "EPOLLHUP = 0x10"

definition COUNT :: nat where "COUNT = 10"
definition HANGUP :: u32 where "HANGUP = EPOLLERR OR EPOLLHUP"
definition READABLE :: u32 where "READABLE = EPOLLIN"

lemmas epoll_constants =
  EPOLL_CLOEXEC_def EPOLL_CTL_ADD_def EPOLL_CTL_DEL_def EPOLLIN_def EPOLLERR_def EPOLLHUP_def
  COUNT_def HANGUP_def READABLE_def

type_synonym ('p, 'c, 'w) handler =
  "'p \<Rightarrow> 'c \<Rightarrow> 'w os \<Rightarrow> (io_error + poll_action) outcome \<times> 'p \<times> 'c \<times> 'w os"

record ('p, 'c, 'w) source =
  src_fd :: int
  src_r :: 'p
  src_func :: "('p, 'c, 'w) handler"

record 'sl poller =
  poller_fd :: int
  sources :: 'sl

type_synonym ('p, 'c, 'w, 'sl) slab = "(('p, 'c, 'w) source, 'sl) slab_ops"

section \<open>Operations\<close>

definition call_func ::
    "('p, 'c, 'w) source \<Rightarrow> 'c \<Rightarrow> 'w os \<Rightarrow>
       (io_error + poll_action) outcome \<times> ('p, 'c, 'w) source \<times> 'c \<times> 'w os" where
  "call_func src ctx s =
     (case src_func src (src_r src) ctx s of (res, r, ctx', s') \<Rightarrow> (res, src\<lparr>src_r := r\<rparr>, ctx', s'))"

definition epoll_create :: "'w kernel \<Rightarrow> 'w os \<Rightarrow> (io_error + int) \<times> 'w os" where
  "epoll_create K s =
     (case sys_epoll_create1 K EPOLL_CLOEXEC s of (r, s') \<Rightarrow>
        (if r = -1 then Inl (last_os_error K s') else Inr r, s'))"

definition poller_new ::
    "'w kernel \<Rightarrow> ('p, 'c, 'w, 'sl) slab \<Rightarrow> 'w os \<Rightarrow> 'sl poller outcome \<times> 'w os" where
  "poller_new K S s =
     (case epoll_create K s of
        (Inl _, s') \<Rightarrow> (Panic ''Failed to open epoll'', s')
      | (Inr fd, s') \<Rightarrow> (Return \<lparr>poller_fd = fd, sources = sl_new S\<rparr>, s'))"

definition poller_default ::
    "'w kernel \<Rightarrow> ('p, 'c, 'w, 'sl) slab \<Rightarrow> 'w os \<Rightarrow> 'sl poller outcome \<times> 'w os" where
  "poller_default K S s = poller_new K S s"

text \<open>\<open>register_mut\<close>; \<open>pollable_fd\<close> is the method of the trait \<open>Pollable\<close>.\<close>

definition register_mut ::
    "'w kernel \<Rightarrow> ('p, 'c, 'w, 'sl) slab \<Rightarrow> ('p \<Rightarrow> int) \<Rightarrow> 'p \<Rightarrow> ('p, 'c, 'w) handler \<Rightarrow>
       'sl poller \<Rightarrow> 'w os \<Rightarrow> unit outcome \<times> 'sl poller \<times> 'w os" where
  "register_mut K S pollable_fd source handler p s =
     (let fd = pollable_fd source in
      case sl_insert S \<lparr>src_fd = fd, src_r = source, src_func = handler\<rparr> (sources p) of
        (key, sl) \<Rightarrow>
          (let p' = p\<lparr>sources := sl\<rparr> in
           if 2 ^ 64 \<le> key then (Panic ''usize can't convert to u64'', p', s)
           else case sys_epoll_ctl K (poller_fd p) EPOLL_CTL_ADD fd
                       (Some \<lparr>ee_events = EPOLLIN, ee_data = of_nat key\<rparr>) s of
             (res, s') \<Rightarrow>
               (if res \<noteq> -1 then Return () else Panic ''Failed to add fd to epoll'', p', s')))"

definition deregister ::
    "'w kernel \<Rightarrow> ('p, 'c, 'w, 'sl) slab \<Rightarrow> nat \<Rightarrow> 'sl poller \<Rightarrow> 'w os \<Rightarrow>
       (io_error + unit) \<times> 'sl poller \<times> 'w os" where
  "deregister K S key p s =
     (case sl_try_remove S key (sources p) of
        (None, sl) \<Rightarrow> (Inr (), p\<lparr>sources := sl\<rparr>, s)
      | (Some source, sl) \<Rightarrow>
          (let p' = p\<lparr>sources := sl\<rparr> in
           case sys_epoll_ctl K (poller_fd p) EPOLL_CTL_DEL (src_fd source) None s of
             (res, s') \<Rightarrow>
               (if res = -1 then Inl (last_os_error K s') else Inr (), p', s')))"

text \<open>
  The wait loop of \<open>poll_once\<close>. \<open>arr\<close> is the event array, zeroed before the first wait; the
  kernel overwrites a prefix of it.
\<close>

definition zero_events :: "epoll_event list" where
  "zero_events = replicate COUNT \<lparr>ee_events = 0, ee_data = 0\<rparr>"

partial_function (option) wait_ready ::
    "'w kernel \<Rightarrow> int \<Rightarrow> epoll_event list \<Rightarrow> 'w os \<Rightarrow>
       ((io_error + nat \<times> epoll_event list) \<times> 'w os) option" where
  "wait_ready K epfd arr s =
     (case sys_epoll_wait K epfd COUNT (-1) s of (ret, evs, s') \<Rightarrow>
        if 0 \<le> ret then Some (Inr (nat ret, fill arr evs), s')
        else if kind (last_os_error K s') \<noteq> Interrupted then Some (Inl (last_os_error K s'), s')
        else wait_ready K epfd (fill arr evs) s')"

text \<open>
  One iteration of the dispatch loop: \<open>NextEvent\<close> goes on to the next event, \<open>StopNow\<close> is the
  early return of \<open>PollAction::Stop\<close>.
\<close>

datatype flow = NextEvent | StopNow

definition deregister_and_go ::
    "'w kernel \<Rightarrow> ('p, 'c, 'w, 'sl) slab \<Rightarrow> nat \<Rightarrow> 'sl poller \<Rightarrow> 'c \<Rightarrow> 'w os \<Rightarrow>
       (io_error + flow) outcome \<times> 'sl poller \<times> 'c \<times> 'w os" where
  "deregister_and_go K S key p ctx s =
     (case deregister K S key p s of
        (Inl e, p', s') \<Rightarrow> (Return (Inl e), p', ctx, s')
      | (Inr _, p', s') \<Rightarrow> (Return (Inr NextEvent), p', ctx, s'))"

text \<open>The \<open>match\<close> that turns the handler's result into an action or the loop's error.\<close>

definition resolve_action :: "bool \<Rightarrow> io_error + poll_action \<Rightarrow> io_error + poll_action" where
  "resolve_action hangup result =
     (case result of Inr action \<Rightarrow> Inr action | Inl e \<Rightarrow> if hangup then Inr Remove else Inl e)"

definition handle_event ::
    "'w kernel \<Rightarrow> ('p, 'c, 'w, 'sl) slab \<Rightarrow> epoll_event \<Rightarrow> 'sl poller \<Rightarrow> 'c \<Rightarrow> 'w os \<Rightarrow>
       (io_error + flow) outcome \<times> 'sl poller \<times> 'c \<times> 'w os" where
  "handle_event K S event p ctx s =
     (let flags = ee_events event in
      if flags AND (READABLE OR HANGUP) = 0 then (Return (Inr NextEvent), p, ctx, s)
      else
        let key = unat (ee_data event); hangup = flags AND HANGUP \<noteq> 0 in
        case sl_get S (sources p) key of
          None \<Rightarrow> (Panic ''Somehow got wrong slab index'', p, ctx, s)
        | Some src \<Rightarrow>
            (case call_func src ctx s of (out, src', ctx', s') \<Rightarrow>
               let p' = p\<lparr>sources := sl_set S key src' (sources p)\<rparr> in
               case out of
                 Panic m \<Rightarrow> (Panic m, p', ctx', s')
               | Undefined \<Rightarrow> (Undefined, p', ctx', s')
               | Return result \<Rightarrow>
                   (case resolve_action hangup result of
                      Inl e \<Rightarrow> (Return (Inl e), p', ctx', s')
                    | Inr Stop \<Rightarrow> (Return (Inr StopNow), p', ctx', s')
                    | Inr Remove \<Rightarrow> deregister_and_go K S key p' ctx' s'
                    | Inr Continue \<Rightarrow>
                        if hangup then deregister_and_go K S key p' ctx' s'
                        else (Return (Inr NextEvent), p', ctx', s'))))"

fun dispatch ::
    "'w kernel \<Rightarrow> ('p, 'c, 'w, 'sl) slab \<Rightarrow> epoll_event list \<Rightarrow> 'sl poller \<Rightarrow> 'c \<Rightarrow> 'w os \<Rightarrow>
       (io_error + flow) outcome \<times> 'sl poller \<times> 'c \<times> 'w os" where
  "dispatch K S [] p ctx s = (Return (Inr NextEvent), p, ctx, s)"
| "dispatch K S (event # events) p ctx s =
     (case handle_event K S event p ctx s of
        (Return (Inr NextEvent), p', ctx', s') \<Rightarrow> dispatch K S events p' ctx' s'
      | halted \<Rightarrow> halted)"

definition poll_once ::
    "'w kernel \<Rightarrow> ('p, 'c, 'w, 'sl) slab \<Rightarrow> 'sl poller \<Rightarrow> 'c \<Rightarrow> 'w os \<Rightarrow>
       ((io_error + poll_action) outcome \<times> 'sl poller \<times> 'c \<times> 'w os) option" where
  "poll_once K S p ctx s =
     (case wait_ready K (poller_fd p) zero_events s of
        None \<Rightarrow> None
      | Some (Inl e, s') \<Rightarrow> Some (Return (Inl e), p, ctx, s')
      | Some (Inr (ready, events), s') \<Rightarrow>
          Some (if length events < ready then (Panic ''range end index out of range'', p, ctx, s')
            else case dispatch K S (take ready events) p ctx s' of
              (out, p', ctx', s'') \<Rightarrow>
                (case out of
                   Panic m \<Rightarrow> Panic m
                 | Undefined \<Rightarrow> Undefined
                 | Return (Inl e) \<Rightarrow> Return (Inl e)
                 | Return (Inr StopNow) \<Rightarrow> Return (Inr Stop)
                 | Return (Inr NextEvent) \<Rightarrow>
                     Return (Inr (if sl_is_empty S (sources p') then Stop else Continue)),
                 p', ctx', s'')))"

partial_function (option) run ::
    "'w kernel \<Rightarrow> ('p, 'c, 'w, 'sl) slab \<Rightarrow> 'sl poller \<Rightarrow> 'c \<Rightarrow> 'w os \<Rightarrow>
       ((io_error + unit) outcome \<times> 'sl poller \<times> 'c \<times> 'w os) option" where
  "run K S p ctx s =
     (case poll_once K S p ctx s of
        None \<Rightarrow> None
      | Some (out, p', ctx', s') \<Rightarrow>
          (case out of
             Panic m \<Rightarrow> Some (Panic m, p', ctx', s')
           | Undefined \<Rightarrow> Some (Undefined, p', ctx', s')
           | Return (Inl e) \<Rightarrow> Some (Return (Inl e), p', ctx', s')
           | Return (Inr Stop) \<Rightarrow> Some (Return (Inr ()), p', ctx', s')
           | Return (Inr Continue) \<Rightarrow> run K S p' ctx' s'
           | Return (Inr Remove) \<Rightarrow>
               Some (Panic ''poll_once never surfaces per-source actions'', p', ctx', s')))"

section \<open>Induction over the two loops\<close>

text \<open>
  The rules below turn "the loop returned" into an induction over its iterations: the last
  iteration, and an iteration that goes round again.
\<close>

lemma wait_ready_induct [consumes 1, case_names finished retried]:
  assumes ret: "wait_ready K epfd arr s = Some (r, s')"
    and finished: "\<And>arr s ret evs. sys_epoll_wait K epfd COUNT (-1) s = (ret, evs, s') \<Longrightarrow>
      0 \<le> ret \<and> r = Inr (nat ret, fill arr evs)
        \<or> ret < 0 \<and> r = Inl (last_os_error K s') \<and> kind (last_os_error K s') \<noteq> Interrupted \<Longrightarrow> P arr s"
    and retried: "\<And>arr s ret evs s1. sys_epoll_wait K epfd COUNT (-1) s = (ret, evs, s1) \<Longrightarrow>
      ret < 0 \<Longrightarrow> kind (last_os_error K s1) = Interrupted \<Longrightarrow>
      P (fill arr evs) s1 \<Longrightarrow> P arr s"
  shows "P arr s"
proof -
  have "y = (r, s') \<longrightarrow> k = K \<longrightarrow> e = epfd \<longrightarrow> P a t"
    if "wait_ready k e a t = Some y" for k e a t y
  proof (rule wait_ready.raw_induct [OF _ that], intro impI)
    fix f k e a t y
    assume IH: "\<And>k e a t y. f k e a t = Some y \<Longrightarrow>
        y = (r, s') \<longrightarrow> k = K \<longrightarrow> e = epfd \<longrightarrow> P a t"
      and body: "(case sys_epoll_wait k e COUNT (-1) t of (ret, evs, s') \<Rightarrow>
          if 0 \<le> ret then Some (Inr (nat ret, fill a evs), s')
          else if kind (last_os_error k s') \<noteq> Interrupted then Some (Inl (last_os_error k s'), s')
          else f k e (fill a evs) s') = Some y"
      and eqs: "y = (r, s')" "k = K" "e = epfd"
    obtain ret evs s2 where call: "sys_epoll_wait K epfd COUNT (-1) t = (ret, evs, s2)"
      by (metis prod_cases3)
    show "P a t"
    proof (cases "0 \<le> ret \<or> kind (last_os_error K s2) \<noteq> Interrupted")
      case True
      then show ?thesis using finished [of t ret evs a] body call eqs
        by (auto split: if_splits)
    next
      case False
      with body call eqs have "f K epfd (fill a evs) s2 = Some (r, s')" by auto
      then have "P (fill a evs) s2" using IH by blast
      with False show ?thesis using retried [OF call] by auto
    qed
  qed
  with ret show ?thesis by blast
qed

definition run_result :: "(io_error + poll_action) outcome \<Rightarrow> (io_error + unit) outcome" where
  "run_result out =
     (case out of
        Panic m \<Rightarrow> Panic m
      | Undefined \<Rightarrow> Undefined
      | Return (Inl e) \<Rightarrow> Return (Inl e)
      | Return (Inr Stop) \<Rightarrow> Return (Inr ())
      | Return (Inr _) \<Rightarrow> Panic ''poll_once never surfaces per-source actions'')"

lemma run_unfold:
  "run K S p ctx s =
     (case poll_once K S p ctx s of
        None \<Rightarrow> None
      | Some (out, p', ctx', s') \<Rightarrow>
          if out = Return (Inr Continue) then run K S p' ctx' s'
          else Some (run_result out, p', ctx', s'))"
  by (subst run.simps)
    (auto simp: run_result_def split: option.splits outcome.splits sum.splits poll_action.splits)

lemma run_induct [consumes 1, case_names finished again]:
  assumes ret: "run K S p ctx s = Some (out, p', ctx', s')"
    and finished: "\<And>p ctx s o1. poll_once K S p ctx s = Some (o1, p', ctx', s') \<Longrightarrow>
      o1 \<noteq> Return (Inr Continue) \<Longrightarrow> out = run_result o1 \<Longrightarrow> P p ctx s"
    and again: "\<And>p ctx s p1 ctx1 s1.
      poll_once K S p ctx s = Some (Return (Inr Continue), p1, ctx1, s1) \<Longrightarrow>
      run K S p1 ctx1 s1 = Some (out, p', ctx', s') \<Longrightarrow> P p1 ctx1 s1 \<Longrightarrow> P p ctx s"
  shows "P p ctx s"
proof -
  have "y = (out, p', ctx', s') \<longrightarrow> k = K \<longrightarrow> sl = S \<longrightarrow> run K S q c t = Some y \<and> P q c t"
    if "run k sl q c t = Some y" for k sl q c t y
  proof (rule run.raw_induct [OF _ that], intro impI)
    fix f k sl q c t y
    assume IH: "\<And>k sl q c t y. f k sl q c t = Some y \<Longrightarrow>
        y = (out, p', ctx', s') \<longrightarrow> k = K \<longrightarrow> sl = S \<longrightarrow> run K S q c t = Some y \<and> P q c t"
      and y: "y = (out, p', ctx', s')" and kS: "k = K" "sl = S"
      and body: "(case poll_once k sl q c t of
          None \<Rightarrow> None
        | Some (out, p', ctx', s') \<Rightarrow>
            (case out of
               Return (Inl e) \<Rightarrow> Some (Return (Inl e), p', ctx', s')
             | Return (Inr Continue) \<Rightarrow> f k sl p' ctx' s'
             | Return (Inr Stop) \<Rightarrow> Some (Return (Inr ()), p', ctx', s')
             | Return (Inr Remove) \<Rightarrow>
                 Some (Panic ''poll_once never surfaces per-source actions'', p', ctx', s')
             | Panic m \<Rightarrow> Some (Panic m, p', ctx', s')
             | Undefined \<Rightarrow> Some (Undefined, p', ctx', s'))) = Some y"
    then obtain o1 p1 c1 s1 where once: "poll_once K S q c t = Some (o1, p1, c1, s1)"
      by (auto split: option.splits)
    note body = body [unfolded kS]
    show "run K S q c t = Some y \<and> P q c t"
    proof (cases "o1 = Return (Inr Continue)")
      case True
      with body once have f: "f K S p1 c1 s1 = Some y" by simp
      with True once y IH [OF f] show ?thesis
        using again by (auto simp: run_unfold [of K S q])
    next
      case False
      with body once y have "(run_result o1, p1, c1, s1) = (out, p', ctx', s')"
        by (auto simp: run_result_def split: outcome.splits sum.splits poll_action.splits)
      with False once y show ?thesis
        using finished by (auto simp: run_unfold [of K S q])
    qed
  qed
  with ret show ?thesis by blast
qed

section \<open>The invariant interface of the loop\<close>

text \<open>
  A handler keeps \<open>I\<close> when it returns; when it panics, which ends the loop, it only has to establish
  \<open>J\<close>. So \<open>J\<close> holds after \<open>run\<close> in any case, and \<open>I\<close> when it returns.
\<close>

locale returning_context =
  fixes K :: "'w kernel"
    and I J :: "'c \<Rightarrow> 'w os \<Rightarrow> bool"
    and good :: "('p, 'c, 'w) source \<Rightarrow> bool"
  assumes handler_outcome:
      "good src \<Longrightarrow> I c s \<Longrightarrow> call_func src c s = (out, src', c', s') \<Longrightarrow>
         good src' \<and> J c' s' \<and> (returns out \<longrightarrow> I c' s')"
    and ctl_step: "I c s \<Longrightarrow> sys_epoll_ctl K epfd op fd ev s = (r, s') \<Longrightarrow> I c s'"
    and wait_step: "I c s \<Longrightarrow> sys_epoll_wait K epfd n t s = (r, evs, s') \<Longrightarrow> I c s'"
    and weaken: "I c s \<Longrightarrow> J c s"
begin

definition all_good :: "('p, 'c, 'w, 'sl) slab \<Rightarrow> 'sl poller \<Rightarrow> bool" where
  "all_good S p \<longleftrightarrow> (\<forall>k src. sl_get S (sources p) k = Some src \<longrightarrow> good src)"

definition ended :: "'a outcome \<Rightarrow> 'c \<Rightarrow> 'w os \<Rightarrow> bool" where
  "ended out c s \<longleftrightarrow> J c s \<and> (returns out \<longrightarrow> I c s)"

lemma ended_kept: "I c s \<Longrightarrow> ended out c s"
  by (simp add: ended_def weaken)

lemma ended_Return [simp]: "ended (Return x) c s \<longleftrightarrow> I c s"
  using weaken by (auto simp: ended_def)

lemma ended_halted [simp]: "ended (Panic m) c s \<longleftrightarrow> J c s" "ended Undefined c s \<longleftrightarrow> J c s"
  by (simp_all add: ended_def)

lemma deregister_step:
  assumes "slab_laws S" "all_good S p" "I c s" "deregister K S key p s = (r, p', s')"
  shows "all_good S p' \<and> I c s'"
proof -
  obtain src sl where rm: "sl_try_remove S key (sources p) = (src, sl)" by force
  have "sl_get S sl = (sl_get S (sources p))(key := None)"
    by (rule slab_try_remove [OF assms(1) rm])
  then have good: "all_good S (p\<lparr>sources := sl\<rparr>)"
    using assms(2) by (auto simp: all_good_def split: if_splits)
  with assms(3,4) show ?thesis
    by (auto simp: deregister_def rm Let_def split: option.splits prod.splits if_splits
        dest: ctl_step)
qed

lemma deregister_and_go_step:
  assumes "slab_laws S" "all_good S p" "I c s" "deregister_and_go K S key p c s = (r, p', c', s')"
  shows "all_good S p' \<and> I c' s'"
  using assms(4) deregister_step [OF assms(1-3)]
  by (auto simp: deregister_and_go_def split: prod.splits sum.splits)

lemma handle_event_step:
  assumes laws: "slab_laws S" and good: "all_good S p" and inv: "I c s"
    and ev: "handle_event K S event p c s = (out, p', c', s')"
  shows "all_good S p' \<and> ended out c' s'"
proof (cases "ee_events event AND (READABLE OR HANGUP) = 0
    \<or> sl_get S (sources p) (unat (ee_data event)) = None")
  case True
  with ev good inv show ?thesis by (auto simp: handle_event_def Let_def weaken split: if_splits)
next
  case False
  then obtain src where src: "sl_get S (sources p) (unat (ee_data event)) = Some src" by auto
  obtain o1 src1 c1 s1 where call: "call_func src c s = (o1, src1, c1, s1)" by (metis prod_cases4)
  define p1 where "p1 = p\<lparr>sources := sl_set S (unat (ee_data event)) src1 (sources p)\<rparr>"
  from src good have "good src" by (simp add: all_good_def)
  from handler_outcome [OF this inv call] have kept: "good src1" "ended o1 c1 s1" by (simp_all add: ended_def)
  have "all_good S p1"
    using good kept(1) by (auto simp: all_good_def p1_def slab_set [OF laws src])
  show ?thesis
  proof (cases o1)
    case (Return result)
    with kept(2) have inv1: "I c1 s1" by simp
    from ev False src call Return consider
        (go) "deregister_and_go K S (unat (ee_data event)) p1 c1 s1 = (out, p', c', s')"
      | (stay) "p' = p1" "c' = c1" "s' = s1"
      by (auto simp: handle_event_def Let_def p1_def [symmetric]
          split: sum.splits poll_action.splits if_splits)
    then show ?thesis
    proof cases
      case go
      from deregister_and_go_step [OF laws \<open>all_good S p1\<close> inv1 go] ended_kept show ?thesis by blast
    next
      case stay
      with inv1 \<open>all_good S p1\<close> ended_kept show ?thesis by blast
    qed
  qed (use ev False src call kept(2) \<open>all_good S p1\<close> in
    \<open>auto simp: handle_event_def Let_def p1_def [symmetric] split: if_splits\<close>)
qed

lemma dispatch_step:
  assumes laws: "slab_laws S"
  shows "all_good S p \<Longrightarrow> I c s \<Longrightarrow> dispatch K S events p c s = (out, p', c', s') \<Longrightarrow>
    all_good S p' \<and> ended out c' s'"
proof (induction events arbitrary: p c s)
  case (Cons event events)
  obtain o1 p1 c1 s1 where ev: "handle_event K S event p c s = (o1, p1, c1, s1)"
    by (metis prod_cases4)
  have kept: "all_good S p1" "ended o1 c1 s1"
    using handle_event_step [OF laws Cons.prems(1,2) ev] by blast+
  show ?case
  proof (cases "o1 = Return (Inr NextEvent)")
    case True
    with Cons.prems(3) ev have "dispatch K S events p1 c1 s1 = (out, p', c', s')" by simp
    then show ?thesis using Cons.IH kept True by simp
  next
    case False
    with Cons.prems(3) ev kept show ?thesis
      by (auto split: outcome.splits sum.splits flow.splits)
  qed
qed auto

lemma wait_ready_step:
  "wait_ready K epfd arr s = Some (r, s') \<Longrightarrow> I c s \<Longrightarrow> I c s'"
  by (induction rule: wait_ready_induct) (blast intro: wait_step)+

lemma poll_once_step:
  assumes laws: "slab_laws S" and good: "all_good S p" and inv: "I c s"
    and once: "poll_once K S p c s = Some (out, p', c', s')"
  shows "all_good S p' \<and> ended out c' s'"
proof -
  obtain r s1 where wait: "wait_ready K (poller_fd p) zero_events s = Some (r, s1)"
    using once by (auto simp: poll_once_def split: option.splits)
  with inv have inv1: "I c s1" by (rule wait_ready_step [rotated])
  show ?thesis
  proof (cases r)
    case (Inl e)
    with once wait good inv1 show ?thesis by (auto simp: poll_once_def)
  next
    case (Inr re)
    then obtain n evs where r: "r = Inr (n, evs)" by (cases re) auto
    obtain o1 p1 c1 s2 where d: "dispatch K S (take n evs) p c s1 = (o1, p1, c1, s2)"
      by (metis prod_cases4)
    note kept = dispatch_step [OF laws good inv1 d]
    show ?thesis
    proof (cases "length evs < n")
      case True
      with once wait r good inv1 show ?thesis by (auto simp: poll_once_def weaken)
    next
      case False
      with once wait r d kept show ?thesis
        by (cases o1) (auto simp: poll_once_def split: sum.splits flow.splits)
    qed
  qed
qed

lemma run_step:
  assumes laws: "slab_laws S"
  shows "run K S p c s = Some (out, p', c', s') \<Longrightarrow> all_good S p \<Longrightarrow> I c s \<Longrightarrow>
    all_good S p' \<and> ended out c' s'"
proof (induction rule: run_induct)
  case (finished p c s o1)
  then have "all_good S p'" "ended o1 c' s'" using poll_once_step [OF laws] by blast+
  moreover have "ended o1 c' s' \<Longrightarrow> ended (run_result o1) c' s'"
    by (cases o1) (auto simp: run_result_def weaken split: sum.splits poll_action.splits)
  ultimately show ?case using finished.hyps(3) by simp
next
  case (again p c s p1 c1 s1)
  then show ?case using poll_once_step [OF laws again.prems again.hyps(1)] by simp
qed

end

text \<open>The case in which a handler keeps the invariant whatever it answers.\<close>

locale context_invariant =
  fixes K :: "'w kernel"
    and I :: "'c \<Rightarrow> 'w os \<Rightarrow> bool"
    and good :: "('p, 'c, 'w) source \<Rightarrow> bool"
  assumes handler_keeps:
      "good src \<Longrightarrow> I c s \<Longrightarrow> call_func src c s = (out, src', c', s') \<Longrightarrow> good src' \<and> I c' s'"
    and ctl_keeps: "I c s \<Longrightarrow> sys_epoll_ctl K epfd op fd ev s = (r, s') \<Longrightarrow> I c s'"
    and wait_keeps: "I c s \<Longrightarrow> sys_epoll_wait K epfd n t s = (r, evs, s') \<Longrightarrow> I c s'"

sublocale context_invariant \<subseteq> ending?: returning_context K I I good
  by unfold_locales (blast dest: handler_keeps ctl_keeps wait_keeps)+

context context_invariant
begin

lemma ended_iff: "ended out c s \<longleftrightarrow> I c s"
  by (auto simp: ended_def)

lemmas handle_event_keeps = handle_event_step [unfolded ended_iff]
lemmas wait_ready_keeps = wait_ready_step
lemmas poll_once_keeps = poll_once_step [unfolded ended_iff]
lemmas run_keeps = run_step [unfolded ended_iff]

end

section \<open>What the kernel documents of epoll\<close>

text \<open>
  \<open>interest w epfd\<close> is the interest list of an epoll instance: for each registered descriptor,
  the data it was registered with. A new instance has an empty list; \<open>EPOLL_CTL_ADD\<close> and
  \<open>EPOLL_CTL_DEL\<close> change one entry when they succeed and nothing when they fail; a wait changes
  nothing, returns how many events it stored (at most as many as there is room for), and reports
  each registered descriptor at most once, with its data.
\<close>

type_synonym 'w interest = "'w \<Rightarrow> int \<Rightarrow> int \<Rightarrow> u64 option"

definition reports :: "(int \<Rightarrow> u64 option) \<Rightarrow> epoll_event list \<Rightarrow> bool" where
  "reports entries evs \<longleftrightarrow>
     (\<exists>fds. distinct fds \<and> list_all2 (\<lambda>fd ev. entries fd = Some (ee_data ev)) fds evs)"

definition epoll_laws :: "'w kernel \<Rightarrow> 'w interest \<Rightarrow> bool" where
  "epoll_laws K interest \<longleftrightarrow>
     (\<forall>flags w r w'. k_epoll_create1 K flags w = (r, w') \<longrightarrow> r \<noteq> -1 \<longrightarrow> interest w' r = Map.empty)
   \<and> (\<forall>epfd fd ev w r w'. k_epoll_ctl K epfd EPOLL_CTL_ADD fd (Some ev) w = (r, w') \<longrightarrow>
        interest w' epfd =
          (if r = -1 then interest w epfd else (interest w epfd)(fd \<mapsto> ee_data ev)))
   \<and> (\<forall>epfd fd w r w'. k_epoll_ctl K epfd EPOLL_CTL_DEL fd None w = (r, w') \<longrightarrow>
        interest w' epfd = (if r = -1 then interest w epfd else (interest w epfd)(fd := None)))
   \<and> (\<forall>epfd n t w r evs w'. k_epoll_wait K epfd n t w = (r, evs, w') \<longrightarrow>
        interest w' epfd = interest w epfd
      \<and> (0 \<le> r \<longrightarrow> nat r = length evs \<and> length evs \<le> n \<and> reports (interest w epfd) evs))"

lemma epoll_create_law:
  "epoll_laws K interest \<Longrightarrow> sys_epoll_create1 K flags s = (r, s') \<Longrightarrow> r \<noteq> -1 \<Longrightarrow>
     interest (world s') r = Map.empty"
  unfolding epoll_laws_def sys_epoll_create1_def by (auto split: prod.splits)

lemma epoll_add_law:
  "epoll_laws K interest \<Longrightarrow> sys_epoll_ctl K epfd EPOLL_CTL_ADD fd (Some ev) s = (r, s') \<Longrightarrow>
     interest (world s') epfd =
       (if r = -1 then interest (world s) epfd else (interest (world s) epfd)(fd \<mapsto> ee_data ev))"
  unfolding epoll_laws_def sys_epoll_ctl_def by (auto split: prod.splits)

lemma epoll_del_law:
  "epoll_laws K interest \<Longrightarrow> sys_epoll_ctl K epfd EPOLL_CTL_DEL fd None s = (r, s') \<Longrightarrow>
     interest (world s') epfd =
       (if r = -1 then interest (world s) epfd else (interest (world s) epfd)(fd := None))"
  unfolding epoll_laws_def sys_epoll_ctl_def by (auto split: prod.splits)

lemma epoll_wait_law:
  "epoll_laws K interest \<Longrightarrow> sys_epoll_wait K epfd n t s = (r, evs, s') \<Longrightarrow>
     interest (world s') epfd = interest (world s) epfd
   \<and> (0 \<le> r \<longrightarrow> nat r = length evs \<and> length evs \<le> n \<and> reports (interest (world s) epfd) evs)"
  unfolding epoll_laws_def sys_epoll_wait_def by (auto split: prod.splits)

section \<open>The wait loop\<close>

lemma length_zero_events [simp]: "length zero_events = COUNT"
  by (simp add: zero_events_def)

lemma wait_ready_reports:
  "wait_ready K epfd arr s = Some (r, s') \<Longrightarrow> epoll_laws K interest \<Longrightarrow> length arr = COUNT \<Longrightarrow>
     interest (world s') epfd = interest (world s) epfd
   \<and> (\<forall>n evs. r = Inr (n, evs) \<longrightarrow>
        n \<le> length evs \<and> reports (interest (world s) epfd) (take n evs))"
proof (induction rule: wait_ready_induct)
  case (finished arr s ret evs)
  show ?case
    using finished.hyps epoll_wait_law [OF finished.prems(1) finished.hyps(1)] finished.prems(2)
    by (auto simp: take_fill)
next
  case (retried arr s ret evs s1)
  then show ?case
    using epoll_wait_law [OF retried.prems(1) retried.hyps(1)] by auto
qed

lemma wait_ready_not_interrupted:
  "wait_ready K epfd arr s = Some (r, s') \<Longrightarrow> r = Inl e \<Longrightarrow> kind e \<noteq> Interrupted"
  by (induction rule: wait_ready_induct) auto

section \<open>Agreement of the slab with the interest list\<close>

text \<open>
  \<open>agrees\<close>: every registered descriptor carries the key of a source with that descriptor.
  \<open>calm\<close>: a handler that returns and leaves the interest list of this poller alone.
\<close>

definition agrees :: "('p, 'c, 'w, 'sl) slab \<Rightarrow> 'w interest \<Rightarrow> 'sl poller \<Rightarrow> 'w os \<Rightarrow> bool" where
  "agrees S interest p s \<longleftrightarrow>
     (\<forall>fd d. interest (world s) (poller_fd p) fd = Some d \<longrightarrow>
        (\<exists>src. sl_get S (sources p) (unat d) = Some src \<and> src_fd src = fd))"

definition calm :: "'w interest \<Rightarrow> int \<Rightarrow> ('p, 'c, 'w) handler \<Rightarrow> bool" where
  "calm interest epfd h \<longleftrightarrow>
     (\<forall>r c s out r' c' s'. h r c s = (out, r', c', s') \<longrightarrow>
        returns out \<and> interest (world s') epfd = interest (world s) epfd)"

definition all_calm :: "('p, 'c, 'w, 'sl) slab \<Rightarrow> 'w interest \<Rightarrow> 'sl poller \<Rightarrow> bool" where
  "all_calm S interest p \<longleftrightarrow>
     (\<forall>k src. sl_get S (sources p) k = Some src \<longrightarrow> calm interest (poller_fd p) (src_func src))"

lemma call_func_calm:
  assumes "calm interest epfd (src_func src)" "call_func src c s = (out, src', c', s')"
  shows "returns out" "interest (world s') epfd = interest (world s) epfd"
    "src_fd src' = src_fd src" "src_func src' = src_func src"
proof -
  obtain r1 where "src_func src (src_r src) c s = (out, r1, c', s')" "src' = src\<lparr>src_r := r1\<rparr>"
    using assms(2) by (auto simp: call_func_def split: prod.splits)
  with assms(1) show "returns out" "interest (world s') epfd = interest (world s) epfd"
    "src_fd src' = src_fd src" "src_func src' = src_func src"
    unfolding calm_def by auto
qed

text \<open>The events still to be handled have different keys, all in the slab.\<close>

definition pending :: "('p, 'c, 'w, 'sl) slab \<Rightarrow> 'sl poller \<Rightarrow> epoll_event list \<Rightarrow> bool" where
  "pending S p evs \<longleftrightarrow>
     distinct (map (\<lambda>ev. unat (ee_data ev)) evs)
   \<and> (\<forall>ev \<in> set evs. sl_get S (sources p) (unat (ee_data ev)) \<noteq> None)"

lemma reports_pending:
  assumes "agrees S interest p s" "reports (interest (world s) (poller_fd p)) evs"
  shows "pending S p evs"
proof -
  obtain fds where fds: "distinct fds"
      "list_all2 (\<lambda>fd ev. interest (world s) (poller_fd p) fd = Some (ee_data ev)) fds evs"
    using assms(2) by (auto simp: reports_def)
  have owner: "list_all2 (\<lambda>fd ev. \<exists>src. sl_get S (sources p) (unat (ee_data ev)) = Some src
      \<and> src_fd src = fd) fds evs"
    using fds(2) by (rule list_all2_mono) (use assms(1) in \<open>auto simp: agrees_def\<close>)
  then have "pending S p evs" using fds(1)
  proof (induction rule: list_all2_induct)
    case Nil
    then show ?case by (simp add: pending_def)
  next
    case (Cons fd fds ev evs)
    then have "unat (ee_data ev) \<noteq> unat (ee_data ev')" if "ev' \<in> set evs" for ev'
      using that by (auto simp: list_all2_conv_all_nth in_set_conv_nth) (metis option.inject)
    with Cons show ?case by (auto simp: pending_def)
  qed
  then show ?thesis .
qed


lemma deregister_calm:
  assumes laws: "slab_laws S" "epoll_laws K interest"
    and ok: "agrees S interest p s" and d: "deregister K S key p s = (r, p', s')"
  shows "poller_fd p' = poller_fd p" "sl_get S (sources p') = (sl_get S (sources p))(key := None)"
    "r = Inr () \<Longrightarrow> agrees S interest p' s'"
proof -
  obtain src sl where rm: "sl_try_remove S key (sources p) = (src, sl)" by force
  note rm' = slab_try_remove [OF laws(1) rm]
  show "poller_fd p' = poller_fd p" "sl_get S (sources p') = (sl_get S (sources p))(key := None)"
    using d by (auto simp: deregister_def rm rm'(2) Let_def split: option.splits prod.splits)
  show "agrees S interest p' s'" if "r = Inr ()"
  proof (cases src)
    case None
    with d ok rm' show ?thesis
      by (auto simp: deregister_def rm agrees_def fun_upd_idem split: prod.splits)
  next
    case (Some source)
    obtain res s1 where ctl: "sys_epoll_ctl K (poller_fd p) EPOLL_CTL_DEL (src_fd source) None s = (res, s1)"
      by force
    with d that Some have [simp]: "p' = p\<lparr>sources := sl\<rparr>" "s' = s1" "res \<noteq> -1"
      by (auto simp: deregister_def rm Let_def split: if_splits)
    have "interest (world s') (poller_fd p) =
        (interest (world s) (poller_fd p))(src_fd source := None)"
      using epoll_del_law [OF laws(2) ctl] by simp
    with ok Some rm' show ?thesis by (fastforce simp: agrees_def split: if_splits)
  qed
qed

lemma deregister_and_go_calm:
  assumes laws: "slab_laws S" "epoll_laws K interest"
    and ok: "agrees S interest p s" and d: "deregister_and_go K S key p c s = (out, p', c', s')"
  shows "poller_fd p' = poller_fd p" "sl_get S (sources p') = (sl_get S (sources p))(key := None)"
    "out = Return (Inr NextEvent) \<Longrightarrow> agrees S interest p' s'" "returns out"
proof -
  obtain r p1 s1 where dr: "deregister K S key p s = (r, p1, s1)" by (metis prod_cases3)
  note facts = deregister_calm [OF laws ok dr]
  from d dr facts show "poller_fd p' = poller_fd p" "returns out"
    "sl_get S (sources p') = (sl_get S (sources p))(key := None)"
    by (auto simp: deregister_and_go_def split: sum.splits)
  show "agrees S interest p' s'" if "out = Return (Inr NextEvent)"
    using that d dr facts(3) by (auto simp: deregister_and_go_def split: sum.splits)
qed

text \<open>
  The three things one event can do under calm handlers: nothing, run the handler and leave the
  source in place, or run the handler and deregister the source.
\<close>

lemma handle_event_cases:
  assumes laws: "slab_laws S"
    and calm: "all_calm S interest p"
    and key: "sl_get S (sources p) (unat (ee_data event)) = Some src"
    and h: "handle_event K S event p c s = (out, p', c', s')"
  obtains
      (skipped) "ee_events event AND (READABLE OR HANGUP) = 0" "out = Return (Inr NextEvent)"
        "p' = p" "s' = s"
    | (kept) src1 where "sl_get S (sources p') = (sl_get S (sources p))(unat (ee_data event) \<mapsto> src1)"
        "poller_fd p' = poller_fd p" "src_fd src1 = src_fd src" "src_func src1 = src_func src"
        "interest (world s') (poller_fd p) = interest (world s) (poller_fd p)" "returns out"
        "out = Return (Inr NextEvent) \<Longrightarrow> ee_events event AND HANGUP = 0"
    | (removed) src1 p1 c1 s1 where
        "sl_get S (sources p1) = (sl_get S (sources p))(unat (ee_data event) \<mapsto> src1)"
        "poller_fd p1 = poller_fd p" "src_fd src1 = src_fd src" "src_func src1 = src_func src"
        "interest (world s1) (poller_fd p) = interest (world s) (poller_fd p)"
        "deregister_and_go K S (unat (ee_data event)) p1 c1 s1 = (out, p', c', s')"
proof (cases "ee_events event AND (READABLE OR HANGUP) = 0")
  case True
  with h show ?thesis by (intro skipped) (auto simp: handle_event_def Let_def)
next
  case False
  let ?key = "unat (ee_data event)"
  obtain o1 src1 c1 s1 where call: "call_func src c s = (o1, src1, c1, s1)" by (metis prod_cases4)
  from calm key have "calm interest (poller_fd p) (src_func src)" by (simp add: all_calm_def)
  note src1 = call_func_calm [OF this call]
  then obtain result where o1: "o1 = Return result" by (auto simp: returns_iff)
  define p1 where "p1 = p\<lparr>sources := sl_set S ?key src1 (sources p)\<rparr>"
  have get1: "sl_get S (sources p1) = (sl_get S (sources p))(?key \<mapsto> src1)"
    by (simp add: p1_def slab_set [OF laws key])
  have fd1: "poller_fd p1 = poller_fd p" by (simp add: p1_def)
  from h False key call o1 consider
      "deregister_and_go K S ?key p1 c1 s1 = (out, p', c', s')"
    | "p' = p1" "s' = s1" "returns out" "out = Return (Inr NextEvent) \<Longrightarrow> ee_events event AND HANGUP = 0"
    by (auto simp: handle_event_def Let_def p1_def [symmetric]
        split: sum.splits poll_action.splits if_splits)
  then show ?thesis
  proof cases
    case 1
    show ?thesis by (rule removed [OF get1 fd1 src1(3,4) src1(2) 1])
  next
    case 2
    with get1 fd1 src1 show ?thesis by (intro kept [of src1]) auto
  qed
qed

lemma handle_event_calm:
  assumes laws: "slab_laws S" "epoll_laws K interest"
    and ok: "agrees S interest p s" and calm: "all_calm S interest p"
    and key: "sl_get S (sources p) (unat (ee_data event)) = Some src"
    and h: "handle_event K S event p c s = (out, p', c', s')"
  shows "returns out \<and> poller_fd p' = poller_fd p \<and> all_calm S interest p'
    \<and> dom (sl_get S (sources p)) - {unat (ee_data event)} \<subseteq> dom (sl_get S (sources p'))
    \<and> (out = Return (Inr NextEvent) \<longrightarrow> agrees S interest p' s')"
  using laws(1) calm key h
proof (cases rule: handle_event_cases)
  case skipped
  with ok calm show ?thesis by auto
next
  case (kept src1)
  moreover have "agrees S interest p' s'" using ok key kept by (fastforce simp: agrees_def)
  moreover have "all_calm S interest p'" using calm key kept by (auto simp: all_calm_def)
  ultimately show ?thesis by auto
next
  case (removed src1 p1 c1 s1)
  have "agrees S interest p1 s1" using ok key removed by (fastforce simp: agrees_def)
  note go = deregister_and_go_calm [OF laws this removed(6)]
  have "all_calm S interest p1" using calm key removed by (auto simp: all_calm_def)
  with go removed show ?thesis by (auto simp: all_calm_def split: if_splits)
qed

lemma pending_step:
  assumes "pending S p (event # evs)"
    and "dom (sl_get S (sources p)) - {unat (ee_data event)} \<subseteq> dom (sl_get S (sources p'))"
  shows "pending S p' evs"
  unfolding pending_def
proof (intro conjI ballI)
  show "distinct (map (\<lambda>ev. unat (ee_data ev)) evs)"
    using assms(1) by (simp add: pending_def)
  fix ev assume "ev \<in> set evs"
  moreover have "unat (ee_data event) \<notin> (\<lambda>ev. unat (ee_data ev)) ` set evs"
    using assms(1) by (simp add: pending_def)
  ultimately have "unat (ee_data ev) \<noteq> unat (ee_data event)" by (metis image_eqI)
  with \<open>ev \<in> set evs\<close> have "unat (ee_data ev) \<in> dom (sl_get S (sources p)) - {unat (ee_data event)}"
    using assms(1) by (auto simp: pending_def)
  with assms(2) show "sl_get S (sources p') (unat (ee_data ev)) \<noteq> None" by blast
qed

lemma dispatch_calm:
  assumes laws: "slab_laws S" "epoll_laws K interest"
  shows "agrees S interest p s \<Longrightarrow> all_calm S interest p \<Longrightarrow> pending S p evs \<Longrightarrow>
    dispatch K S evs p c s = (out, p', c', s') \<Longrightarrow>
    returns out \<and> poller_fd p' = poller_fd p \<and> all_calm S interest p'
    \<and> (out = Return (Inr NextEvent) \<longrightarrow> agrees S interest p' s')"
proof (induction evs arbitrary: p c s)
  case Nil
  then show ?case by auto
next
  case (Cons event evs)
  from Cons.prems(3) obtain src
    where key: "sl_get S (sources p) (unat (ee_data event)) = Some src"
    by (auto simp: pending_def)
  obtain o1 p1 c1 s1 where h: "handle_event K S event p c s = (o1, p1, c1, s1)"
    by (metis prod_cases4)
  note step = handle_event_calm [OF laws Cons.prems(1,2) key h]
  have pend: "pending S p1 evs" using pending_step [OF Cons.prems(3)] step by blast
  show ?case
  proof (cases "o1 = Return (Inr NextEvent)")
    case True
    then have "dispatch K S evs p1 c1 s1 = (out, p', c', s')" using Cons.prems(4) h by simp
    with Cons.IH [OF _ _ pend this] step True show ?thesis by simp
  next
    case False
    with Cons.prems(4) h have "(out, p', c', s') = (o1, p1, c1, s1)"
      by (auto split: outcome.splits sum.splits flow.splits)
    with step False show ?thesis by auto
  qed
qed

lemma poll_once_calm:
  assumes laws: "slab_laws S" "epoll_laws K interest"
    and ok: "agrees S interest p s" and calm: "all_calm S interest p"
    and once: "poll_once K S p c s = Some (out, p', c', s')"
  shows "returns out \<and> out \<noteq> Return (Inr Remove) \<and> poller_fd p' = poller_fd p
    \<and> all_calm S interest p' \<and> (out = Return (Inr Continue) \<longrightarrow> agrees S interest p' s')"
proof -
  obtain r s1 where wait: "wait_ready K (poller_fd p) zero_events s = Some (r, s1)"
    using once by (auto simp: poll_once_def split: option.splits)
  note rep = wait_ready_reports [OF wait laws(2) length_zero_events]
  show ?thesis
  proof (cases r)
    case (Inl e)
    with once wait calm show ?thesis by (auto simp: poll_once_def)
  next
    case (Inr re)
    then obtain n evs where r: "r = Inr (n, evs)" by (cases re) auto
    with rep have n: "n \<le> length evs" and ok1: "agrees S interest p s1"
      and pend: "pending S p (take n evs)"
      using ok by (auto simp: agrees_def intro: reports_pending)
    obtain o1 p1 c1 s2 where d: "dispatch K S (take n evs) p c s1 = (o1, p1, c1, s2)"
      by (metis prod_cases4)
    from dispatch_calm [OF laws ok1 calm pend d] once wait r n d show ?thesis
      by (auto simp: poll_once_def split: outcome.splits sum.splits flow.splits if_splits)
  qed
qed

section \<open>What an event leaves of the slab\<close>

lemma deregister_get:
  assumes "slab_laws S" "deregister K S key p s = (r, p', s')"
  shows "sl_get S (sources p') = (sl_get S (sources p))(key := None)" "poller_fd p' = poller_fd p"
proof -
  obtain src sl where rm: "sl_try_remove S key (sources p) = (src, sl)" by force
  from assms(2) slab_try_remove [OF assms(1) rm]
  show "sl_get S (sources p') = (sl_get S (sources p))(key := None)" "poller_fd p' = poller_fd p"
    by (auto simp: deregister_def rm Let_def split: option.splits prod.splits)
qed

lemma deregister_and_go_get:
  assumes "slab_laws S" "deregister_and_go K S key p c s = (out, p', c', s')"
  shows "sl_get S (sources p') = (sl_get S (sources p))(key := None)"
  using assms(2) deregister_get [OF assms(1)]
  by (auto simp: deregister_and_go_def split: prod.splits sum.splits)

lemma handle_event_get:
  assumes laws: "slab_laws S" and h: "handle_event K S event p c s = (out, p', c', s')"
  shows "k \<noteq> unat (ee_data event) \<Longrightarrow> sl_get S (sources p') k = sl_get S (sources p) k"
    and "sl_get S (sources p) k = None \<Longrightarrow> sl_get S (sources p') k = None"
    and "out = Return (Inr NextEvent) \<Longrightarrow> ee_events event AND HANGUP \<noteq> 0 \<Longrightarrow>
      sl_get S (sources p') (unat (ee_data event)) = None"
proof -
  let ?key = "unat (ee_data event)"
  have imp: "ee_events event AND HANGUP \<noteq> 0 \<Longrightarrow> ee_events event AND (READABLE OR HANGUP) \<noteq> 0"
    by (auto simp: bit.conj_disj_distrib or_eq_0_iff)
  consider
      "sources p' = sources p" "ee_events event AND HANGUP = 0 \<or> out \<noteq> Return (Inr NextEvent)"
    | src src1 where "sl_get S (sources p) ?key = Some src"
        "sl_get S (sources p') = (sl_get S (sources p))(?key \<mapsto> src1)"
        "ee_events event AND HANGUP = 0 \<or> out \<noteq> Return (Inr NextEvent)"
    | "sl_get S (sources p') = (sl_get S (sources p))(?key := None)"
  proof (cases "ee_events event AND (READABLE OR HANGUP) = 0 \<or> sl_get S (sources p) ?key = None")
    case True
    then show ?thesis using h imp by (intro that(1)) (auto simp: handle_event_def Let_def split: if_splits)
  next
    case False
    then obtain src where src: "sl_get S (sources p) ?key = Some src" by auto
    obtain o1 src1 c1 s1 where call: "call_func src c s = (o1, src1, c1, s1)" by (metis prod_cases4)
    define p1 where "p1 = p\<lparr>sources := sl_set S ?key src1 (sources p)\<rparr>"
    have get1: "sl_get S (sources p1) = (sl_get S (sources p))(?key \<mapsto> src1)"
      by (simp add: p1_def slab_set [OF laws src])
    from h False src call consider
        c2 s2 where "deregister_and_go K S ?key p1 c2 s2 = (out, p', c', s')"
      | "p' = p1" "ee_events event AND HANGUP = 0 \<or> out \<noteq> Return (Inr NextEvent)"
      by (auto simp: handle_event_def Let_def p1_def [symmetric]
          split: outcome.splits sum.splits poll_action.splits if_splits)
    then show ?thesis
    proof cases
      case 1
      then show ?thesis using deregister_and_go_get [OF laws 1] get1 by (intro that(3)) simp
    next
      case 2
      then show ?thesis using src get1 by (intro that(2)) auto
    qed
  qed
  then show "k \<noteq> unat (ee_data event) \<Longrightarrow> sl_get S (sources p') k = sl_get S (sources p) k"
    "sl_get S (sources p) k = None \<Longrightarrow> sl_get S (sources p') k = None"
    "out = Return (Inr NextEvent) \<Longrightarrow> ee_events event AND HANGUP \<noteq> 0 \<Longrightarrow>
      sl_get S (sources p') (unat (ee_data event)) = None"
    by (cases; auto)+
qed

lemma dispatch_get:
  assumes laws: "slab_laws S"
  shows "dispatch K S evs p c s = (out, p', c', s') \<Longrightarrow>
      (\<forall>k. k \<notin> (\<lambda>ev. unat (ee_data ev)) ` set evs \<longrightarrow>
         sl_get S (sources p') k = sl_get S (sources p) k)
    \<and> (\<forall>k. sl_get S (sources p) k = None \<longrightarrow> sl_get S (sources p') k = None)
    \<and> (out = Return (Inr NextEvent) \<longrightarrow> (\<forall>ev \<in> set evs. ee_events ev AND HANGUP \<noteq> 0 \<longrightarrow>
         sl_get S (sources p') (unat (ee_data ev)) = None))"
proof (induction evs arbitrary: p c s)
  case Nil
  then show ?case by simp
next
  case (Cons event evs)
  obtain o1 p1 c1 s1 where h: "handle_event K S event p c s = (o1, p1, c1, s1)"
    by (metis prod_cases4)
  note step = handle_event_get [OF laws h]
  show ?case
  proof (cases "o1 = Return (Inr NextEvent)")
    case True
    then have "dispatch K S evs p1 c1 s1 = (out, p', c', s')" using Cons.prems h by simp
    from Cons.IH [OF this] step True show ?thesis by auto
  next
    case False
    with Cons.prems h have "(out, p', c', s') = (o1, p1, c1, s1)"
      by (auto split: outcome.splits sum.splits flow.splits)
    with step False show ?thesis by auto
  qed
qed

text \<open>The batch a returning \<open>poll_once\<close> worked on.\<close>

lemma poll_once_dispatch:
  assumes "poll_once K S p c s = Some (out, p', c', s')"
    and "wait_ready K (poller_fd p) zero_events s = Some (Inr (n, evs), s1)" "n \<le> length evs"
  obtains o1 where "dispatch K S (take n evs) p c s1 = (o1, p', c', s')"
    "out = Return (Inr Continue) \<Longrightarrow> o1 = Return (Inr NextEvent)"
    "out = Return (Inr Continue) \<Longrightarrow> \<not> sl_is_empty S (sources p')"
proof -
  obtain o1 p1 c1 s2 where d: "dispatch K S (take n evs) p c s1 = (o1, p1, c1, s2)"
    by (metis prod_cases4)
  show ?thesis
    by (rule that [of o1]) (use assms d in \<open>auto simp: poll_once_def
        split: outcome.splits sum.splits flow.splits if_splits\<close>)
qed

section \<open>Properties of the loop\<close>

text \<open>
  \<^bold>\<open>C16.\<close> With a slab and an epoll instance that behave as documented, a poller whose slab agrees
  with its interest list, and handlers that return and do not touch this epoll instance, the
  loop never panics: neither the missing slab key, nor the slice of the event array, nor the
  \<open>unreachable!\<close> of \<open>run\<close> is reached, over any number of iterations.
\<close>

theorem run_never_panics:
  assumes "slab_laws S" "epoll_laws K interest" "agrees S interest p s" "all_calm S interest p"
    and "run K S p ctx s = Some (out, p', ctx', s')"
  shows "returns out"
  using assms(5,3,4)
proof (induction rule: run_induct)
  case (finished p ctx s o1)
  then show ?case using poll_once_calm [OF assms(1,2) finished.prems finished.hyps(1)]
    by (auto simp: run_result_def split: outcome.splits sum.splits poll_action.splits)
next
  case (again p ctx s p1 ctx1 s1)
  then show ?case using poll_once_calm [OF assms(1,2) again.prems again.hyps(1)] by blast
qed

text \<open>
  \<open>poll_once\<close> resolves per-source actions itself: whatever the kernel, the slab and the
  handlers do, it never returns \<open>Ok(Remove)\<close>.
\<close>

theorem poll_once_never_remove:
  "map_option fst (poll_once K S p ctx s) \<noteq> Some (Return (Inr Remove))"
  by (auto simp: poll_once_def split: option.splits sum.splits outcome.splits flow.splits
      prod.splits if_splits)

text \<open>
  \<^bold>\<open>C23.\<close> A round that goes on has dropped every source that was reported hung up (so a level
  triggered hangup cannot make the loop spin), has kept every source that was not reported, as
  it was, and has added none.
\<close>

theorem poll_once_drops_hung_sources:
  assumes "slab_laws S"
    and wait: "wait_ready K (poller_fd p) zero_events s = Some (Inr (n, evs), s1)" "n \<le> length evs"
    and once: "poll_once K S p ctx s = Some (Return (Inr Continue), p', ctx', s')"
  shows "(\<forall>ev \<in> set (take n evs). ee_events ev AND HANGUP \<noteq> 0 \<longrightarrow>
             sl_get S (sources p') (unat (ee_data ev)) = None)
    \<and> (\<forall>k. k \<notin> (\<lambda>ev. unat (ee_data ev)) ` set (take n evs) \<longrightarrow>
             sl_get S (sources p') k = sl_get S (sources p) k)
    \<and> dom (sl_get S (sources p')) \<subseteq> dom (sl_get S (sources p))"
proof -
  obtain o1 where d: "dispatch K S (take n evs) p ctx s1 = (o1, p', ctx', s')"
    and o1: "o1 = Return (Inr NextEvent)"
    by (rule poll_once_dispatch [OF once wait]) auto
  from dispatch_get [OF assms(1) d] o1 show ?thesis by (auto simp: domIff)
qed

text \<open>
  \<^bold>\<open>C22.\<close> The error policy. A handler error on a descriptor that has not hung up ends the loop with
  that error and leaves the source registered. On a hung-up descriptor the error is dropped: the
  source is deregistered with one \<open>EPOLL_CTL_DEL\<close> of its own descriptor, and the round goes on
  unless that call fails.
\<close>

theorem handler_error_policy:
  assumes laws: "slab_laws S"
    and reported: "ee_events event AND (READABLE OR HANGUP) \<noteq> 0"
    and src: "sl_get S (sources p) (unat (ee_data event)) = Some src"
    and call: "call_func src ctx s = (Return (Inl e), src1, ctx1, s1)"
    and h: "handle_event K S event p ctx s = (out, p', ctx', s')"
  shows "if ee_events event AND HANGUP = 0
    then out = Return (Inl e) \<and> s' = s1
       \<and> sl_get S (sources p') = (sl_get S (sources p))(unat (ee_data event) \<mapsto> src1)
    else \<exists>r. trace s' = trace s1 @ [CEpollCtl (poller_fd p) EPOLL_CTL_DEL (src_fd src) None r]
       \<and> out = Return (if r = -1 then Inl (last_os_error K s') else Inr NextEvent)
       \<and> sl_get S (sources p') = (sl_get S (sources p))(unat (ee_data event) := None)"
proof -
  let ?key = "unat (ee_data event)"
  define p1 where "p1 = p\<lparr>sources := sl_set S ?key src1 (sources p)\<rparr>"
  have get1: "sl_get S (sources p1) = (sl_get S (sources p))(?key \<mapsto> src1)"
    by (simp add: p1_def slab_set [OF laws src])
  have fd1: "src_fd src1 = src_fd src" using call by (auto simp: call_func_def split: prod.splits)
  show ?thesis
  proof (cases "ee_events event AND HANGUP = 0")
    case True
    with h reported src call get1 show ?thesis
      by (simp add: handle_event_def Let_def p1_def [symmetric] resolve_action_def)
  next
    case False
    with h reported src call have go: "deregister_and_go K S ?key p1 ctx1 s1 = (out, p', ctx', s')"
      by (simp add: handle_event_def Let_def p1_def [symmetric] resolve_action_def)
    obtain rm sl where rm: "sl_try_remove S ?key (sources p1) = (rm, sl)" by force
    note rm' = slab_try_remove [OF laws rm]
    then have some: "rm = Some src1" by (simp add: get1)
    obtain r s2 where
      ctl: "sys_epoll_ctl K (poller_fd p1) EPOLL_CTL_DEL (src_fd src1) None s1 = (r, s2)" by force
    with go rm some have out: "s' = s2" "sources p' = sl"
        "out = Return (if r = -1 then Inl (last_os_error K s') else Inr NextEvent)"
      by (auto simp: deregister_and_go_def deregister_def Let_def split: if_splits)
    have "poller_fd p1 = poller_fd p" by (simp add: p1_def)
    with sys_epoll_ctl_trace [OF ctl] out rm'(2) fd1 False show ?thesis by (auto simp: get1)
  qed
qed

text \<open>The state after \<open>n\<close> waits, and whether the next wait is interrupted by a signal.\<close>

fun after_waits :: "'w kernel \<Rightarrow> int \<Rightarrow> nat \<Rightarrow> 'w os \<Rightarrow> 'w os" where
  "after_waits K epfd 0 s = s"
| "after_waits K epfd (Suc n) s =
     after_waits K epfd n (snd (snd (sys_epoll_wait K epfd COUNT (-1) s)))"

definition interrupted :: "'w kernel \<Rightarrow> int \<Rightarrow> 'w os \<Rightarrow> bool" where
  "interrupted K epfd s =
     (case sys_epoll_wait K epfd COUNT (-1) s of (ret, _, s') \<Rightarrow>
        ret < 0 \<and> kind (last_os_error K s') = Interrupted)"

lemma wait_ready_next:
  "sys_epoll_wait K epfd COUNT (-1) s = (ret, evs, s1) \<Longrightarrow>
     wait_ready K epfd arr s =
       (if interrupted K epfd s then wait_ready K epfd (fill arr evs) s1
        else Some (if 0 \<le> ret then Inr (nat ret, fill arr evs) else Inl (last_os_error K s1), s1))"
  by (subst wait_ready.simps) (simp add: interrupted_def)

lemma wait_ready_after:
  "(\<forall>i<n. interrupted K epfd (after_waits K epfd i s)) \<Longrightarrow>
   \<not> interrupted K epfd (after_waits K epfd n s) \<Longrightarrow>
     \<exists>r. wait_ready K epfd arr s = Some (r, after_waits K epfd (Suc n) s)"
proof (induction n arbitrary: arr s)
  case 0
  then show ?case
    by (cases "sys_epoll_wait K epfd COUNT (-1) s") (simp add: wait_ready_next)
next
  case (Suc n)
  obtain ret evs s1 where w: "sys_epoll_wait K epfd COUNT (-1) s = (ret, evs, s1)"
    by (metis prod_cases3)
  have "interrupted K epfd s" using Suc.prems(1) by (auto dest: spec [of _ 0])
  moreover have "\<exists>r. wait_ready K epfd (fill arr evs) s1 = Some (r, after_waits K epfd (Suc n) s1)"
    by (rule Suc.IH) (use Suc.prems w in \<open>auto dest: spec [of _ "Suc _"]\<close>)
  ultimately show ?case by (simp add: wait_ready_next [OF w] w)
qed

lemma wait_ready_None_iff:
  "wait_ready K epfd arr s = None \<longleftrightarrow> (\<forall>m. interrupted K epfd (after_waits K epfd m s))"
proof
  assume none: "wait_ready K epfd arr s = None"
  show "\<forall>m. interrupted K epfd (after_waits K epfd m s)"
  proof (rule ccontr)
    assume "\<not> (\<forall>m. interrupted K epfd (after_waits K epfd m s))"
    then obtain n where n: "\<not> interrupted K epfd (after_waits K epfd n s)"
        "\<forall>i<n. interrupted K epfd (after_waits K epfd i s)"
      using exists_least_iff [of "\<lambda>m. \<not> interrupted K epfd (after_waits K epfd m s)"] by blast
    from wait_ready_after [OF n(2,1), of arr] none show False by auto
  qed
next
  assume all: "\<forall>m. interrupted K epfd (after_waits K epfd m s)"
  show "wait_ready K epfd arr s = None"
  proof (rule ccontr)
    assume "wait_ready K epfd arr s \<noteq> None"
    then obtain r s' where "wait_ready K epfd arr s = Some (r, s')" by force
    then show False using all
    proof (induction rule: wait_ready_induct)
      case (finished arr s ret evs)
      then have "interrupted K epfd (after_waits K epfd 0 s)" by blast
      with finished show False by (auto simp: interrupted_def)
    next
      case (retried arr s ret evs s1)
      then have "interrupted K epfd (after_waits K epfd (Suc m) s)" for m by blast
      with retried show False by simp
    qed
  qed
qed

text \<open>
  The retry loop around \<open>epoll_wait\<close> returns exactly when some wait is not interrupted by a
  signal, and the error it then hands up is never \<open>Interrupted\<close>.
\<close>

theorem wait_ready_returns_iff:
  "(wait_ready K epfd arr s \<noteq> None \<longleftrightarrow> (\<exists>n. \<not> interrupted K epfd (after_waits K epfd n s)))
   \<and> (\<nexists>e s'. wait_ready K epfd arr s = Some (Inl e, s') \<and> kind e = Interrupted)"
  using wait_ready_None_iff [of K epfd arr s] by (auto dest: wait_ready_not_interrupted)

text \<open>
  Deregistering is idempotent: once a key has been deregistered (even if \<open>epoll_ctl\<close> failed)
  a second call succeeds, makes no system call and changes no slot.
\<close>

theorem deregister_idempotent:
  assumes "slab_laws S" "deregister K S key p s = (r, p1, s1)"
  shows "\<exists>p2. deregister K S key p1 s2 = (Inr (), p2, s2)
    \<and> sl_get S (sources p2) = sl_get S (sources p1) \<and> sl_get S (sources p1) key = None"
proof -
  have none: "sl_get S (sources p1) key = None" using deregister_get(1) [OF assms] by simp
  obtain rm sl where rm: "sl_try_remove S key (sources p1) = (rm, sl)" by force
  note rm' = slab_try_remove [OF assms(1) rm]
  have "deregister K S key p1 s2 = (Inr (), p1\<lparr>sources := sl\<rparr>, s2)"
    using rm rm'(1) none by (simp add: deregister_def)
  with rm'(2) none show ?thesis by (auto simp: fun_upd_idem)
qed

lemma register_mut_agrees:
  assumes laws: "slab_laws S" "epoll_laws K interest" and ok: "agrees S interest p s"
    and reg: "register_mut K S pollable_fd source h p s = (Return (), p', s')"
  obtains key where "sl_get S (sources p) key = None" "poller_fd p' = poller_fd p"
    "sl_get S (sources p') = (sl_get S (sources p))
       (key \<mapsto> \<lparr>src_fd = pollable_fd source, src_r = source, src_func = h\<rparr>)"
    "interest (world s') (poller_fd p') =
       (interest (world s) (poller_fd p))(pollable_fd source \<mapsto> of_nat key)"
    "agrees S interest p' s'"
proof -
  let ?src = "\<lparr>src_fd = pollable_fd source, src_r = source, src_func = h\<rparr>"
  obtain key sl where ins: "sl_insert S ?src (sources p) = (key, sl)" by force
  note ins' = slab_insert [OF laws(1) ins]
  obtain r s1 where ctl: "sys_epoll_ctl K (poller_fd p) EPOLL_CTL_ADD (pollable_fd source)
      (Some \<lparr>ee_events = EPOLLIN, ee_data = of_nat key\<rparr>) s = (r, s1)" by force
  from reg ins ctl have eqs: "key < 2 ^ 64" "p' = p\<lparr>sources := sl\<rparr>" "s' = s1" "r \<noteq> -1"
    by (auto simp: register_mut_def Let_def not_le split: if_splits)
  have key: "unat (of_nat key :: u64) = key" using eqs(1) by (simp add: unat_of_nat)
  have int: "interest (world s') (poller_fd p) =
      (interest (world s) (poller_fd p))(pollable_fd source \<mapsto> of_nat key)"
    using epoll_add_law [OF laws(2) ctl] eqs by simp
  moreover from this have "agrees S interest p' s'"
    using ok ins' key eqs(2) by (fastforce simp: agrees_def split: if_splits)
  ultimately show ?thesis using ins' eqs(2) by (intro that [of key]) simp_all
qed

text \<open>
  \<^bold>\<open>C24.\<close> Registration keeps slab and interest list in agreement: a source registered with a
  calm handler is found in the slab under the key its events carry, with the descriptor it was
  added with, the sources registered before it stay as they were, and the hypotheses of
  \<open>run_never_panics\<close> hold again.
\<close>

theorem register_keeps_agreement:
  assumes laws: "slab_laws S" "epoll_laws K interest"
    and ok: "agrees S interest p s" "all_calm S interest p" "calm interest (poller_fd p) h"
    and reg: "register_mut K S pollable_fd source h p s = (Return (), p', s')"
  shows "agrees S interest p' s' \<and> all_calm S interest p'
    \<and> (\<exists>key. sl_get S (sources p) key = None
        \<and> sl_get S (sources p') = (sl_get S (sources p))
            (key \<mapsto> \<lparr>src_fd = pollable_fd source, src_r = source, src_func = h\<rparr>)
        \<and> interest (world s') (poller_fd p') =
            (interest (world s) (poller_fd p))(pollable_fd source \<mapsto> of_nat key))"
proof -
  obtain key where key: "sl_get S (sources p) key = None" "poller_fd p' = poller_fd p"
    "sl_get S (sources p') = (sl_get S (sources p))
       (key \<mapsto> \<lparr>src_fd = pollable_fd source, src_r = source, src_func = h\<rparr>)"
    "interest (world s') (poller_fd p') =
       (interest (world s) (poller_fd p))(pollable_fd source \<mapsto> of_nat key)"
    "agrees S interest p' s'" by (rule register_mut_agrees [OF laws ok(1) reg])
  moreover have "all_calm S interest p'"
    using ok(2,3) key by (auto simp: all_calm_def split: if_splits)
  ultimately show ?thesis by blast
qed

section \<open>Termination when every source has hung up\<close>

text \<open>
  \<open>tracked\<close>: every source of the slab is in the interest list, under its key. \<open>all_hung\<close>: as
  long as something is registered a wait returns at once with at least one event, and every
  event it returns is a hangup (epoll is level triggered).
\<close>

definition tracked :: "('p, 'c, 'w, 'sl) slab \<Rightarrow> 'w interest \<Rightarrow> 'sl poller \<Rightarrow> 'w os \<Rightarrow> bool" where
  "tracked S interest p s \<longleftrightarrow>
     (\<forall>k src. sl_get S (sources p) k = Some src \<longrightarrow>
        (\<exists>d. interest (world s) (poller_fd p) (src_fd src) = Some d \<and> unat d = k))"

definition all_hung :: "'w kernel \<Rightarrow> 'w interest \<Rightarrow> int \<Rightarrow> bool" where
  "all_hung K interest epfd \<longleftrightarrow>
     (\<forall>n t w r evs w'. k_epoll_wait K epfd n t w = (r, evs, w') \<longrightarrow> 0 < n \<longrightarrow>
        interest w epfd \<noteq> Map.empty \<longrightarrow>
        0 < r \<and> (\<forall>ev \<in> set evs. ee_events ev AND HANGUP \<noteq> 0))"

lemma deregister_tracked:
  assumes laws: "slab_laws S" "epoll_laws K interest" and tr: "tracked S interest p s"
    and d: "deregister K S key p s = (Inr (), p', s')"
  shows "tracked S interest p' s'"
proof -
  obtain rm sl where rm: "sl_try_remove S key (sources p) = (rm, sl)" by force
  note rm' = slab_try_remove [OF laws(1) rm]
  show ?thesis
  proof (cases rm)
    case None
    with d tr rm rm' show ?thesis
      by (auto simp: deregister_def tracked_def fun_upd_idem)
  next
    case (Some src)
    obtain res s1 where ctl: "sys_epoll_ctl K (poller_fd p) EPOLL_CTL_DEL (src_fd src) None s = (res, s1)"
      by force
    with d Some rm have [simp]: "p' = p\<lparr>sources := sl\<rparr>" "s' = s1" "res \<noteq> -1"
      by (auto simp: deregister_def Let_def split: if_splits)
    have i: "interest (world s') (poller_fd p) = (interest (world s) (poller_fd p))(src_fd src := None)"
      using epoll_del_law [OF laws(2) ctl] by simp
    have "src_fd src2 \<noteq> src_fd src" if "sl_get S (sources p) k = Some src2" "k \<noteq> key" for k src2
      using tr that rm' Some unfolding tracked_def by (metis option.inject)
    with tr i rm' Some show ?thesis by (auto simp: tracked_def)
  qed
qed

lemma handle_event_tracked:
  assumes laws: "slab_laws S" "epoll_laws K interest"
    and calm: "all_calm S interest p" and tr: "tracked S interest p s"
    and key: "sl_get S (sources p) (unat (ee_data event)) = Some src"
    and h: "handle_event K S event p c s = (Return (Inr NextEvent), p', c', s')"
  shows "tracked S interest p' s'"
  using laws(1) calm key h
proof (cases rule: handle_event_cases)
  case skipped
  with tr show ?thesis by simp
next
  case (kept src1)
  then show ?thesis using tr key by (auto simp: tracked_def)
next
  case (removed src1 p1 c1 s1)
  have "tracked S interest p1 s1" using tr key removed by (auto simp: tracked_def)
  moreover obtain r p2 s2 where "deregister K S (unat (ee_data event)) p1 s1 = (r, p2, s2)"
    by (metis prod_cases3)
  ultimately show ?thesis using removed(6) deregister_tracked [OF laws]
    by (auto simp: deregister_and_go_def split: sum.splits)
qed

lemma dispatch_tracked:
  assumes laws: "slab_laws S" "epoll_laws K interest"
  shows "agrees S interest p s \<Longrightarrow> all_calm S interest p \<Longrightarrow> tracked S interest p s \<Longrightarrow>
    pending S p evs \<Longrightarrow> dispatch K S evs p c s = (Return (Inr NextEvent), p', c', s') \<Longrightarrow>
    tracked S interest p' s'"
proof (induction evs arbitrary: p c s)
  case Nil
  then show ?case by simp
next
  case (Cons event evs)
  from Cons.prems(4) obtain src
    where key: "sl_get S (sources p) (unat (ee_data event)) = Some src"
    by (auto simp: pending_def)
  obtain o1 p1 c1 s1 where h: "handle_event K S event p c s = (o1, p1, c1, s1)"
    by (metis prod_cases4)
  with Cons.prems(5) have o1: "o1 = Return (Inr NextEvent)"
    and rest: "dispatch K S evs p1 c1 s1 = (Return (Inr NextEvent), p', c', s')"
    by (auto split: outcome.splits sum.splits flow.splits)
  note step = handle_event_calm [OF laws Cons.prems(1,2) key h]
  have "tracked S interest p1 s1"
    using handle_event_tracked [OF laws Cons.prems(2,3) key] h o1 by blast
  then show ?case
    using Cons.IH [OF _ _ _ _ rest] step o1 pending_step [OF Cons.prems(4)] by blast
qed


text \<open>One round: it returns, and if the loop goes on there are fewer sources.\<close>

lemma poll_once_hung:
  assumes laws: "slab_laws S" "epoll_laws K interest"
    and ok: "agrees S interest p s" "tracked S interest p s" "all_calm S interest p"
    and hung: "all_hung K interest (poller_fd p)" and some: "sl_get S (sources p) \<noteq> Map.empty"
  obtains out p' ctx' s' where "poll_once K S p ctx s = Some (out, p', ctx', s')"
    "out = Return (Inr Continue) \<Longrightarrow> tracked S interest p' s' \<and> sl_get S (sources p') \<noteq> Map.empty
       \<and> card (dom (sl_get S (sources p'))) < card (dom (sl_get S (sources p)))"
proof -
  from some obtain k src where "sl_get S (sources p) k = Some src" by (auto simp: fun_eq_iff)
  with ok(2) have nonempty: "interest (world s) (poller_fd p) \<noteq> Map.empty"
    by (fastforce simp: tracked_def)
  obtain ret evs s1 where w: "sys_epoll_wait K (poller_fd p) COUNT (-1) s = (ret, evs, s1)"
    by (metis prod_cases3)
  have ret: "0 < ret" "\<forall>ev \<in> set evs. ee_events ev AND HANGUP \<noteq> 0"
    using hung nonempty w unfolding all_hung_def sys_epoll_wait_def COUNT_def
    by (fastforce split: prod.splits)+
  note law = epoll_wait_law [OF laws(2) w]
  have n: "nat ret = length evs" "length evs \<le> COUNT" and rep: "reports (interest (world s) (poller_fd p)) evs"
    using law ret(1) by auto
  define arr where "arr = fill zero_events evs"
  have arr: "take (length evs) arr = evs" "length arr = COUNT"
    using n(2) by (simp_all add: arr_def take_fill)
  have wait: "wait_ready K (poller_fd p) zero_events s = Some (Inr (length evs, arr), s1)"
    using ret(1) n(1) by (subst wait_ready.simps) (simp add: w arr_def)
  have ok1: "agrees S interest p s1" "tracked S interest p s1"
    using ok law by (auto simp: agrees_def tracked_def)
  have pend: "pending S p evs" using ok(1) rep by (rule reports_pending)
  obtain out p' ctx' s' where once: "poll_once K S p ctx s = Some (out, p', ctx', s')"
    using wait by (fastforce simp: poll_once_def split: prod.splits)
  show ?thesis
  proof (rule that [OF once])
    assume out: "out = Return (Inr Continue)"
    obtain o1 where d: "dispatch K S evs p ctx s1 = (o1, p', ctx', s')"
      and o1: "o1 = Return (Inr NextEvent)" and left: "\<not> sl_is_empty S (sources p')"
      using poll_once_dispatch [OF once wait] arr n(2) out by metis
    have gone: "sl_get S (sources p') (unat (ee_data ev)) = None" if "ev \<in> set evs" for ev
      using dispatch_get [OF laws(1) d] o1 ret(2) that by blast
    have sub: "dom (sl_get S (sources p')) \<subseteq> dom (sl_get S (sources p))"
      using dispatch_get [OF laws(1) d] by (auto simp: domIff)
    from ret(1) n(1) obtain ev where ev: "ev \<in> set evs" by (cases evs) auto
    with pend have "unat (ee_data ev) \<in> dom (sl_get S (sources p))" by (auto simp: pending_def)
    with gone [OF ev] sub have "dom (sl_get S (sources p')) \<subset> dom (sl_get S (sources p))" by auto
    then have "card (dom (sl_get S (sources p'))) < card (dom (sl_get S (sources p)))"
      by (rule psubset_card_mono [OF slab_finite [OF laws(1)]])
    moreover have "tracked S interest p' s'"
      using dispatch_tracked [OF laws ok1(1) ok(3) ok1(2) pend] d o1 by blast
    ultimately show "tracked S interest p' s' \<and> sl_get S (sources p') \<noteq> Map.empty
       \<and> card (dom (sl_get S (sources p'))) < card (dom (sl_get S (sources p)))"
      using left slab_is_empty [OF laws(1)] by blast
  qed
qed

text \<open>
  \<^bold>\<open>C17.\<close> If every registered source has hung up, \<open>run\<close> terminates and returns, whatever
  the handlers answer: a handler that says \<open>Continue\<close> for ever on a dead descriptor cannot keep
  the loop alive, and nothing panics on the way.
\<close>

theorem run_terminates_when_all_hang_up:
  assumes laws: "slab_laws S" "epoll_laws K interest"
    and "agrees S interest p s" "tracked S interest p s" "all_calm S interest p"
    and "all_hung K interest (poller_fd p)" "sl_get S (sources p) \<noteq> Map.empty"
  shows "\<exists>out p' ctx' s'. run K S p ctx s = Some (out, p', ctx', s') \<and> returns out"
  using assms(3-)
proof (induction "card (dom (sl_get S (sources p)))" arbitrary: p ctx s rule: less_induct)
  case less
  obtain out p1 ctx1 s1 where once: "poll_once K S p ctx s = Some (out, p1, ctx1, s1)"
    and next_round: "out = Return (Inr Continue) \<Longrightarrow>
      tracked S interest p1 s1 \<and> sl_get S (sources p1) \<noteq> Map.empty
      \<and> card (dom (sl_get S (sources p1))) < card (dom (sl_get S (sources p)))"
    using poll_once_hung [OF laws less.prems] by metis
  note calm = poll_once_calm [OF laws less.prems(1,3) once]
  show ?case
  proof (cases "out = Return (Inr Continue)")
    case True
    have "\<exists>out p' ctx' s'. run K S p1 ctx1 s1 = Some (out, p', ctx', s') \<and> returns out"
      using less.hyps [of p1 s1 ctx1] next_round [OF True] calm True less.prems(4) by auto
    with True once show ?thesis by (simp add: run_unfold [of K S p])
  next
    case False
    then have "run K S p ctx s = Some (run_result out, p1, ctx1, s1)"
      using once by (simp add: run_unfold [of K S p])
    moreover have "returns (run_result out)"
      using calm False by (auto simp: run_result_def returns_iff split: sum.splits poll_action.splits)
    ultimately show ?thesis by blast
  qed
qed

section \<open>Witnesses\<close>

text \<open>
  A poller with one source on descriptor 9, on the kernel whose descriptors have hung up; its
  handler counts its calls and always answers \<open>Continue\<close>.
\<close>

definition counting :: "(unit, nat, 'w) handler" where
  "counting = (\<lambda>r c s. (Return (Inr Continue), r, Suc c, s))"

definition failing :: "(unit, nat, 'w) handler" where
  "failing = (\<lambda>r c s. (Return (Inl (Os 5)), r, Suc c, s))"

abbreviation lone :: "(unit, nat, 'w) handler \<Rightarrow> (nat \<times> (unit, nat, 'w) source) list poller" where
  "lone h \<equiv> \<lparr>poller_fd = 3, sources = [(0, \<lparr>src_fd = 9, src_r = (), src_func = h\<rparr>)]\<rparr>"

abbreviation hangup_of :: "int \<times> u64 \<Rightarrow> epoll_event" where
  "hangup_of \<equiv> \<lambda>(fd, d). \<lparr>ee_events = 0x10, ee_data = d\<rparr>"

lemma reports_prefix:
  assumes "distinct (map fst xs)"
  shows "reports (map_of xs) (take n (map hangup_of xs))"
proof -
  have "map_of xs (fst x) = Some (ee_data (hangup_of x))" if "x \<in> set (take n xs)" for x
    using assms in_set_takeD [OF that] by (cases x) simp
  then have "list_all2 (\<lambda>fd ev. map_of xs fd = Some (ee_data ev))
      (map fst (take n xs)) (map hangup_of (take n xs))"
    by (simp add: list_all2_map1 list_all2_map2 list_all2_same)
  moreover have "distinct (map fst (take n xs))" using assms by (simp flip: take_map)
  ultimately show ?thesis by (auto simp: reports_def take_map)
qed

lemma hung_kernel_simps [simp]:
  "k_epoll_create1 hung_kernel flags w = (3, [])"
  "k_epoll_ctl hung_kernel epfd op fd ev w =
     (0, case ev of None \<Rightarrow> AList.delete fd w | Some e \<Rightarrow> AList.update fd (ee_data e) w)"
  "k_epoll_wait hung_kernel epfd n t w =
     (int (length (take n (map hangup_of (AList.clearjunk w)))),
      take n (map hangup_of (AList.clearjunk w)), w)"
  by (simp_all add: hung_kernel_def Let_def)

lemma hung_kernel_laws: "epoll_laws hung_kernel hung_interest"
proof -
  have "reports (map_of w) (take n (map hangup_of (AList.clearjunk w)))" for w :: "(int \<times> u64) list" and n
    using reports_prefix [OF distinct_clearjunk [of w], of n] by (simp add: map_of_clearjunk)
  then show ?thesis
    by (simp add: epoll_laws_def hung_interest_def delete_conv' update_conv')
qed

lemma hung_kernel_hangs: "all_hung hung_kernel hung_interest epfd"
proof -
  have "ee_events ev AND HANGUP \<noteq> 0" if "ev \<in> set (take n (map hangup_of xs))" for ev n and xs :: "(int \<times> u64) list"
    using in_set_takeD [OF that] by (auto simp: epoll_constants)
  moreover have "AList.clearjunk w \<noteq> []" if "map_of w \<noteq> Map.empty" for w :: "(int \<times> u64) list"
    using that by (metis map_of.simps(1) map_of_clearjunk)
  ultimately show ?thesis by (simp add: all_hung_def hung_interest_def)
qed

lemma lone_ok:
  "calm hung_interest 3 h \<Longrightarrow> agrees assoc_slab hung_interest (lone h) (boot [(9, 0)])"
  "calm hung_interest 3 h \<Longrightarrow> tracked assoc_slab hung_interest (lone h) (boot [(9, 0)])"
  "calm hung_interest 3 h \<Longrightarrow> all_calm assoc_slab hung_interest (lone h)"
  by (auto simp: agrees_def tracked_def all_calm_def hung_interest_def boot_def split: if_splits)

lemma counting_calm: "calm hung_interest epfd counting"
  by (auto simp: calm_def counting_def)

lemma run_counting:
  "run hung_kernel assoc_slab (lone counting) 0 (boot [(9, 0)]) =
     Some (Return (Inr ()), \<lparr>poller_fd = 3, sources = []\<rparr>, 1,
       \<lparr>world = [], pfm_cell = None,
        trace = [CEpollWait 3 1, CEpollCtl 3 EPOLL_CTL_DEL 9 None 0]\<rparr>)"
  by (simp add: run_unfold poll_once_def wait_ready.simps os_simps boot_def log_call_def
      epoll_constants zero_events_def fill_def handle_event_def call_func_def counting_def
      deregister_and_go_def deregister_def resolve_action_def run_result_def Let_def)

lemmas poll_eval = run_unfold poll_once_def wait_ready.simps os_simps boot_def log_call_def
  epoll_constants zero_events_def fill_def handle_event_def call_func_def counting_def failing_def
  deregister_and_go_def deregister_def resolve_action_def run_result_def Let_def

theorem run_never_panics_witness:
  "run hung_kernel assoc_slab (lone counting) 0 (boot [(9, 0)]) =
     Some (Return (Inr ()), \<lparr>poller_fd = 3, sources = []\<rparr>, 1,
       \<lparr>world = [], pfm_cell = None,
        trace = [CEpollWait 3 1, CEpollCtl 3 EPOLL_CTL_DEL 9 None 0]\<rparr>)
   \<and> returns (Return (Inr ()) :: (io_error + unit) outcome)"
  by (rule conjI [OF run_counting]) (rule run_never_panics [OF assoc_slab_laws hung_kernel_laws
      lone_ok(1) [OF counting_calm] lone_ok(3) [OF counting_calm] run_counting])

theorem run_terminates_when_all_hang_up_witness:
  "\<exists>out p' ctx' s'. run hung_kernel assoc_slab (lone counting) 0 (boot [(9, 0)])
     = Some (out, p', ctx', s') \<and> returns out"
  by (rule run_terminates_when_all_hang_up [OF assoc_slab_laws hung_kernel_laws
      lone_ok(1) [OF counting_calm] lone_ok(2) [OF counting_calm] lone_ok(3) [OF counting_calm]
      hung_kernel_hangs]) (simp add: fun_eq_iff)

text \<open>Two sources, of which one is reported when the event array has room for one only.\<close>

theorem poll_once_drops_hung_sources_witness:
  "sl_get assoc_slab [(1, \<lparr>src_fd = 8, src_r = (), src_func = counting\<rparr>)] 0 = None"
proof -
  let ?K = "hung_kernel\<lparr>k_epoll_wait := \<lambda>epfd n t w. (1, [hangup_of (9, 0)], w)\<rparr>"
  let ?p = "\<lparr>poller_fd = 3, sources = [(0, \<lparr>src_fd = 9, src_r = (), src_func = counting\<rparr>),
      (1, \<lparr>src_fd = 8, src_r = (), src_func = counting\<rparr>)]\<rparr>"
  let ?w = "\<lparr>world = [(9, 0), (8, 1)], pfm_cell = None, trace = [CEpollWait 3 1]\<rparr>"
  have wait: "wait_ready ?K (poller_fd ?p) zero_events (boot [(9, 0), (8, 1)]) =
      Some (Inr (1, hangup_of (9, 0) # replicate 9 \<lparr>ee_events = 0, ee_data = 0\<rparr>), ?w)"
    by (simp add: poll_eval)
  have once: "poll_once ?K assoc_slab ?p 0 (boot [(9, 0), (8, 1)]) =
      Some (Return (Inr Continue), \<lparr>poller_fd = 3,
        sources = [(1, \<lparr>src_fd = 8, src_r = (), src_func = counting\<rparr>)]\<rparr>, 1,
        \<lparr>world = [(8, 1)], pfm_cell = None,
         trace = [CEpollWait 3 1, CEpollCtl 3 EPOLL_CTL_DEL 9 None 0]\<rparr>)"
    by (simp add: poll_eval)
  show ?thesis
    using poll_once_drops_hung_sources [OF assoc_slab_laws wait _ once]
    by (simp add: epoll_constants)
qed

theorem handler_error_policy_witness:
  "\<exists>r. trace (\<lparr>world = [], pfm_cell = None, trace = [CEpollCtl 3 EPOLL_CTL_DEL 9 None 0]\<rparr>
        :: (int \<times> u64) list os) = trace (boot [(9 :: int, 0 :: u64)]) @ [CEpollCtl 3 EPOLL_CTL_DEL 9 None r]"
proof -
  have call: "call_func \<lparr>src_fd = 9, src_r = (), src_func = failing\<rparr> 0 (boot [(9, 0)])
      = (Return (Inl (Os 5)), \<lparr>src_fd = 9, src_r = (), src_func = failing\<rparr>, 1, boot [(9, 0)])"
    by (simp add: poll_eval)
  have h: "handle_event hung_kernel assoc_slab (hangup_of (9, 0)) (lone failing) 0 (boot [(9, 0)]) =
      (Return (Inr NextEvent), \<lparr>poller_fd = 3, sources = []\<rparr>, 1,
       \<lparr>world = [], pfm_cell = None, trace = [CEpollCtl 3 EPOLL_CTL_DEL 9 None 0]\<rparr>)"
    by (simp add: poll_eval)
  show ?thesis
    using handler_error_policy [OF assoc_slab_laws _ _ call h] by (simp add: epoll_constants)
qed

theorem deregister_idempotent_witness:
  "\<exists>p2. deregister hung_kernel assoc_slab 0 \<lparr>poller_fd = 3, sources = []\<rparr> (boot [])
       = (Inr (), p2, boot [])
     \<and> sl_get assoc_slab (sources p2) = (sl_get assoc_slab [] :: nat \<Rightarrow> (unit, nat, _) source option)
     \<and> (sl_get assoc_slab [] 0 :: (unit, nat, _) source option) = None"
proof -
  have "deregister hung_kernel assoc_slab 0 (lone counting) (boot [(9, 0)]) =
      (Inr (), \<lparr>poller_fd = 3, sources = []\<rparr>,
       \<lparr>world = [], pfm_cell = None, trace = [CEpollCtl 3 EPOLL_CTL_DEL 9 None 0]\<rparr>)"
    by (simp add: poll_eval)
  from deregister_idempotent [OF assoc_slab_laws this, of "boot []"] show ?thesis by simp
qed

theorem register_keeps_agreement_witness:
  "agrees assoc_slab hung_interest (lone counting) \<lparr>world = [(9, 0)], pfm_cell = None,
     trace = [CEpollCtl 3 EPOLL_CTL_ADD 9 (Some \<lparr>ee_events = EPOLLIN, ee_data = 0\<rparr>) 0]\<rparr>"
proof -
  let ?p = "\<lparr>poller_fd = 3, sources = []\<rparr>"
  have "register_mut hung_kernel assoc_slab (\<lambda>_. 9) () counting ?p (boot []) =
      (Return (), lone counting, \<lparr>world = [(9, 0)], pfm_cell = None,
        trace = [CEpollCtl 3 EPOLL_CTL_ADD 9 (Some \<lparr>ee_events = EPOLLIN, ee_data = 0\<rparr>) 0]\<rparr>)"
    by (simp add: register_mut_def poll_eval)
  moreover have "agrees assoc_slab hung_interest ?p (boot [])" "all_calm assoc_slab hung_interest ?p"
    by (simp_all add: agrees_def all_calm_def hung_interest_def boot_def)
  ultimately show ?thesis
    using register_keeps_agreement [OF assoc_slab_laws hung_kernel_laws] counting_calm by fastforce
qed

section \<open>The poller keeps its descriptor\<close>

lemma deregister_fd: "deregister K S key p s = (r, p', s') \<Longrightarrow> poller_fd p' = poller_fd p"
  by (auto simp: deregister_def Let_def split: prod.splits option.splits)

lemma deregister_and_go_fd:
  "deregister_and_go K S key p c s = (r, p', c', s') \<Longrightarrow> poller_fd p' = poller_fd p"
  by (auto simp: deregister_and_go_def split: prod.splits sum.splits dest: deregister_fd)

lemma handle_event_fd:
  "handle_event K S event p c s = (out, p', c', s') \<Longrightarrow> poller_fd p' = poller_fd p"
  by (auto simp: handle_event_def Let_def dest!: deregister_and_go_fd
      split: if_splits option.splits prod.splits outcome.splits sum.splits poll_action.splits)

lemma dispatch_fd: "dispatch K S events p c s = (out, p', c', s') \<Longrightarrow> poller_fd p' = poller_fd p"
proof (induction events arbitrary: p c s)
  case (Cons event events)
  obtain o1 p1 c1 s1 where ev: "handle_event K S event p c s = (o1, p1, c1, s1)" by (metis prod_cases4)
  note one = handle_event_fd [OF ev]
  show ?case
  proof (cases "o1 = Return (Inr NextEvent)")
    case True
    with Cons.prems ev have "dispatch K S events p1 c1 s1 = (out, p', c', s')" by simp
    with Cons.IH one show ?thesis by simp
  next
    case False
    with Cons.prems ev one show ?thesis by (auto split: outcome.splits sum.splits flow.splits)
  qed
qed simp

lemma poll_once_fd: "poll_once K S p c s = Some (out, p', c', s') \<Longrightarrow> poller_fd p' = poller_fd p"
  by (auto simp: poll_once_def split: option.splits prod.splits sum.splits if_splits dest: dispatch_fd)

lemma run_fd: "run K S p c s = Some (out, p', c', s') \<Longrightarrow> poller_fd p' = poller_fd p"
  by (induction rule: run_induct) (auto dest: poll_once_fd)

section \<open>Rounds one after the other\<close>

text \<open>The poller, the context and the world after \<open>n\<close> rounds that all said \<open>Continue\<close>.\<close>

fun after_rounds ::
    "'w kernel \<Rightarrow> ('p, 'c, 'w, 'sl) slab \<Rightarrow> nat \<Rightarrow> 'sl poller \<Rightarrow> 'c \<Rightarrow> 'w os \<Rightarrow>
       ('sl poller \<times> 'c \<times> 'w os) option" where
  "after_rounds K S 0 p ctx s = Some (p, ctx, s)"
| "after_rounds K S (Suc n) p ctx s =
     (case poll_once K S p ctx s of
        Some (Return (Inr Continue), p', ctx', s') \<Rightarrow> after_rounds K S n p' ctx' s'
      | _ \<Rightarrow> None)"

lemma run_after_rounds:
  "after_rounds K S n p ctx s = Some (p', ctx', s') \<Longrightarrow> run K S p ctx s = run K S p' ctx' s'"
proof (induction n arbitrary: p ctx s)
  case (Suc n)
  then obtain p1 ctx1 s1 where once: "poll_once K S p ctx s = Some (Return (Inr Continue), p1, ctx1, s1)"
      and rest: "after_rounds K S n p1 ctx1 s1 = Some (p', ctx', s')"
    by (auto split: option.splits outcome.splits sum.splits poll_action.splits)
  have "run K S p ctx s = run K S p1 ctx1 s1" by (subst run_unfold) (simp add: once)
  with Suc.IH [OF rest] show ?case by simp
qed simp

lemma dispatch_append:
  "dispatch K S (xs @ ys) p ctx s =
     (case dispatch K S xs p ctx s of
        (Return (Inr NextEvent), p', ctx', s') \<Rightarrow> dispatch K S ys p' ctx' s'
      | halted \<Rightarrow> halted)"
  by (induction xs arbitrary: p ctx s) (auto split: prod.splits outcome.splits sum.splits flow.splits)

lemma stop_event_ends_run:
  assumes wait: "wait_ready K (poller_fd p) zero_events s = Some (Inr (ready, evs), s1)"
      "ready \<le> length evs" "take ready evs = before @ ev # rest"
    and before: "dispatch K S before p ctx s1 = (Return (Inr NextEvent), p1, ctx1, s2)"
    and event: "handle_event K S ev p1 ctx1 s2 = (Return (Inr StopNow), p2, ctx2, s3)"
  shows "run K S p ctx s = Some (Return (Inr ()), p2, ctx2, s3)"
proof -
  have "dispatch K S (take ready evs) p ctx s1 = (Return (Inr StopNow), p2, ctx2, s3)"
    using before event by (simp add: wait(3) dispatch_append)
  with wait(1,2) have "poll_once K S p ctx s = Some (Return (Inr Stop), p2, ctx2, s3)"
    by (simp add: poll_once_def)
  then show ?thesis by (subst run_unfold) (simp add: run_result_def)
qed

section \<open>What the loop adds to the failures of its handlers\<close>

text \<open>
  A stronger contract between the loop and its handlers: an invariant under which the handlers have
  no undefined behaviour and panic only with messages of a set \<open>M\<close>. Then the loop has none either,
  and adds its own two panics.
\<close>

definition loop_panics :: "string set" where
  "loop_panics = {''Somehow got wrong slab index'', ''range end index out of range''}"

locale safe_context = context_invariant +
  fixes M :: "string set"
  assumes handler_safe:
      "good src \<Longrightarrow> I c s \<Longrightarrow> call_func src c s = (out, src', c', s') \<Longrightarrow> safe M out"
begin

lemma handle_event_safe:
  assumes "all_good S p" "I c s" "handle_event K S event p c s = (out, p', c', s')"
  shows "safe (M \<union> loop_panics) out"
proof (cases "ee_events event AND (READABLE OR HANGUP) = 0
    \<or> sl_get S (sources p) (unat (ee_data event)) = None")
  case True
  with assms(3) show ?thesis by (auto simp: handle_event_def Let_def loop_panics_def split: if_splits)
next
  case False
  then obtain src where src: "sl_get S (sources p) (unat (ee_data event)) = Some src" by auto
  obtain o1 src1 c1 s1 where call: "call_func src c s = (o1, src1, c1, s1)" by (metis prod_cases4)
  have "safe M o1" using handler_safe [OF _ assms(2) call] src assms(1) by (simp add: all_good_def)
  with assms(3) False src call show ?thesis
    by (auto simp: handle_event_def Let_def deregister_and_go_def
        split: outcome.splits sum.splits poll_action.splits if_splits prod.splits)
qed

lemma dispatch_safe:
  assumes laws: "slab_laws S"
  shows "all_good S p \<Longrightarrow> I c s \<Longrightarrow> dispatch K S evs p c s = (out, p', c', s') \<Longrightarrow>
    safe (M \<union> loop_panics) out"
proof (induction evs arbitrary: p c s)
  case (Cons event evs)
  obtain o1 p1 c1 s1 where ev: "handle_event K S event p c s = (o1, p1, c1, s1)"
    by (metis prod_cases4)
  note kept = handle_event_keeps [OF laws Cons.prems(1,2) ev]
  note o1 = handle_event_safe [OF Cons.prems(1,2) ev]
  show ?case
  proof (cases "o1 = Return (Inr NextEvent)")
    case True
    with Cons.prems(3) ev have "dispatch K S evs p1 c1 s1 = (out, p', c', s')" by simp
    with Cons.IH kept show ?thesis by blast
  next
    case False
    with Cons.prems(3) ev o1 show ?thesis by (auto split: outcome.splits sum.splits flow.splits)
  qed
qed auto

lemma poll_once_safe:
  assumes "slab_laws S" "all_good S p" "I c s" "poll_once K S p c s = Some (out, p', c', s')"
  shows "safe (M \<union> loop_panics) out \<and> out \<noteq> Return (Inr Remove)"
proof -
  obtain r s1 where wait: "wait_ready K (poller_fd p) zero_events s = Some (r, s1)"
    using assms(4) by (auto simp: poll_once_def split: option.splits)
  have inv1: "I c s1" by (rule wait_ready_keeps [OF wait assms(3)])
  obtain n es where r: "r = Inr (n, es) \<or> (\<exists>e. r = Inl e)" by (cases r) auto
  obtain o1 p1 c1 s2 where d: "dispatch K S (take n es) p c s1 = (o1, p1, c1, s2)" by (metis prod_cases4)
  from dispatch_safe [OF assms(1,2) inv1 d] assms(4) wait r d show ?thesis
    by (auto simp: poll_once_def loop_panics_def split: if_splits outcome.splits sum.splits flow.splits)
qed

lemma run_safe:
  assumes laws: "slab_laws S"
  shows "run K S p c s = Some (out, p', c', s') \<Longrightarrow> all_good S p \<Longrightarrow> I c s \<Longrightarrow> safe (M \<union> loop_panics) out"
proof (induction rule: run_induct)
  case (finished p c s o1)
  with poll_once_safe [OF laws finished.prems finished.hyps(1)] show ?case
    by (auto simp: run_result_def split: outcome.splits sum.splits poll_action.splits)
next
  case (again p c s p1 c1 s1)
  then show ?case using poll_once_keeps [OF laws again.prems again.hyps(1)] by blast
qed

end

end
