(* ===== verification/Bytes.thy ===== *)
theory Bytes
  imports Prelude
begin

text \<open>
  Byte images of fixed-size values, as the kernel's read calls and the \<open>repr(C)\<close> structs of the
  code lay them out on the little-endian targets the program runs on. The locale \<open>codec\<close> is the
  interface of such a value: a width, an encoder and a decoder that invert each other. Arrays of
  fixed-size elements are decoded once and for all inside it; the integers below, and the structs
  of the other theories, are interpretations.
\<close>

section \<open>The interface\<close>

locale codec =
  fixes width :: nat
    and enc :: "'a \<Rightarrow> byte list"
    and dec :: "byte list \<Rightarrow> 'a"
  assumes width_pos: "0 < width"
    and length_enc: "length (enc x) = width"
    and dec_enc: "dec (enc x) = x"
    and enc_dec: "length bs = width \<Longrightarrow> enc (dec bs) = bs"

text \<open>Cutting a byte string into \<open>n\<close> pieces of \<open>w\<close> bytes.\<close>

fun chunks :: "nat \<Rightarrow> nat \<Rightarrow> byte list \<Rightarrow> byte list list" where
  "chunks w 0 bs = []"
| "chunks w (Suc n) bs = take w bs # chunks w n (drop w bs)"

lemma length_chunks [simp]: "length (chunks w n bs) = n"
  by (induction n arbitrary: bs) auto

context codec
begin

lemma enc_inj: "enc x = enc y \<longleftrightarrow> x = y"
  by (metis dec_enc)

lemma length_concat_enc: "length (concat (map enc xs)) = width * length xs"
  by (induction xs) (simp_all add: length_enc)

lemma dec_chunks: "map dec (chunks width (length xs) (concat (map enc xs) @ rest)) = xs"
  by (induction xs) (simp_all add: length_enc dec_enc)

lemma enc_chunks:
  "length bs = width * n \<Longrightarrow> concat (map enc (map dec (chunks width n bs))) = bs"
  by (induction n arbitrary: bs) (simp_all add: enc_dec)

end

section \<open>Little-endian integers\<close>

fun le_nat :: "byte list \<Rightarrow> nat" where
  "le_nat [] = 0"
| "le_nat (b # bs) = unat b + 256 * le_nat bs"

fun nat_le :: "nat \<Rightarrow> nat \<Rightarrow> byte list" where
  "nat_le 0 n = []"
| "nat_le (Suc k) n = of_nat n # nat_le k (n div 256)"

lemma length_nat_le [simp]: "length (nat_le k n) = k"
  by (induction k arbitrary: n) auto

lemma le_nat_bound: "le_nat bs < 256 ^ length bs"
proof (induction bs)
  case (Cons b bs)
  have "unat b < 256" using unsigned_less [of b, where ?'a = nat] by simp
  with Cons show ?case by simp
qed simp

lemma le_nat_le: "le_nat (nat_le k n) = n mod 256 ^ k"
  by (induction k arbitrary: n) (simp_all add: unat_of_nat mod_mult2_eq)

lemma nat_le_nat: "nat_le (length bs) (le_nat bs) = bs"
proof (induction bs)
  case (Cons b bs)
  have b: "unat b < 256" using unsigned_less [of b, where ?'a = nat] by simp
  then have "(of_nat (unat b + 256 * le_nat bs) :: byte) = b"
    by (simp add: word_unat_eq_iff unat_of_nat unat_word_ariths)
  with Cons b show ?case by simp
qed simp

definition u64_le :: "u64 \<Rightarrow> byte list" where
  "u64_le x = nat_le 8 (unat x)"

definition le_u64 :: "byte list \<Rightarrow> u64" where
  "le_u64 bs = of_nat (le_nat bs)"

definition u32_le :: "u32 \<Rightarrow> byte list" where
  "u32_le x = nat_le 4 (unat x)"

definition le_u32 :: "byte list \<Rightarrow> u32" where
  "le_u32 bs = of_nat (le_nat bs)"

interpretation u64: codec 8 u64_le le_u64
proof
  fix x :: u64
  have "unat x < 2 ^ 64" using unsigned_less [of x, where ?'a = nat] by simp
  then show "le_u64 (u64_le x) = x" by (simp add: le_u64_def u64_le_def le_nat_le)
next
  fix bs :: "byte list" assume len: "length bs = 8"
  have "le_nat bs < 256 ^ 8" using le_nat_bound [of bs] len by simp
  then have "unat (le_u64 bs) = le_nat bs" by (simp add: le_u64_def unat_of_nat)
  with len show "u64_le (le_u64 bs) = bs" using nat_le_nat [of bs] by (simp add: u64_le_def)
qed (simp_all add: u64_le_def)

interpretation u32: codec 4 u32_le le_u32
proof
  fix x :: u32
  have "unat x < 2 ^ 32" using unsigned_less [of x, where ?'a = nat] by simp
  then show "le_u32 (u32_le x) = x" by (simp add: le_u32_def u32_le_def le_nat_le)
next
  fix bs :: "byte list" assume len: "length bs = 4"
  have "le_nat bs < 256 ^ 4" using le_nat_bound [of bs] len by simp
  then have "unat (le_u32 bs) = le_nat bs" by (simp add: le_u32_def unat_of_nat)
  with len show "u32_le (le_u32 bs) = bs" using nat_le_nat [of bs] by (simp add: u32_le_def)
qed (simp_all add: u32_le_def)

end
