(* ===== verification/Timer_Fd.thy ===== *)
theory Timer_Fd
  imports Simulation Bytes
begin

text \<open>
  The crate \<open>timerfd\<close> (\<open>timerfd/src/lib.rs\<close>): a descriptor that becomes readable when a timer
  expires. A \<open>Duration\<close> is its two fields; the fields of a \<open>timespec\<close> are 64-bit signed.
\<close>

section \<open>Data\<close>

datatype clock = Monotonic | Realtime

text \<open>The discriminants, \<open>CLOCK_MONOTONIC\<close> and \<open>CLOCK_REALTIME\<close>.\<close>

fun clock_id :: "clock \<Rightarrow> int" where
  "clock_id Monotonic = 1"
| "clock_id Realtime = 0"

definition TFD_CLOEXEC :: int where "TFD_CLOEXEC = 0x80000"

definition ZERO :: timespec where
  "ZERO = \<lparr>tv_sec = 0, tv_nsec = 0\<rparr>"

record duration =
  as_secs :: u64
  subsec_nanos :: u32

definition is_zero :: "duration \<Rightarrow> bool" where
  "is_zero d \<longleftrightarrow> as_secs d = 0 \<and> subsec_nanos d = 0"

text \<open>The invariant the standard library keeps of a \<open>Duration\<close>.\<close>

definition duration_ok :: "duration \<Rightarrow> bool" where
  "duration_ok d \<longleftrightarrow> uint (subsec_nanos d) < 1000000000"

definition too_large :: io_error where
  "too_large = Custom InvalidInput ''duration exceeds timespec''"

text \<open>\<open>i64::try_from\<close> of an unsigned value.\<close>

definition try_i64 :: "int \<Rightarrow> int option" where
  "try_i64 n = (if n < 2 ^ 63 then Some n else None)"

definition to_timespec :: "duration \<Rightarrow> io_error + timespec" where
  "to_timespec d =
     (case try_i64 (uint (as_secs d)) of
        None \<Rightarrow> Inl too_large
      | Some sec \<Rightarrow>
          (case try_i64 (uint (subsec_nanos d)) of
             None \<Rightarrow> Inl too_large
           | Some nsec \<Rightarrow> Inr \<lparr>tv_sec = sec, tv_nsec = nsec\<rparr>))"

record timer_fd =
  timer_raw :: int

section \<open>Operations\<close>

definition timer_new :: "'w kernel \<Rightarrow> clock \<Rightarrow> 'w os \<Rightarrow> (io_error + timer_fd) \<times> 'w os" where
  "timer_new K clock s =
     (case sys_timerfd_create K (clock_id clock) TFD_CLOEXEC s of (rv, s') \<Rightarrow>
        (if rv = -1 then Inl (last_os_error K s') else Inr \<lparr>timer_raw = rv\<rparr>, s'))"

definition settime ::
    "'w kernel \<Rightarrow> itimerspec \<Rightarrow> timer_fd \<Rightarrow> 'w os \<Rightarrow> (io_error + unit) \<times> 'w os" where
  "settime K spec t s =
     (case sys_timerfd_settime K (timer_raw t) 0 spec s of (res, s') \<Rightarrow>
        (if res = -1 then Inl (last_os_error K s') else Inr (), s'))"

definition arm_periodic ::
    "'w kernel \<Rightarrow> duration \<Rightarrow> timer_fd \<Rightarrow> 'w os \<Rightarrow> (io_error + unit) \<times> 'w os" where
  "arm_periodic K period t s =
     (if is_zero period
      then (Inl (Custom InvalidInput
              ''a zero period would disarm the timer; call disarm() instead''), s)
      else case to_timespec period of
          Inl e \<Rightarrow> (Inl e, s)
        | Inr ts \<Rightarrow> settime K \<lparr>it_interval = ts, it_value = ts\<rparr> t s)"

definition arm_oneshot ::
    "'w kernel \<Rightarrow> duration \<Rightarrow> timer_fd \<Rightarrow> 'w os \<Rightarrow> (io_error + unit) \<times> 'w os" where
  "arm_oneshot K delay t s =
     (if is_zero delay
      then (Inl (Custom InvalidInput
              ''a zero delay would disarm the timer; call disarm() instead''), s)
      else case to_timespec delay of
          Inl e \<Rightarrow> (Inl e, s)
        | Inr ts \<Rightarrow> settime K \<lparr>it_interval = ZERO, it_value = ts\<rparr> t s)"

definition disarm :: "'w kernel \<Rightarrow> timer_fd \<Rightarrow> 'w os \<Rightarrow> (io_error + unit) \<times> 'w os" where
  "disarm K t s = settime K \<lparr>it_interval = ZERO, it_value = ZERO\<rparr> t s"

text \<open>The counter is a local that starts at zero; the call stores into its eight bytes.\<close>

definition timer_read :: "'w kernel \<Rightarrow> timer_fd \<Rightarrow> 'w os \<Rightarrow> (io_error + u64) \<times> 'w os" where
  "timer_read K t s =
     (case sys_read K (timer_raw t) 8 s of (read, bs, s') \<Rightarrow>
        if read < 0 then (Inl (last_os_error K s'), s')
        else if nat read \<noteq> 8 then (Inl (Custom UnexpectedEof ''short read from timerfd''), s')
        else (Inr (le_u64 (fill (u64_le 0) bs)), s'))"

text \<open>The descriptor of the traits \<open>AsFd\<close> and \<open>Pollable\<close>.\<close>

definition timer_as_fd :: "timer_fd \<Rightarrow> int" where
  "timer_as_fd t = timer_raw t"

definition timer_pollable_fd :: "timer_fd \<Rightarrow> int" where
  "timer_pollable_fd t = timer_raw t"

section \<open>Lemmas\<close>

lemma to_timespec_cases:
  "to_timespec d =
     (if uint (as_secs d) < 2 ^ 63
      then Inr \<lparr>tv_sec = uint (as_secs d), tv_nsec = uint (subsec_nanos d)\<rparr>
      else Inl too_large)"
proof -
  have "uint (subsec_nanos d) < 2 ^ 32"
    using unsigned_less [of "subsec_nanos d", where ?'a = int] by simp
  then show ?thesis by (simp add: to_timespec_def try_i64_def)
qed

lemma settime_trace:
  "settime K spec t s = (r, s') \<Longrightarrow>
     \<exists>res. trace s' = trace s @ [CTimerSettime (timer_raw t) spec res]
       \<and> r = (if res = -1 then Inl (last_os_error K s') else Inr ())"
  using sys_timerfd_settime_trace [of K "timer_raw t" 0 spec s]
  by (fastforce simp: settime_def split: prod.splits)

lemma to_timespec_nonzero: "\<not> is_zero d \<Longrightarrow> to_timespec d = Inr ts \<Longrightarrow> ts \<noteq> ZERO"
  by (auto simp: to_timespec_cases is_zero_def ZERO_def uint_0_iff split: if_splits)

definition period_ns :: "duration \<Rightarrow> int" where
  "period_ns d = uint (as_secs d) * 1000000000 + uint (subsec_nanos d)"

definition timespec_ns :: "timespec \<Rightarrow> int" where
  "timespec_ns ts = tv_sec ts * 1000000000 + tv_nsec ts"

section \<open>Properties\<close>

text \<open>
  \<^bold>\<open>C29.\<close> Arming never disarms: neither \<open>arm_periodic\<close> nor \<open>arm_oneshot\<close>, for any duration,
  hands the kernel the zero expiry that means "disarm". Each makes no call at all and reports
  \<open>InvalidInput\<close>, or makes exactly one \<open>timerfd_settime\<close> with a non-zero expiry.
\<close>

theorem arming_never_disarms:
  "let (r, s') = (if periodic then arm_periodic K d t s else arm_oneshot K d t s) in
     (s' = s \<and> (\<exists>msg. r = Inl (Custom InvalidInput msg))
        \<and> (is_zero d \<or> 2 ^ 63 \<le> uint (as_secs d)))
   \<or> (\<exists>spec res. trace s' = trace s @ [CTimerSettime (timer_raw t) spec res]
        \<and> it_value spec \<noteq> ZERO \<and> (it_interval spec = (if periodic then it_value spec else ZERO))
        \<and> timespec_ns (it_value spec) = period_ns d
        \<and> r = (if res = -1 then Inl (last_os_error K s') else Inr ()))"
proof (cases "is_zero d \<or> 2 ^ 63 \<le> uint (as_secs d)")
  case True
  then show ?thesis
    by (auto simp: arm_periodic_def arm_oneshot_def to_timespec_cases too_large_def)
next
  case False
  let ?ts = "\<lparr>tv_sec = uint (as_secs d), tv_nsec = uint (subsec_nanos d)\<rparr>"
  have ts: "to_timespec d = Inr ?ts" using False by (simp add: to_timespec_cases)
  have nonzero: "?ts \<noteq> ZERO" using False ts to_timespec_nonzero by blast
  have ns: "timespec_ns ?ts = period_ns d" by (simp add: timespec_ns_def period_ns_def)
  obtain r s' where arm: "(if periodic then arm_periodic K d t s else arm_oneshot K d t s) = (r, s')"
    by force
  then have "settime K \<lparr>it_interval = (if periodic then ?ts else ZERO), it_value = ?ts\<rparr> t s = (r, s')"
    using False ts by (auto simp: arm_periodic_def arm_oneshot_def split: if_splits)
  then obtain res where
      "trace s' = trace s @ [CTimerSettime (timer_raw t)
         \<lparr>it_interval = (if periodic then ?ts else ZERO), it_value = ?ts\<rparr> res]"
      "r = (if res = -1 then Inl (last_os_error K s') else Inr ())"
    using settime_trace by blast
  moreover have "it_value \<lparr>it_interval = (if periodic then ?ts else ZERO), it_value = ?ts\<rparr> = ?ts"
    "it_interval \<lparr>it_interval = (if periodic then ?ts else ZERO), it_value = ?ts\<rparr>
       = (if periodic then ?ts else ZERO)"
    by simp_all
  ultimately show ?thesis
    unfolding arm Let_def prod.case using nonzero ns by (intro disjI2 exI conjI) (assumption | simp)+
qed

text \<open>
  \<^bold>\<open>C30.\<close> What the kernel is given is a valid \<open>timespec\<close> of exactly the requested length: every
  well-formed duration of less than \<open>2^63\<close> seconds converts, with the nanoseconds below one
  second, and every longer one is refused.
\<close>

theorem to_timespec_exact:
  assumes "duration_ok d"
  shows "case to_timespec d of
      Inl e \<Rightarrow> kind e = InvalidInput \<and> 2 ^ 63 * 1000000000 \<le> period_ns d
    | Inr ts \<Rightarrow> 0 \<le> tv_sec ts \<and> tv_sec ts < 2 ^ 63 \<and> 0 \<le> tv_nsec ts \<and> tv_nsec ts < 1000000000
        \<and> timespec_ns ts = period_ns d"
proof (cases "uint (as_secs d) < 2 ^ 63")
  case True
  with assms show ?thesis
    by (simp add: to_timespec_cases duration_ok_def timespec_ns_def period_ns_def)
next
  case False
  then have "(2 ^ 63 * 1000000000 :: int) \<le> uint (as_secs d) * 1000000000" by simp
  also have "\<dots> \<le> period_ns d" by (simp add: period_ns_def)
  finally show ?thesis using False by (simp add: to_timespec_cases too_large_def)
qed

theorem to_timespec_exact_witness:
  "case to_timespec \<lparr>as_secs = 3, subsec_nanos = 500000000\<rparr> of
      Inl e \<Rightarrow> kind e = InvalidInput
        \<and> 2 ^ 63 * 1000000000 \<le> period_ns \<lparr>as_secs = 3, subsec_nanos = 500000000\<rparr>
    | Inr ts \<Rightarrow> 0 \<le> tv_sec ts \<and> tv_sec ts < 2 ^ 63 \<and> 0 \<le> tv_nsec ts \<and> tv_nsec ts < 1000000000
        \<and> timespec_ns ts = period_ns \<lparr>as_secs = 3, subsec_nanos = 500000000\<rparr>"
  by (rule to_timespec_exact) (simp add: duration_ok_def)

text \<open>
  A read of the timer: when the kernel delivers the eight bytes of a count, that count is
  returned; a failed read is the kernel's error and any other length is \<open>UnexpectedEof\<close>, never
  a count.
\<close>

theorem timer_read_result:
  assumes "sys_read K (timer_raw t) 8 s = (ret, bs, s')"
  shows "timer_read K t s =
    (if ret = 8 then (Inr (le_u64 (fill (u64_le 0) bs)), s')
     else if ret < 0 then (Inl (last_os_error K s'), s')
     else (Inl (Custom UnexpectedEof ''short read from timerfd''), s'))
   \<and> (bs = u64_le n \<longrightarrow> le_u64 (fill (u64_le 0) bs) = n)"
  using assms by (auto simp: timer_read_def fill_exact u64.length_enc u64.dec_enc)

theorem timer_read_result_witness:
  "timer_read (idle_kernel\<lparr>k_read := \<lambda>fd n w. (8, u64_le 3, w)\<rparr>) \<lparr>timer_raw = 5\<rparr> (boot ())
     = (Inr 3, \<lparr>world = (), pfm_cell = None, trace = [CRead 5 8 8 (u64_le 3)]\<rparr>)"
proof -
  have "sys_read (idle_kernel\<lparr>k_read := \<lambda>fd n w. (8, u64_le 3, w)\<rparr>) (timer_raw \<lparr>timer_raw = 5\<rparr>) 8
      (boot ()) = (8, u64_le 3, \<lparr>world = (), pfm_cell = None, trace = [CRead 5 8 8 (u64_le 3)]\<rparr>)"
    by (simp add: os_simps boot_def log_call_def)
  from timer_read_result [OF this, of 3] show ?thesis by simp
qed

end
