(* ===== verification/Signals.thy ===== *)
theory Signals
  imports Simulation
begin

text \<open>
  The crate \<open>signals\<close> (\<open>signals/src/lib.rs\<close>): building a signal set, blocking it and reading it
  through a signalfd. A \<open>sigset_t\<close> is the memory image the libc functions work on.
\<close>

section \<open>Data\<close>

datatype signal =
    SIGHUP | SIGINT | SIGQUIT | SIGILL | SIGABRT | SIGFPE | SIGKILL | SIGSEGV | SIGPIPE | SIGALRM
  | SIGTERM

text \<open>The discriminants: the Linux signal numbers.\<close>

fun signo :: "signal \<Rightarrow> int" where
  "signo SIGHUP = 1"
| "signo SIGINT = 2"
| "signo SIGQUIT = 3"
| "signo SIGILL = 4"
| "signo SIGABRT = 6"
| "signo SIGFPE = 8"
| "signo SIGKILL = 9"
| "signo SIGSEGV = 11"
| "signo SIGPIPE = 13"
| "signo SIGALRM = 14"
| "signo SIGTERM = 15"

definition SIG_BLOCK :: int where "SIG_BLOCK = 0"
definition SFD_CLOEXEC :: int where "SFD_CLOEXEC = 0x80000"

text \<open>The size of \<open>signalfd_siginfo\<close>.\<close>

definition siginfo_size :: nat where "siginfo_size = 128"

record signal_fd =
  signal_raw :: int

section \<open>Operations\<close>

fun add_signals ::
    "'w kernel \<Rightarrow> byte list \<Rightarrow> signal list \<Rightarrow> 'w os \<Rightarrow> (io_error + byte list) \<times> 'w os" where
  "add_signals K sset [] s = (Inr sset, s)"
| "add_signals K sset (i # input) s =
     (case sys_sigaddset K sset (signo i) s of (r, sset', s') \<Rightarrow>
        if r = -1 then (Inl (last_os_error K s'), s') else add_signals K sset' input s')"

definition get_mask :: "'w kernel \<Rightarrow> signal list \<Rightarrow> 'w os \<Rightarrow> (io_error + byte list) \<times> 'w os" where
  "get_mask K input s =
     (case sys_sigemptyset K s of (r, sset, s') \<Rightarrow>
        if r = -1 then (Inl (last_os_error K s'), s') else add_signals K sset input s')"

definition block :: "'w kernel \<Rightarrow> signal list \<Rightarrow> 'w os \<Rightarrow> (io_error + unit) \<times> 'w os" where
  "block K signals s =
     (case get_mask K signals s of
        (Inl e, s') \<Rightarrow> (Inl e, s')
      | (Inr sset, s') \<Rightarrow>
          (case sys_sigprocmask K SIG_BLOCK sset s' of (res, s'') \<Rightarrow>
             (if res = -1 then Inl (last_os_error K s'') else Inr (), s'')))"

definition signal_fd_new ::
    "'w kernel \<Rightarrow> signal list \<Rightarrow> 'w os \<Rightarrow> (io_error + signal_fd) \<times> 'w os" where
  "signal_fd_new K signals s =
     (case get_mask K signals s of
        (Inl e, s') \<Rightarrow> (Inl e, s')
      | (Inr sset, s') \<Rightarrow>
          (case sys_signalfd K (-1) sset SFD_CLOEXEC s' of (rv, s'') \<Rightarrow>
             (if rv = -1 then Inl (last_os_error K s'') else Inr \<lparr>signal_raw = rv\<rparr>, s'')))"

text \<open>\<open>as_fd\<close> and the trait \<open>Pollable\<close>.\<close>

definition signal_as_fd :: "signal_fd \<Rightarrow> int" where
  "signal_as_fd sfd = signal_raw sfd"

definition signal_pollable_fd :: "signal_fd \<Rightarrow> int" where
  "signal_pollable_fd sfd = signal_raw sfd"

text \<open>
  \<open>SignalFD::read\<close>. The record read into is uninitialised, and it is assumed initialised whenever
  the call did not fail.
\<close>

definition signal_read ::
    "'w kernel \<Rightarrow> signal_fd \<Rightarrow> 'w os \<Rightarrow> (io_error + byte list) outcome \<times> 'w os" where
  "signal_read K sfd s =
     (case sys_read K (signal_raw sfd) siginfo_size s of (read, bs, s') \<Rightarrow>
        if read < 0 then (Return (Inl (last_os_error K s')), s')
        else (case assume_init (fill (uninit siginfo_size) (map Some bs)) of
                Return info \<Rightarrow> Return (Inr info)
              | Panic m \<Rightarrow> Panic m
              | Undefined \<Rightarrow> Undefined, s'))"

section \<open>Properties\<close>

text \<open>
  What libc documents of signal sets: \<open>members\<close> reads the signal numbers off a set's image,
  \<open>sigemptyset\<close> makes the empty set and \<open>sigaddset\<close> adds one number, unless they fail.
\<close>

definition sigset_laws :: "'w kernel \<Rightarrow> (byte list \<Rightarrow> int set) \<Rightarrow> bool" where
  "sigset_laws K members \<longleftrightarrow>
     (\<forall>w r m w'. k_sigemptyset K w = (r, m, w') \<longrightarrow> r \<noteq> -1 \<longrightarrow> members m = {})
   \<and> (\<forall>sset sig w r m w'. k_sigaddset K sset sig w = (r, m, w') \<longrightarrow> r \<noteq> -1 \<longrightarrow>
        members m = insert sig (members sset))"

lemma sigset_add_law:
  "sigset_laws K members \<Longrightarrow> sys_sigaddset K sset sig s = (r, m, s') \<Longrightarrow>
     (r \<noteq> -1 \<longrightarrow> members m = insert sig (members sset)) \<and> trace s' = trace s"
  by (cases "k_sigaddset K sset sig (world s)") (auto simp: sigset_laws_def sys_sigaddset_def, blast+)

lemma sigset_empty_law:
  "sigset_laws K members \<Longrightarrow> sys_sigemptyset K s = (r, m, s') \<Longrightarrow>
     (r \<noteq> -1 \<longrightarrow> members m = {}) \<and> trace s' = trace s"
  by (cases "k_sigemptyset K (world s)") (auto simp: sigset_laws_def sys_sigemptyset_def)

lemma signo_inj: "signo a = signo b \<longleftrightarrow> a = b"
  by (cases a; cases b) simp_all

lemma add_signals_members:
  "sigset_laws K members \<Longrightarrow> add_signals K sset input s = (Inr m, s') \<Longrightarrow>
     members m = members sset \<union> signo ` set input \<and> trace s' = trace s"
proof (induction input arbitrary: sset s)
  case Nil
  then show ?case by simp
next
  case (Cons i input)
  obtain r m1 s1 where add: "sys_sigaddset K sset (signo i) s = (r, m1, s1)" by (metis prod_cases3)
  then have "r \<noteq> -1 \<Longrightarrow> members m1 = insert (signo i) (members sset)" "trace s1 = trace s"
    using sigset_add_law [OF Cons.prems(1) add] by blast+
  with Cons.prems add Cons.IH [of m1 s1] show ?case by (auto split: if_splits)
qed

lemma get_mask_members:
  assumes laws: "sigset_laws K members" and mask: "get_mask K input s = (Inr m, s')"
  shows "members m = signo ` set input \<and> trace s' = trace s"
proof -
  obtain r m1 s1 where e: "sys_sigemptyset K s = (r, m1, s1)" by (metis prod_cases3)
  with mask have r: "r \<noteq> -1" and add: "add_signals K m1 input s1 = (Inr m, s')"
    by (auto simp: get_mask_def split: if_splits)
  from sigset_empty_law [OF laws e] r have "members m1 = {}" "trace s1 = trace s" by blast+
  with add_signals_members [OF laws add] show ?thesis by simp
qed

text \<open>
  \<^bold>\<open>C35.\<close> A signalfd watches exactly the signals it was asked for: on success one \<open>signalfd\<close> call was
  made, with a set whose members are the numbers of the given signals and no others, and the
  descriptor is the one it returned.
\<close>

theorem signal_fd_watches_exactly:
  assumes "sigset_laws K members" "signal_fd_new K signals s = (Inr sfd, s')"
  shows "\<exists>sset. trace s' = trace s @ [CSignalfd sset (signal_raw sfd)]
    \<and> (\<forall>sig. signo sig \<in> members sset \<longleftrightarrow> sig \<in> set signals) \<and> signal_raw sfd \<noteq> -1"
proof -
  obtain sset s1 where mask: "get_mask K signals s = (Inr sset, s1)"
    using assms(2) by (auto simp: signal_fd_new_def split: prod.splits sum.splits)
  obtain rv s2 where call: "sys_signalfd K (-1) sset SFD_CLOEXEC s1 = (rv, s2)" by force
  with assms(2) mask have "sfd = \<lparr>signal_raw = rv\<rparr>" "rv \<noteq> -1" "s' = s2"
    by (auto simp: signal_fd_new_def split: if_splits)
  with sys_signalfd_trace [OF call] get_mask_members [OF assms(1) mask] show ?thesis
    by (auto simp: signo_inj image_iff)
qed

definition set_members :: "byte list \<Rightarrow> int set" where
  "set_members sset = uint ` set sset"

abbreviation sigset_kernel :: "unit kernel" where
  "sigset_kernel \<equiv> idle_kernel\<lparr>k_sigaddset := \<lambda>sset sig w.
     if 0 \<le> sig \<and> sig < 256 then (0, sset @ [word_of_int sig], w) else (-1, sset, w)\<rparr>"

lemma sigset_kernel_laws: "sigset_laws sigset_kernel set_members"
  by (auto simp: sigset_laws_def idle_kernel_def set_members_def uint_word_of_int
      split: if_splits)

theorem signal_fd_watches_exactly_witness:
  "\<exists>sset. [CSignalfd [2] 4] = trace (boot ()) @ [CSignalfd sset 4]
     \<and> (\<forall>sig. signo sig \<in> set_members sset \<longleftrightarrow> sig \<in> set [SIGINT]) \<and> (4::int) \<noteq> -1"
proof -
  have "signal_fd_new sigset_kernel [SIGINT] (boot ()) =
      (Inr \<lparr>signal_raw = 4\<rparr>, \<lparr>world = (), pfm_cell = None, trace = [CSignalfd [2] 4]\<rparr>)"
    by (simp add: signal_fd_new_def get_mask_def os_simps boot_def log_call_def idle_kernel_def)
  from signal_fd_watches_exactly [OF sigset_kernel_laws this] show ?thesis by simp
qed

text \<open>
  \<open>SignalFD::read\<close> relies on the kernel never delivering part of a record: a full record is
  returned as it was delivered and a failed read is the kernel's error, but a read that succeeds
  with fewer bytes than a record would be undefined behaviour, as its length is not checked.
\<close>

theorem signal_read_needs_full_record:
  assumes "sys_read K (signal_raw sfd) siginfo_size s = (ret, bs, s')"
  shows "(ret < 0 \<longrightarrow> fst (signal_read K sfd s) = Return (Inl (last_os_error K s')))
    \<and> (0 \<le> ret \<and> length bs = siginfo_size \<longrightarrow> fst (signal_read K sfd s) = Return (Inr bs))
    \<and> (0 \<le> ret \<and> length bs < siginfo_size \<longrightarrow> fst (signal_read K sfd s) = Undefined)"
  using assms by (auto simp: signal_read_def assume_init_full assume_init_short)

theorem signal_read_needs_full_record_witness:
  "fst (signal_read (idle_kernel\<lparr>k_read := \<lambda>fd n w. (4, [1, 0, 0, 0], w)\<rparr>) \<lparr>signal_raw = 4\<rparr> (boot ()))
     = Undefined"
proof -
  have "sys_read (idle_kernel\<lparr>k_read := \<lambda>fd n w. (4, [1, 0, 0, 0], w)\<rparr>)
      (signal_raw \<lparr>signal_raw = 4\<rparr>) siginfo_size (boot ()) =
      (4, [1, 0, 0, 0], \<lparr>world = (), pfm_cell = None, trace = [CRead 4 128 4 [1, 0, 0, 0]]\<rparr>)"
    by (simp add: os_simps boot_def log_call_def siginfo_size_def)
  from signal_read_needs_full_record [OF this] show ?thesis by (simp add: siginfo_size_def)
qed

end
