(* ===== verification/Text.thy ===== *)
theory Text
  imports Prelude
begin

text \<open>
  The standard library's string functions the program uses, on the bytes of a UTF-8 string: what is UTF-8,
  \<open>str::trim\<close>, which strips Unicode white space at both ends, and the parser of \<open>i64\<close>. A string
  of the code is its list of bytes, as the scanner of \<open>parse_perf.rs\<close> treats it.
\<close>

section \<open>UTF-8\<close>

text \<open>What \<open>str::from_utf8\<close> accepts.\<close>

definition in_range :: "nat \<Rightarrow> nat \<Rightarrow> char \<Rightarrow> bool" where
  "in_range a b c \<longleftrightarrow> a \<le> of_char c \<and> of_char c \<le> b"

text \<open>The well-formed sequences of two, three and four bytes, as in table 3-7 of the Unicode standard.\<close>

definition utf8_seq :: "char \<Rightarrow> string \<Rightarrow> bool" where
  "utf8_seq a t \<longleftrightarrow> list_all (in_range 0x80 0xBF) t \<and>
     (case length t of
        0 \<Rightarrow> in_range 0 0x7F a
      | Suc 0 \<Rightarrow> in_range 0xC2 0xDF a
      | Suc (Suc 0) \<Rightarrow> in_range 0xE0 0xEF a
          \<and> (of_char a = (0xE0 :: nat) \<longrightarrow> in_range 0xA0 0xBF (hd t)) \<and> (of_char a = (0xED :: nat) \<longrightarrow> in_range 0x80 0x9F (hd t))
      | Suc (Suc (Suc 0)) \<Rightarrow> in_range 0xF0 0xF4 a
          \<and> (of_char a = (0xF0 :: nat) \<longrightarrow> in_range 0x90 0xBF (hd t)) \<and> (of_char a = (0xF4 :: nat) \<longrightarrow> in_range 0x80 0x8F (hd t))
      | _ \<Rightarrow> False)"

fun utf8_valid :: "string \<Rightarrow> bool" where
  "utf8_valid [] = True"
| "utf8_valid (a # s) = list_ex (\<lambda>n. n \<le> length s \<and> utf8_seq a (take n s) \<and> utf8_valid (drop n s)) [0, 1, 2, 3]"

lemma utf8_valid_parts: "utf8_valid (a # s) \<Longrightarrow> \<exists>t u. s = t @ u \<and> utf8_valid u \<and> utf8_seq a t"
  by (auto intro: append_take_drop_id [symmetric])

section \<open>Trimming\<close>

text \<open>The UTF-8 encodings of the characters with the property \<open>White_Space\<close>.\<close>

definition ws_seqs :: "string list" where
  "ws_seqs =
     [[CHR 0x09], [CHR 0x0A], [CHR 0x0B], [CHR 0x0C], [CHR 0x0D], [CHR 0x20],
      [CHR 0xC2, CHR 0x85], [CHR 0xC2, CHR 0xA0], [CHR 0xE1, CHR 0x9A, CHR 0x80]]
     @ map (\<lambda>b. [CHR 0xE2, CHR 0x80, b])
         [CHR 0x80, CHR 0x81, CHR 0x82, CHR 0x83, CHR 0x84, CHR 0x85, CHR 0x86, CHR 0x87,
          CHR 0x88, CHR 0x89, CHR 0x8A, CHR 0xA8, CHR 0xA9, CHR 0xAF]
     @ [[CHR 0xE2, CHR 0x81, CHR 0x9F], [CHR 0xE3, CHR 0x80, CHR 0x80]]"

definition starts_with :: "string \<Rightarrow> string \<Rightarrow> bool" where
  "starts_with w s \<longleftrightarrow> w \<noteq> [] \<and> take (length w) s = w"

text \<open>Removing sequences of a list from the front as long as one is there.\<close>

function strip :: "string list \<Rightarrow> string \<Rightarrow> string" where
  "strip ws s =
     (case find (\<lambda>w. starts_with w s) ws of None \<Rightarrow> s | Some w \<Rightarrow> strip ws (drop (length w) s))"
  by pat_completeness auto
termination
proof (relation "measure (\<lambda>(ws, s). length s)")
  fix ws :: "string list" and s w :: string
  assume "find (\<lambda>w. starts_with w s) ws = Some w"
  then have "starts_with w s" by (auto simp: find_Some_iff)
  then have "w \<noteq> []" "s \<noteq> []" by (auto simp: starts_with_def)
  then show "((ws, drop (length w) s), ws, s) \<in> measure (\<lambda>(ws, s). length s)" by simp
qed simp

declare strip.simps [simp del]

definition trim_start :: "string \<Rightarrow> string" where
  "trim_start s = strip ws_seqs s"

definition trim_end :: "string \<Rightarrow> string" where
  "trim_end s = rev (strip (map rev ws_seqs) (rev s))"

definition trim :: "string \<Rightarrow> string" where
  "trim s = trim_end (trim_start s)"

lemma strip_length: "length (strip ws s) \<le> length s"
proof (induction ws s rule: strip.induct)
  case (1 ws s)
  then show ?case by (subst strip.simps) (auto split: option.splits)
qed

lemma strip_done: "find (\<lambda>w. starts_with w (strip ws s)) ws = None"
proof (induction ws s rule: strip.induct)
  case (1 ws s)
  then show ?case by (cases "find (\<lambda>w. starts_with w s) ws") (simp_all add: strip.simps [of ws s])
qed

lemma strip_suffix: "\<exists>pre. s = pre @ strip ws s"
proof (induction ws s rule: strip.induct)
  case (1 ws s)
  show ?case
  proof (cases "find (\<lambda>w. starts_with w s) ws")
    case None
    then show ?thesis by (simp add: strip.simps [of ws s])
  next
    case (Some w)
    then obtain pre where "drop (length w) s = pre @ strip ws (drop (length w) s)" using 1 by blast
    then have "s = (take (length w) s @ pre) @ strip ws (drop (length w) s)"
      by (metis append_assoc append_take_drop_id)
    then show ?thesis using Some by (metis strip.simps option.simps(5))
  qed
qed

lemma strip_id: "find (\<lambda>w. starts_with w s) ws = None \<Longrightarrow> strip ws s = s"
  by (simp add: strip.simps [of ws s])

lemma strip_idem: "strip ws (strip ws s) = strip ws s"
  by (rule strip_id) (rule strip_done)

lemma strip_Nil [simp]: "strip ws [] = []"
  by (rule strip_id) (auto simp: find_None_iff starts_with_def)

text \<open>A string whose first and last bytes are neither white space nor outside ASCII is trimmed.\<close>

definition plain_char :: "char \<Rightarrow> bool" where
  "plain_char c \<longleftrightarrow> (let k = of_char c :: nat in 32 < k \<and> k < 127)"

lemma ws_seqs_not_plain:
  "w \<in> set ws_seqs \<Longrightarrow> w \<noteq> [] \<and> \<not> plain_char (hd w) \<and> \<not> plain_char (last w)"
  by (auto simp: ws_seqs_def plain_char_def Let_def)

lemma trim_start_plain: "s \<noteq> [] \<Longrightarrow> plain_char (hd s) \<Longrightarrow> trim_start s = s"
proof -
  assume s: "s \<noteq> []" "plain_char (hd s)"
  have "\<not> starts_with w s" if "w \<in> set ws_seqs" for w
    using ws_seqs_not_plain [OF that] s by (cases w; cases s) (auto simp: starts_with_def)
  then show ?thesis unfolding trim_start_def by (intro strip_id) (auto simp: find_None_iff)
qed

lemma trim_end_plain: "s \<noteq> [] \<Longrightarrow> plain_char (last s) \<Longrightarrow> trim_end s = s"
proof -
  assume s: "s \<noteq> []" "plain_char (last s)"
  have "\<not> starts_with (rev w) (rev s)" if "w \<in> set ws_seqs" for w
    using ws_seqs_not_plain [OF that] s
    by (cases w rule: rev_cases; cases s rule: rev_cases) (auto simp: starts_with_def)
  then have "strip (map rev ws_seqs) (rev s) = rev s"
    by (intro strip_id) (auto simp: find_None_iff)
  then show ?thesis by (simp add: trim_end_def)
qed

lemma trim_plain: "s \<noteq> [] \<Longrightarrow> plain_char (hd s) \<Longrightarrow> plain_char (last s) \<Longrightarrow> trim s = s"
  by (simp add: trim_def trim_start_plain trim_end_plain)

lemma trim_Nil [simp]: "trim [] = []"
  by (simp add: trim_def trim_start_def trim_end_def)

text \<open>A trailing newline, as the files under \<open>/proc\<close> have it, is trimmed.\<close>

lemma trim_end_newline:
  assumes "s \<noteq> []" "plain_char (last s)"
  shows "trim_end (s @ ''\<newline>'') = s"
proof -
  have found: "find (\<lambda>w. starts_with w (CHR ''\<newline>'' # rev s)) (map rev ws_seqs) = Some ''\<newline>''"
    by (simp add: ws_seqs_def starts_with_def)
  have "strip (map rev ws_seqs) (rev (s @ ''\<newline>'')) = strip (map rev ws_seqs) (rev s)"
    by (simp add: strip.simps [of _ "CHR ''\<newline>'' # rev s"] found)
  then show ?thesis using trim_end_plain [OF assms] by (simp add: trim_end_def)
qed

lemma trim_newline:
  assumes "s \<noteq> []" "plain_char (hd s)" "plain_char (last s)"
  shows "trim (s @ ''\<newline>'') = s"
proof -
  have "trim_start (s @ ''\<newline>'') = s @ ''\<newline>''"
    by (rule trim_start_plain) (use assms in simp_all)
  then show ?thesis by (simp add: trim_def trim_end_newline [OF assms(1,3)])
qed

section \<open>Parsing an \<open>i64\<close>\<close>

definition parse_digits :: "string \<Rightarrow> nat option" where
  "parse_digits cs = (if cs = [] then None else read_digits 0 cs)"

definition in_i64 :: "int \<Rightarrow> int option" where
  "in_i64 n = (if - (2 ^ 63) \<le> n \<and> n < 2 ^ 63 then Some n else None)"

definition parse_i64 :: "string \<Rightarrow> int option" where
  "parse_i64 s =
     (case s of
        [] \<Rightarrow> None
      | c # cs \<Rightarrow>
          if c = CHR ''-'' then Option.bind (parse_digits cs) (\<lambda>n. in_i64 (- int n))
          else if c = CHR ''+'' then Option.bind (parse_digits cs) (\<lambda>n. in_i64 (int n))
          else Option.bind (parse_digits s) (\<lambda>n. in_i64 (int n)))"

lemma show_nat_hd: "is_digit (hd (show_nat n))" and show_nat_last: "is_digit (last (show_nat n))"
  using show_nat_digits [of n] by (cases "show_nat n"; auto simp: list_all_iff)+

lemma is_digit_plain: "is_digit c \<Longrightarrow> plain_char c"
  by (auto simp: is_digit_def digit_val_def plain_char_def Let_def split: if_splits)

lemma parse_show_i64: "- (2 ^ 63) \<le> n \<Longrightarrow> n < 2 ^ 63 \<Longrightarrow> parse_i64 (show_int n) = Some n"
proof (cases "n < 0")
  case True
  assume "- (2 ^ 63) \<le> n" "n < 2 ^ 63"
  with True show ?thesis
    by (simp add: show_int_def parse_i64_def parse_digits_def read_digits_show in_i64_def)
next
  case False
  assume range: "- (2 ^ 63) \<le> n" "n < 2 ^ 63"
  obtain c cs where s: "show_nat (nat n) = c # cs" by (cases "show_nat (nat n)") auto
  have "is_digit c" using show_nat_hd [of "nat n"] s by simp
  then have "c \<noteq> CHR ''-''" "c \<noteq> CHR ''+''" by (auto simp: is_digit_def digit_val_def)
  moreover have "read_digits 0 (c # cs) = Some (nat n)" using read_digits_show [of "nat n"] s by simp
  ultimately show ?thesis
    using False range s by (simp add: show_int_def parse_i64_def parse_digits_def in_i64_def)
qed

lemma show_int_ends:
  "show_int n \<noteq> [] \<and> plain_char (hd (show_int n)) \<and> plain_char (last (show_int n))"
  using is_digit_plain [OF show_nat_hd] is_digit_plain [OF show_nat_last]
  by (auto simp: show_int_def) (simp add: plain_char_def)

section \<open>Splitting and joining\<close>

text \<open>\<open>str::split\<close> at an ASCII character, and \<open>[String]::join\<close> with one.\<close>

fun split_on :: "char \<Rightarrow> string \<Rightarrow> string list" where
  "split_on c [] = [[]]"
| "split_on c (x # xs) =
     (if x = c then [] # split_on c xs
      else (x # hd (split_on c xs)) # tl (split_on c xs))"

fun join_with :: "char \<Rightarrow> string list \<Rightarrow> string" where
  "join_with c [] = []"
| "join_with c [x] = x"
| "join_with c (x # y # ys) = x @ c # join_with c (y # ys)"

lemma split_on_nonempty [simp]: "split_on c s \<noteq> []"
  by (cases s) auto

lemma split_on_clean: "c \<notin> set s \<Longrightarrow> split_on c s = [s]"
  by (induction s) auto

lemma split_on_append: "c \<notin> set s \<Longrightarrow> split_on c (s @ c # t) = s # split_on c t"
  by (induction s) auto

lemma split_on_pieces: "x \<in> set (split_on c s) \<Longrightarrow> set x \<subseteq> set s - {c}"
proof (induction s arbitrary: x)
  case (Cons a s)
  show ?case
  proof (cases "a = c")
    case True
    with Cons.prems have "x = [] \<or> x \<in> set (split_on c s)" by auto
    with Cons.IH [of x] show ?thesis by fastforce
  next
    case False
    from Cons.IH [of "hd (split_on c s)"] have hd: "set (hd (split_on c s)) \<subseteq> set s - {c}" by simp
    from Cons.prems False consider "x = a # hd (split_on c s)" | "x \<in> set (tl (split_on c s))" by auto
    then show ?thesis
    proof cases
      case 1
      then show ?thesis using hd False by auto
    next
      case 2
      then have "x \<in> set (split_on c s)" by (cases "split_on c s") auto
      with Cons.IH [of x] show ?thesis by auto
    qed
  qed
qed simp

lemma join_split: "join_with c (split_on c s) = s"
proof (induction s)
  case (Cons a s)
  obtain y ys where sp: "split_on c s = y # ys" by (cases "split_on c s") auto
  with Cons show ?case by (cases ys) auto
qed simp

lemma split_join:
  "xs \<noteq> [] \<Longrightarrow> \<forall>x \<in> set xs. c \<notin> set x \<Longrightarrow> split_on c (join_with c xs) = xs"
  by (induction c xs rule: join_with.induct) (auto simp: split_on_clean split_on_append)

text \<open>The lines of a text, each with its newline.\<close>

lemma split_lines:
  "\<forall>x \<in> set xs. c \<notin> set x \<Longrightarrow> split_on c (concat (map (\<lambda>x. x @ [c]) xs)) = xs @ [[]]"
  by (induction xs) (auto simp: split_on_append)

lemma show_nat_chars: "x \<in> set (show_nat n) \<Longrightarrow> is_digit x"
  using show_nat_digits [of n] by (auto simp: list_all_iff)

lemma show_nat_clean: "\<not> is_digit c \<Longrightarrow> c \<notin> set (show_nat n)"
  using show_nat_chars by auto

lemma show_int_clean: "\<not> is_digit c \<Longrightarrow> c \<noteq> CHR ''-'' \<Longrightarrow> c \<notin> set (show_int n)"
  by (auto simp: show_int_def dest: show_nat_chars)

lemma separators_not_digits [simp]:
  "\<not> is_digit CHR '',''" "\<not> is_digit CHR ''\<newline>''" "\<not> is_digit CHR ''-''"
  by (simp_all add: is_digit_def digit_val_def)

lemma parse_digits_show: "parse_digits (show_nat n) = Some n"
  by (simp add: parse_digits_def read_digits_show)

section \<open>What trimming leaves\<close>

lemma strip_set: "set (strip ws s) \<subseteq> set s"
  using strip_suffix [of s ws] by (metis Un_upper2 set_append)

lemma trim_set: "set (trim s) \<subseteq> set s"
  using strip_set [of ws_seqs s] strip_set [of "map rev ws_seqs" "rev (strip ws_seqs s)"]
  by (simp add: trim_def trim_start_def trim_end_def)

lemma starts_with_append: "starts_with w u \<Longrightarrow> starts_with w (u @ v)"
proof -
  assume w: "starts_with w u"
  then have "length w \<le> length u" by (metis starts_with_def length_take min.absorb_iff2 min.commute min.cobounded1)
  with w show ?thesis by (simp add: starts_with_def)
qed

lemma trim_idem: "trim (trim s) = trim s"
proof -
  let ?t = "trim_start s"
  let ?u = "trim_end ?t"
  obtain pre where "rev ?t = pre @ strip (map rev ws_seqs) (rev ?t)" using strip_suffix by blast
  then have "rev (rev ?t) = ?u @ rev pre" by (metis rev_append trim_end_def)
  then have t: "?t = ?u @ rev pre" by simp
  have "find (\<lambda>w. starts_with w ?t) ws_seqs = None"
    unfolding trim_start_def by (rule strip_done)
  then have "\<not> starts_with w ?u" if "w \<in> set ws_seqs" for w
    using that t starts_with_append [of w ?u "rev pre"] by (auto simp: find_None_iff)
  then have "trim_start ?u = ?u"
    unfolding trim_start_def by (intro strip_id) (auto simp: find_None_iff)
  moreover have "trim_end ?u = ?u" by (simp add: trim_end_def strip_idem)
  ultimately show ?thesis by (simp add: trim_def)
qed

end
