(* ===== verification/Mqueue.thy ===== *)
theory Mqueue
  imports Simulation Text
begin

text \<open>
  The crate \<open>mqueue\<close> (\<open>mqueue/src/lib.rs\<close>): the reading end of a POSIX message queue whose
  messages are the images of a type \<open>T\<close>. The model passes \<open>size_of::<T>()\<close> and hands up the
  bytes; \<open>Message\<close> decodes them.
\<close>

section \<open>Data\<close>

record mq_reader =
  mq_fd :: int
  mq_name :: string

definition DESIRED_MAXMSG :: int where "DESIRED_MAXMSG = 50"

text \<open>\<open>O_RDONLY | O_CLOEXEC | O_CREAT\<close> and the mode \<open>0o666\<close>.\<close>

definition MQ_OPEN_FLAGS :: int where "MQ_OPEN_FLAGS = 0x80000 + 0x40"
definition MQ_MODE :: nat where "MQ_MODE = 438"

definition MSG_MAX_PATH :: string where "MSG_MAX_PATH = ''/proc/sys/fs/mqueue/msg_max''"

section \<open>Operations\<close>

definition kernel_maxmsg_limit :: "'w kernel \<Rightarrow> 'w os \<Rightarrow> int \<times> 'w os" where
  "kernel_maxmsg_limit K s =
     (case sys_read_file K MSG_MAX_PATH s of (contents, s') \<Rightarrow>
        (case Option.bind contents (\<lambda>t. parse_i64 (trim t)) of None \<Rightarrow> 10 | Some n \<Rightarrow> n, s'))"

definition mq_open_queue ::
    "'w kernel \<Rightarrow> nat \<Rightarrow> string \<Rightarrow> int \<Rightarrow> 'w os \<Rightarrow> (io_error + int) \<times> 'w os" where
  "mq_open_queue K msgsize path maxmsg s =
     (let attr = \<lparr>mq_flags = 0, mq_maxmsg = maxmsg, mq_msgsize = int msgsize, mq_curmsgs = 0\<rparr> in
      case sys_umask K 0 s of (prev_umask, s1) \<Rightarrow>
      (case sys_mq_open K path MQ_OPEN_FLAGS MQ_MODE attr s1 of (ret, s2) \<Rightarrow>
       (case sys_umask K prev_umask s2 of (_, s3) \<Rightarrow>
          (if ret = -1 then Inl (last_os_error K s3) else Inr ret, s3))))"

definition mq_new ::
    "'w kernel \<Rightarrow> nat \<Rightarrow> string \<Rightarrow> 'w os \<Rightarrow> (io_error + mq_reader) \<times> 'w os" where
  "mq_new K msgsize path s =
     (case (case mq_open_queue K msgsize path DESIRED_MAXMSG s of
              (Inl e, s1) \<Rightarrow>
                (if kind e = InvalidInput
                 then case kernel_maxmsg_limit K s1 of (limit, s2) \<Rightarrow>
                        mq_open_queue K msgsize path limit s2
                 else (Inl e, s1))
            | (Inr fd, s1) \<Rightarrow> (Inr fd, s1)) of
        (Inl e, s') \<Rightarrow> (Inl e, s')
      | (Inr fd, s') \<Rightarrow> (Inr \<lparr>mq_fd = fd, mq_name = path\<rparr>, s'))"

text \<open>\<open>ret.cast_unsigned()\<close> of a 64-bit signed value.\<close>

definition cast_unsigned :: "int \<Rightarrow> nat" where
  "cast_unsigned x = nat (x mod 2 ^ 64)"

definition mq_read ::
    "'w kernel \<Rightarrow> nat \<Rightarrow> mq_reader \<Rightarrow> 'w os \<Rightarrow> (mq_error + byte list) outcome \<times> 'w os" where
  "mq_read K msgsize q s =
     (case sys_mq_receive K (mq_fd q) msgsize s of (ret, bs, s') \<Rightarrow>
        if ret = -1 then (Return (Inl (MqIO (last_os_error K s'))), s')
        else if cast_unsigned ret = msgsize then
          (case assume_init (fill (uninit msgsize) (map Some bs)) of
             Return v \<Rightarrow> Return (Inr v)
           | Panic m \<Rightarrow> Panic m
           | Undefined \<Rightarrow> Undefined, s')
        else (Return (Inl WrongSize), s'))"

definition mq_as_fd :: "mq_reader \<Rightarrow> int" where
  "mq_as_fd q = mq_fd q"

definition mq_pollable_fd :: "mq_reader \<Rightarrow> int" where
  "mq_pollable_fd q = mq_fd q"

text \<open>\<open>Drop\<close>: unlink the name, then the descriptor is closed by its owner.\<close>

definition mq_drop :: "'w kernel \<Rightarrow> mq_reader \<Rightarrow> 'w os \<Rightarrow> 'w os" where
  "mq_drop K q s = sys_close K (mq_fd q) (sys_mq_unlink K (mq_name q) s)"

section \<open>Lemmas\<close>

lemma mq_open_queue_trace:
  assumes "mq_open_queue K n path m s = (r, s')"
  shows "\<exists>prev ret u. trace s' = trace s @ [CUmask 0 prev,
      CMqOpen path MQ_OPEN_FLAGS MQ_MODE
        \<lparr>mq_flags = 0, mq_maxmsg = m, mq_msgsize = int n, mq_curmsgs = 0\<rparr> ret, CUmask prev u]
    \<and> r = (if ret = -1 then Inl (last_os_error K s') else Inr ret)"
proof -
  let ?attr = "\<lparr>mq_flags = 0, mq_maxmsg = m, mq_msgsize = int n, mq_curmsgs = 0\<rparr>"
  obtain prev s1 where u0: "sys_umask K 0 s = (prev, s1)" by force
  obtain ret s2 where o1: "sys_mq_open K path MQ_OPEN_FLAGS MQ_MODE ?attr s1 = (ret, s2)" by force
  obtain u s3 where u1: "sys_umask K prev s2 = (u, s3)" by force
  note traces = sys_umask_trace [OF u0] sys_mq_open_trace [OF o1] sys_umask_trace [OF u1]
  from assms u0 o1 u1 have "s' = s3" "r = (if ret = -1 then Inl (last_os_error K s') else Inr ret)"
    by (auto simp: mq_open_queue_def Let_def)
  with traces show ?thesis by simp
qed

text \<open>The running value of the process's umask along a trace, given its value at the start.\<close>

fun umask_after :: "nat \<Rightarrow> call list \<Rightarrow> nat" where
  "umask_after m [] = m"
| "umask_after m (CUmask new old # cs) = umask_after new cs"
| "umask_after m (c # cs) = umask_after m cs"

lemma umask_after_append [simp]: "umask_after m (xs @ ys) = umask_after (umask_after m xs) ys"
  by (induction m xs rule: umask_after.induct) auto

text \<open>The kernel's \<open>umask\<close>: it returns the mask in force, and nothing else changes it.\<close>

fun umasks_honest :: "nat \<Rightarrow> call list \<Rightarrow> bool" where
  "umasks_honest m [] = True"
| "umasks_honest m (CUmask new old # cs) \<longleftrightarrow> old = m \<and> umasks_honest new cs"
| "umasks_honest m (c # cs) = umasks_honest m cs"

lemma umasks_honest_append:
  "umasks_honest m (xs @ ys) \<longleftrightarrow> umasks_honest m xs \<and> umasks_honest (umask_after m xs) ys"
  by (induction m xs rule: umasks_honest.induct) auto

lemma mq_open_queue_umask:
  assumes "mq_open_queue K n path m s = (r, s')" "umasks_honest u (trace s')"
  shows "umask_after u (trace s') = umask_after u (trace s)"
  using mq_open_queue_trace [OF assms(1)] assms(2) by (auto simp: umasks_honest_append)

lemma kernel_maxmsg_limit_trace:
  "kernel_maxmsg_limit K s = (n, s') \<Longrightarrow> trace s' = trace s @ [CReadFile MSG_MAX_PATH]"
  using sys_read_file_trace [of K MSG_MAX_PATH s] by (fastforce simp: kernel_maxmsg_limit_def split: prod.splits)

section \<open>Properties\<close>

text \<open>
  \<^bold>\<open>C33.\<close> Opening the queue clears the process's umask only for the call itself: whichever way
  \<open>MQueueReader::new\<close> ends (opened at once, opened at the kernel's depth after \<open>EINVAL\<close>, failed),
  the umask in force afterwards is the one in force before.
\<close>

theorem mq_new_restores_umask:
  assumes "mq_new K n path s = (r, s')" "umasks_honest u (trace s')"
  shows "umask_after u (trace s') = umask_after u (trace s)"
proof -
  obtain r1 s1 where o1: "mq_open_queue K n path DESIRED_MAXMSG s = (r1, s1)" by force
  obtain lim s2 where l: "kernel_maxmsg_limit K s1 = (lim, s2)" by force
  obtain r3 s3 where o3: "mq_open_queue K n path lim s2 = (r3, s3)" by force
  from assms(1) o1 l o3 consider "s' = s1" | "s' = s3"
    by (auto simp: mq_new_def split: sum.splits if_splits)
  then show ?thesis
  proof cases
    case 1
    then show ?thesis using mq_open_queue_umask [OF o1] assms(2) by simp
  next
    case 2
    note lim = kernel_maxmsg_limit_trace [OF l]
    obtain rest where "trace s3 = trace s2 @ rest" using mq_open_queue_trace [OF o3] by blast
    with assms(2) 2 lim have "umasks_honest u (trace s1)" by (simp add: umasks_honest_append)
    with mq_open_queue_umask [OF o1] mq_open_queue_umask [OF o3] lim 2 assms(2) show ?thesis by simp
  qed
qed

text \<open>A world that is the process's umask.\<close>

abbreviation umask_kernel :: "nat kernel" where
  "umask_kernel \<equiv> idle_kernel\<lparr>k_umask := \<lambda>m w. (w, m)\<rparr>"

theorem mq_new_restores_umask_witness:
  "umask_after 18 (trace (snd (mq_new umask_kernel 8 ''/q'' (boot 18)))) = umask_after 18 (trace (boot (18::nat)))"
proof -
  have "mq_new umask_kernel 8 ''/q'' (boot 18) = (fst (mq_new umask_kernel 8 ''/q'' (boot 18)),
      snd (mq_new umask_kernel 8 ''/q'' (boot 18)))" by simp
  moreover have "umasks_honest 18 (trace (snd (mq_new umask_kernel 8 ''/q'' (boot 18))))"
    by (simp add: mq_new_def mq_open_queue_def os_simps boot_def log_call_def idle_kernel_def Let_def)
  ultimately show ?thesis by (rule mq_new_restores_umask)
qed

definition asked_depths :: "call list \<Rightarrow> int list" where
  "asked_depths cs = List.map_filter
     (\<lambda>c. case c of CMqOpen path flags mode attr ret \<Rightarrow> Some (mq_maxmsg attr) | _ \<Rightarrow> None) cs"

lemma asked_depths_append: "asked_depths (xs @ ys) = asked_depths xs @ asked_depths ys"
  by (simp add: asked_depths_def List.map_filter_def)

lemma asked_depths_open:
  "mq_open_queue K n path m s = (r, s') \<Longrightarrow> asked_depths (trace s') = asked_depths (trace s) @ [m]"
  by (drule mq_open_queue_trace) (auto simp: asked_depths_def List.map_filter_def)

text \<open>
  The depth that is asked for: first 50 messages; only if the kernel answers \<open>EINVAL\<close>
  a second time, with the number in \<open>/proc/sys/fs/mqueue/msg_max\<close>, or 10 when that file cannot be
  read or does not hold a 64-bit integer. No other error is retried.
\<close>

theorem mq_new_depths:
  assumes first: "mq_open_queue K n path DESIRED_MAXMSG s = (r1, s1)"
    and proc: "sys_read_file K MSG_MAX_PATH s1 = (contents, s2)"
    and new: "mq_new K n path s = (r, s')"
  shows "asked_depths (trace s') = asked_depths (trace s) @
    (case r1 of
       Inr fd \<Rightarrow> [50]
     | Inl e \<Rightarrow> if kind e \<noteq> InvalidInput then [50]
         else (case contents of
                 None \<Rightarrow> [50, 10]
               | Some text \<Rightarrow> (case parse_i64 (trim text) of None \<Rightarrow> [50, 10] | Some lim \<Rightarrow> [50, lim])))
    \<and> (\<forall>lim. - (2 ^ 63) \<le> lim \<and> lim < 2 ^ 63 \<longrightarrow> parse_i64 (trim (show_int lim @ ''\<newline>'')) = Some lim)"
proof
  define lim where
    "lim = (case Option.bind contents (\<lambda>t. parse_i64 (trim t)) of None \<Rightarrow> 10 | Some n \<Rightarrow> n)"
  have l: "kernel_maxmsg_limit K s1 = (lim, s2)" by (simp add: kernel_maxmsg_limit_def proc lim_def)
  obtain r3 s3 where o3: "mq_open_queue K n path lim s2 = (r3, s3)" by force
  note depths = asked_depths_open [OF first] asked_depths_open [OF o3]
  have "asked_depths (trace s2) = asked_depths (trace s1)"
    using kernel_maxmsg_limit_trace [OF l] by (simp add: asked_depths_append) (simp add: asked_depths_def List.map_filter_def)
  with depths first new l o3 show "asked_depths (trace s') = asked_depths (trace s) @
    (case r1 of
       Inr fd \<Rightarrow> [50]
     | Inl e \<Rightarrow> if kind e \<noteq> InvalidInput then [50]
         else (case contents of
                 None \<Rightarrow> [50, 10]
               | Some text \<Rightarrow> (case parse_i64 (trim text) of None \<Rightarrow> [50, 10] | Some lim \<Rightarrow> [50, lim])))"
    by (auto simp: mq_new_def lim_def DESIRED_MAXMSG_def split: sum.splits if_splits option.splits)
qed (auto simp: trim_newline show_int_ends parse_show_i64)

theorem mq_new_depths_witness:
  "asked_depths (trace (snd (mq_new (idle_kernel\<lparr>k_errno := \<lambda>_. 22, k_mq_open := \<lambda>path flags mode attr w.
       (if mq_maxmsg attr \<le> 10 then 6 else -1, w)\<rparr>) 8 ''/q'' (boot ())))) = [50, 10]"
proof -
  let ?K = "idle_kernel\<lparr>k_errno := \<lambda>_. 22, k_mq_open := \<lambda>path flags mode attr w.
       (if mq_maxmsg attr \<le> 10 then 6 else -1, w)\<rparr> :: unit kernel"
  let ?s1 = "snd (mq_open_queue ?K 8 ''/q'' DESIRED_MAXMSG (boot ()))"
  have first: "mq_open_queue ?K 8 ''/q'' DESIRED_MAXMSG (boot ()) = (Inl (Os 22), ?s1)"
    by (simp add: mq_open_queue_def os_simps boot_def log_call_def idle_kernel_def Let_def
        DESIRED_MAXMSG_def)
  have proc: "sys_read_file ?K MSG_MAX_PATH ?s1 = (None, snd (sys_read_file ?K MSG_MAX_PATH ?s1))"
    by (simp add: sys_read_file_def idle_kernel_def)
  have "mq_new ?K 8 ''/q'' (boot ()) =
      (fst (mq_new ?K 8 ''/q'' (boot ())), snd (mq_new ?K 8 ''/q'' (boot ())))" by simp
  from mq_new_depths [OF first proc this] show ?thesis
    by (simp add: EINTR_def EINVAL_def boot_def asked_depths_def List.map_filter_def)
qed

text \<open>
  \<^bold>\<open>C34.\<close> A read never yields a value that was not fully received: on a kernel that stores as many
  bytes as it says it received, \<open>read\<close> has no undefined behaviour, returns a value exactly when a
  message of the full size arrived (and then its bytes), \<open>WrongSize\<close> for any other length, and
  the kernel's error otherwise.
\<close>

theorem mq_read_exact:
  assumes recv: "sys_mq_receive K (mq_fd q) n s = (ret, bs, s')"
    and honest: "ret = -1 \<or> 0 \<le> ret \<and> ret < 2 ^ 63 \<and> (ret = int n \<longrightarrow> length bs = n)" and size: "n < 2 ^ 63"
  shows "fst (mq_read K n q s) =
    Return (if ret = -1 then Inl (MqIO (last_os_error K s'))
            else if ret = int n then Inr bs else Inl WrongSize)"
proof (cases "ret = -1")
  case True
  with recv show ?thesis by (simp add: mq_read_def)
next
  case False
  with honest have ret: "0 \<le> ret" "ret < 2 ^ 63" by auto
  then have "cast_unsigned ret = nat ret" by (simp add: cast_unsigned_def)
  with False ret honest recv show ?thesis by (auto simp: mq_read_def assume_init_full)
qed

theorem mq_read_exact_witness:
  "fst (mq_read (idle_kernel\<lparr>k_mq_receive := \<lambda>fd n w. (2, [1, 2], w)\<rparr>) 2 \<lparr>mq_fd = 6, mq_name = ''/q''\<rparr> (boot ()))
     = Return (Inr [1, 2])"
proof -
  have "sys_mq_receive (idle_kernel\<lparr>k_mq_receive := \<lambda>fd n w. (2, [1, 2], w)\<rparr>)
      (mq_fd \<lparr>mq_fd = 6, mq_name = ''/q''\<rparr>) 2 (boot ()) =
      (2, [1, 2], \<lparr>world = (), pfm_cell = None, trace = [CMqReceive 6 2 2]\<rparr>)"
    by (simp add: os_simps boot_def log_call_def)
  from mq_read_exact [OF this] show ?thesis by simp
qed

end
