(* ===== verification/Message.thy ===== *)
theory Message
  imports Bytes Mqueue
begin

text \<open>
  The crate \<open>threadstat-message\<close> (\<open>threadstat-message/src/lib.rs\<close>), over the struct and the flag
  values of \<open>wrapper/shared_def.h\<close>, and the messages the preloaded library
  \<open>wrapper/wrapper.c\<close> sends.
\<close>

section \<open>Data\<close>

text \<open>\<open>struct message\<close>: a 32-bit \<open>pid_t\<close> and an unsigned int.\<close>

record message =
  m_tid :: i32
  m_flags :: u32

definition MESSAGE_FLAG_ADD_PROCESS :: u32 where "MESSAGE_FLAG_ADD_PROCESS = 1"
definition MESSAGE_FLAG_REMOVE_PROCESS :: u32 where "MESSAGE_FLAG_REMOVE_PROCESS = 2"
definition MQ_NAME :: string where "MQ_NAME = ''/thread_stat_queue''"

datatype message_flag = AddProcess | RemoveProcess

record threadstat_message =
  tid :: i32
  flag :: message_flag

text \<open>\<open>UnknownFlag\<close> carries the flags it did not know.\<close>

definition try_from :: "message \<Rightarrow> u32 + threadstat_message" where
  "try_from msg =
     (if m_flags msg = MESSAGE_FLAG_ADD_PROCESS then Inr \<lparr>tid = m_tid msg, flag = AddProcess\<rparr>
      else if m_flags msg = MESSAGE_FLAG_REMOVE_PROCESS then Inr \<lparr>tid = m_tid msg, flag = RemoveProcess\<rparr>
      else Inl (m_flags msg))"

text \<open>The image of the struct, and reading it back.\<close>

definition message_size :: nat where "message_size = 8"

definition message_image :: "message \<Rightarrow> byte list" where
  "message_image msg = u32_le (m_tid msg) @ u32_le (m_flags msg)"

definition message_of :: "byte list \<Rightarrow> message" where
  "message_of bs = \<lparr>m_tid = le_u32 (take 4 bs), m_flags = le_u32 (drop 4 bs)\<rparr>"

interpretation msg: codec message_size message_image message_of
proof
  fix x :: message
  show "length (message_image x) = message_size"
    by (simp add: message_image_def message_size_def u32.length_enc)
  show "message_of (message_image x) = x"
    by (simp add: message_image_def message_of_def u32.length_enc u32.dec_enc)
next
  fix bs :: "byte list" assume "length bs = message_size"
  then show "message_image (message_of bs) = bs"
    by (simp add: message_image_def message_of_def message_size_def u32.enc_dec)
qed (simp add: message_size_def)

text \<open>\<open>ThreadstatMQReader::read\<close>: the queue reader at the type \<open>message\<close>.\<close>

definition message_read ::
    "'w kernel \<Rightarrow> mq_reader \<Rightarrow> 'w os \<Rightarrow> (mq_error + message) outcome \<times> 'w os" where
  "message_read K q s =
     (case mq_read K message_size q s of (out, s') \<Rightarrow>
        (case out of
           Return (Inr bs) \<Rightarrow> Return (Inr (message_of bs))
         | Return (Inl e) \<Rightarrow> Return (Inl e)
         | Panic m \<Rightarrow> Panic m
         | Undefined \<Rightarrow> Undefined, s'))"

section \<open>The sending side\<close>

text \<open>
  \<open>wrapper.c\<close>: the library's constructor announces the main thread; the wrapper of a created
  thread announces it before its function runs and takes it back by the cleanup handler, which
  runs when the function returns, exits or is cancelled.
\<close>

definition constructor_messages :: "i32 \<Rightarrow> message list" where
  "constructor_messages t = [\<lparr>m_tid = t, m_flags = MESSAGE_FLAG_ADD_PROCESS\<rparr>]"

definition wrapper_messages :: "i32 \<Rightarrow> message list" where
  "wrapper_messages t =
     [\<lparr>m_tid = t, m_flags = MESSAGE_FLAG_ADD_PROCESS\<rparr>,
      \<lparr>m_tid = t, m_flags = MESSAGE_FLAG_REMOVE_PROCESS\<rparr>]"

section \<open>Properties\<close>

lemma flags_distinct: "MESSAGE_FLAG_ADD_PROCESS \<noteq> MESSAGE_FLAG_REMOVE_PROCESS"
  by (simp add: MESSAGE_FLAG_ADD_PROCESS_def MESSAGE_FLAG_REMOVE_PROCESS_def)

text \<open>
  The two sides of the queue agree: when the queue delivers the image of a message that the
  preloaded library sends, \<open>read\<close> followed by \<open>try_from\<close> gives back the thread and the action,
  in the order sent: add for a thread that starts, then remove when it ends.
\<close>

theorem wrapper_messages_received:
  "map (try_from \<circ> message_of \<circ> message_image) (wrapper_messages t) =
     [Inr \<lparr>tid = t, flag = AddProcess\<rparr>, Inr \<lparr>tid = t, flag = RemoveProcess\<rparr>]
   \<and> map (try_from \<circ> message_of \<circ> message_image) (constructor_messages t) =
     [Inr \<lparr>tid = t, flag = AddProcess\<rparr>]"
  using flags_distinct
  by (simp add: wrapper_messages_def constructor_messages_def msg.dec_enc try_from_def)

lemma try_from_inj: "try_from a = Inr m \<Longrightarrow> try_from b = Inr m \<Longrightarrow> a = b"
  using flags_distinct by (cases a; cases b) (auto simp: try_from_def split: if_splits)

text \<open>
  \<^bold>\<open>C25.\<close> Any other eight bytes are rejected with the flags they carry: a received message becomes
  an action exactly when its bytes are the image of one of the messages the wrapper sends for
  some thread, and no two byte strings give the same action for the same thread.
\<close>

theorem try_from_accepts_only_wrapper_messages:
  assumes "length bs = message_size"
  shows "(case try_from (message_of bs) of
      Inr m \<Rightarrow> bs \<in> message_image ` set (wrapper_messages (tid m))
        \<and> (\<forall>bs'. length bs' = message_size \<longrightarrow> try_from (message_of bs') = Inr m \<longrightarrow> bs' = bs)
    | Inl f \<Rightarrow> f = le_u32 (drop 4 bs) \<and> (\<forall>t. bs \<notin> message_image ` set (wrapper_messages t)))"
proof (cases "try_from (message_of bs)")
  case (Inl f)
  then have "message_of bs \<notin> set (wrapper_messages t)" for t
    by (auto simp: wrapper_messages_def try_from_def split: if_splits)
  then have "bs \<notin> message_image ` set (wrapper_messages t)" for t
    by (auto simp: image_iff) (metis msg.dec_enc)
  moreover have "f = le_u32 (drop 4 bs)"
    using Inl by (auto simp: try_from_def message_of_def split: if_splits)
  ultimately show ?thesis using Inl by simp
next
  case (Inr m)
  have img: "message_image (message_of bs) = bs" using assms by (rule msg.enc_dec)
  have "message_of bs \<in> set (wrapper_messages (tid m))"
    using Inr by (cases "message_of bs") (auto simp: wrapper_messages_def try_from_def split: if_splits)
  then have "bs \<in> message_image ` set (wrapper_messages (tid m))" using img by (metis image_eqI)
  moreover have "bs' = bs" if "length bs' = message_size" "try_from (message_of bs') = Inr m" for bs'
    using try_from_inj [OF Inr that(2)] img msg.enc_dec [OF that(1)] by metis
  ultimately show ?thesis using Inr by auto
qed

theorem try_from_accepts_only_wrapper_messages_witness:
  "\<forall>t. [42, 0, 0, 0, 3, 0, 0, 0] \<notin> message_image ` set (wrapper_messages t)"
proof -
  have "try_from (message_of [42, 0, 0, 0, 3, 0, 0, 0]) = Inl 3"
    by (simp add: try_from_def message_of_def le_u32_def MESSAGE_FLAG_ADD_PROCESS_def
        MESSAGE_FLAG_REMOVE_PROCESS_def)
  then show ?thesis
    using try_from_accepts_only_wrapper_messages [of "[42, 0, 0, 0, 3, 0, 0, 0]"]
    by (simp add: message_size_def)
qed

end
