(* ===== verification/Perf_Config.thy ===== *)
theory Perf_Config
  imports Simulation Text
begin

text \<open>
  Event configurations: \<open>perf-ffi/src/perf_event_config.rs\<close> and, over libpfm,
  \<open>perf-ffi/src/pfm.rs\<close>. The size of the generated \<open>perf_event_attr\<close> depends on the kernel
  headers of the build, so it is an argument; the enumeration values are those of
  \<open>linux/perf_event.h\<close>. The process-wide cell of \<open>PFM\<close>, a \<open>LazyLock\<close>, is \<open>pfm_cell\<close>.
\<close>

section \<open>Data\<close>

record 'n perf_config =
  pc_attr :: perf_event_attr
  pc_name :: 'n

datatype hw_event =
    CpuCycles | Instructions | CacheReferences | CacheMisses | BranchInstructions | BranchMisses
  | BusCycles | StalledCyclesFrontend | StalledCyclesBackend | RefCpuCycles

fun hw_value :: "hw_event \<Rightarrow> u32" where
  "hw_value CpuCycles = 0"
| "hw_value Instructions = 1"
| "hw_value CacheReferences = 2"
| "hw_value CacheMisses = 3"
| "hw_value BranchInstructions = 4"
| "hw_value BranchMisses = 5"
| "hw_value BusCycles = 6"
| "hw_value StalledCyclesFrontend = 7"
| "hw_value StalledCyclesBackend = 8"
| "hw_value RefCpuCycles = 9"

datatype cache_id = L1D | L1I | LL | DTLB | ITLB | BPU | Node

fun cache_id_value :: "cache_id \<Rightarrow> u32" where
  "cache_id_value L1D = 0"
| "cache_id_value L1I = 1"
| "cache_id_value LL = 2"
| "cache_id_value DTLB = 3"
| "cache_id_value ITLB = 4"
| "cache_id_value BPU = 5"
| "cache_id_value Node = 6"

datatype cache_operation = Read | Write | Prefetch

fun cache_operation_value :: "cache_operation \<Rightarrow> u32" where
  "cache_operation_value Read = 0"
| "cache_operation_value Write = 1"
| "cache_operation_value Prefetch = 2"

datatype cache_result = Access | Miss

fun cache_result_value :: "cache_result \<Rightarrow> u32" where
  "cache_result_value Access = 0"
| "cache_result_value Miss = 1"

definition PERF_TYPE_HARDWARE :: u32 where "PERF_TYPE_HARDWARE = 0"
definition PERF_TYPE_HW_CACHE :: u32 where "PERF_TYPE_HW_CACHE = 3"

section \<open>Hardware events\<close>

definition default_perf_event_attr :: "nat \<Rightarrow> perf_event_attr" where
  "default_perf_event_attr sz = zeroed_attr\<lparr>attr_size := of_nat sz\<rparr>"

definition set_exclude_hv :: "bool \<Rightarrow> 'n perf_config \<Rightarrow> 'n perf_config" where
  "set_exclude_hv v c = c\<lparr>pc_attr := (pc_attr c)\<lparr>attr_exclude_hv := v\<rparr>\<rparr>"

definition hardware_event :: "nat \<Rightarrow> hw_event \<Rightarrow> 'n \<Rightarrow> 'n perf_config" where
  "hardware_event sz event name =
     (let attr = (default_perf_event_attr sz)
        \<lparr>attr_type := PERF_TYPE_HARDWARE, attr_config := ucast (hw_value event)\<rparr> in
      set_exclude_hv True \<lparr>pc_attr = attr, pc_name = name\<rparr>)"

definition hardware_cache_event ::
    "nat \<Rightarrow> cache_id \<Rightarrow> cache_operation \<Rightarrow> cache_result \<Rightarrow> 'n \<Rightarrow> 'n perf_config" where
  "hardware_cache_event sz cache op result name =
     (let attr = (default_perf_event_attr sz)
        \<lparr>attr_type := PERF_TYPE_HW_CACHE,
         attr_config := ucast (cache_id_value cache
           OR push_bit 8 (cache_operation_value op) OR push_bit 16 (cache_result_value result))\<rparr> in
      set_exclude_hv True \<lparr>pc_attr = attr, pc_name = name\<rparr>)"

section \<open>libpfm\<close>

definition PFM_SUCCESS :: int where "PFM_SUCCESS = 0"

text \<open>\<open>PFM_PLM3 | PFM_PLM0 | PFM_PLMH\<close>.\<close>

definition PFM_PLM :: nat where "PFM_PLM = 0x8 + 0x1 + 0x10"

text \<open>Forcing the \<open>LazyLock\<close>: the first access initialises libpfm, later ones read the cell.\<close>

definition pfm_force :: "'w kernel \<Rightarrow> 'w os \<Rightarrow> (int + unit) \<times> 'w os" where
  "pfm_force K s =
     (case pfm_cell s of
        Some r \<Rightarrow> (r, s)
      | None \<Rightarrow>
          (case sys_pfm_initialize K s of (ret, s') \<Rightarrow>
             let r = (if ret = PFM_SUCCESS then Inr () else Inl ret) in
             (r, s'\<lparr>pfm_cell := Some r\<rparr>)))"

definition get_perf_attr_array ::
    "'w kernel \<Rightarrow> string \<Rightarrow> 'w os \<Rightarrow> (int + perf_event_attr) \<times> 'w os" where
  "get_perf_attr_array K event s =
     (case sys_pfm_encode K event PFM_PLM zeroed_attr s of (ret, rv, s') \<Rightarrow>
        (if ret = PFM_SUCCESS then Inr rv else Inl ret, s'))"

definition from_pfm_string ::
    "'w kernel \<Rightarrow> string \<Rightarrow> 'n \<Rightarrow> 'w os \<Rightarrow> (int + 'n perf_config) \<times> 'w os" where
  "from_pfm_string K event name s =
     (case pfm_force K s of
        (Inl e, s1) \<Rightarrow> (Inl e, s1)
      | (Inr _, s1) \<Rightarrow>
          (case get_perf_attr_array K event s1 of
             (Inl e, s2) \<Rightarrow> (Inl e, s2)
           | (Inr attr, s2) \<Rightarrow> (Inr \<lparr>pc_attr = attr, pc_name = name\<rparr>, s2)))"

text \<open>
  The texts of the error. \<open>strerror\<close> stands for libpfm's \<open>pfm_strerror\<close>: a null pointer, or the memory
  from a pointer on, of which the C string is what comes before the first zero byte.
\<close>

definition pfm_strerror :: "(int \<Rightarrow> string option) \<Rightarrow> int \<Rightarrow> string option" where
  "pfm_strerror strerror code =
     (case strerror code of None \<Rightarrow> None | Some raw \<Rightarrow> Some (takeWhile (\<lambda>c. c \<noteq> CHR 0x00) raw))"

definition pfm_error_message :: "(int \<Rightarrow> string option) \<Rightarrow> int \<Rightarrow> string" where
  "pfm_error_message strerror code =
     (case map_option (\<lambda>x. if utf8_valid x then x else ''Error CStr contained invalid UTF-8'')
        (pfm_strerror strerror code) of
        None \<Rightarrow> ''libpfm ERROR:pfm_strerror failed on code '' @ show_int code
      | Some s \<Rightarrow> ''libpfm ERROR: '' @ s)"

definition pfm_error_debug :: "(int \<Rightarrow> string option) \<Rightarrow> int \<Rightarrow> string" where
  "pfm_error_debug strerror code = pfm_error_message strerror code"

section \<open>Properties\<close>

lemma cache_config_fields:
  "attr_config (pc_attr (hardware_cache_event sz c p r n)) AND 0xFF = ucast (cache_id_value c)"
  "drop_bit 8 (attr_config (pc_attr (hardware_cache_event sz c p r n))) AND 0xFF =
     ucast (cache_operation_value p)"
  "drop_bit 16 (attr_config (pc_attr (hardware_cache_event sz c p r n))) AND 0xFF =
     ucast (cache_result_value r)"
  by (cases c; cases p; cases r;
      simp add: hardware_cache_event_def set_exclude_hv_def default_perf_event_attr_def Let_def)+

lemma cache_id_inj: "(ucast (cache_id_value c) :: u64) = ucast (cache_id_value c') \<longleftrightarrow> c = c'"
  by (cases c; cases c'; simp)

lemma cache_operation_inj:
  "(ucast (cache_operation_value p) :: u64) = ucast (cache_operation_value p') \<longleftrightarrow> p = p'"
  by (cases p; cases p'; simp)

lemma cache_result_inj:
  "(ucast (cache_result_value r) :: u64) = ucast (cache_result_value r') \<longleftrightarrow> r = r'"
  by (cases r; cases r'; simp)

lemmas cache_values_inj = cache_id_inj cache_operation_inj cache_result_inj

lemma hw_values_inj: "(ucast (hw_value e) :: u64) = ucast (hw_value e') \<longleftrightarrow> e = e'"
  by (cases e; cases e'; simp)

text \<open>
  The kernel can tell all configurations apart: the packed \<open>config\<close> word of a cache event
  determines its cache, operation and result, that of a hardware event its counter, and no cache
  event has the type of a hardware event; all of them exclude the hypervisor.
\<close>

theorem event_configs_distinct:
  "(pc_attr (hardware_cache_event sz c p r n) = pc_attr (hardware_cache_event sz c' p' r' n')
      \<longleftrightarrow> c = c' \<and> p = p' \<and> r = r')
   \<and> (pc_attr (hardware_event sz e n) = pc_attr (hardware_event sz e' n') \<longleftrightarrow> e = e')
   \<and> pc_attr (hardware_event sz e n) \<noteq> pc_attr (hardware_cache_event sz c p r n')
   \<and> attr_exclude_hv (pc_attr (hardware_event sz e n))
   \<and> attr_exclude_hv (pc_attr (hardware_cache_event sz c p r n))"
proof (intro conjI)
  show "pc_attr (hardware_cache_event sz c p r n) = pc_attr (hardware_cache_event sz c' p' r' n')
      \<longleftrightarrow> c = c' \<and> p = p' \<and> r = r'"
  proof
    assume "pc_attr (hardware_cache_event sz c p r n) = pc_attr (hardware_cache_event sz c' p' r' n')"
    then have "attr_config (pc_attr (hardware_cache_event sz c p r n)) =
        attr_config (pc_attr (hardware_cache_event sz c' p' r' n'))" by simp
    then show "c = c' \<and> p = p' \<and> r = r'"
      using cache_config_fields [of sz c p r n] cache_config_fields [of sz c' p' r' n']
      by (simp add: cache_values_inj)
  qed (simp add: hardware_cache_event_def set_exclude_hv_def Let_def)
  show "pc_attr (hardware_event sz e n) = pc_attr (hardware_event sz e' n') \<longleftrightarrow> e = e'"
    by (auto simp: hardware_event_def set_exclude_hv_def default_perf_event_attr_def zeroed_attr_def
        Let_def hw_values_inj)
qed (simp_all add: hardware_event_def hardware_cache_event_def set_exclude_hv_def
    default_perf_event_attr_def zeroed_attr_def Let_def PERF_TYPE_HARDWARE_def PERF_TYPE_HW_CACHE_def)

text \<open>A sequence of calls, one after the other, as the event parser makes them.\<close>

fun from_pfm_strings ::
    "'w kernel \<Rightarrow> string list \<Rightarrow> 'w os \<Rightarrow> (int + string perf_config) list \<times> 'w os" where
  "from_pfm_strings K [] s = ([], s)"
| "from_pfm_strings K (e # es) s =
     (case from_pfm_string K e e s of (r, s1) \<Rightarrow>
        (case from_pfm_strings K es s1 of (rs, s2) \<Rightarrow> (r # rs, s2)))"

fun is_pfm_init :: "call \<Rightarrow> bool" where
  "is_pfm_init (CPfmInit ret) = True"
| "is_pfm_init _ = False"

definition pfm_inits :: "call list \<Rightarrow> nat" where
  "pfm_inits cs = length (filter is_pfm_init cs)"

lemma pfm_inits_append [simp]: "pfm_inits (xs @ ys) = pfm_inits xs + pfm_inits ys"
  by (simp add: pfm_inits_def)

lemma pfm_force_cell:
  assumes "pfm_force K s = (c, s1)"
  shows "pfm_cell s1 = Some c
    \<and> pfm_inits (trace s1) = pfm_inits (trace s) + (if pfm_cell s = None then 1 else 0)
    \<and> (\<forall>d. pfm_cell s = Some d \<longrightarrow> c = d)"
proof (cases "pfm_cell s")
  case None
  obtain ret s2 where i: "sys_pfm_initialize K s = (ret, s2)" by force
  with assms None sys_pfm_initialize_trace [OF i] show ?thesis
    by (auto simp: pfm_force_def Let_def pfm_inits_def)
qed (use assms in \<open>auto simp: pfm_force_def\<close>)

lemma get_perf_attr_array_cell:
  assumes "get_perf_attr_array K e s = (r, s')"
  shows "pfm_cell s' = pfm_cell s" "pfm_inits (trace s') = pfm_inits (trace s)"
proof -
  obtain ret rv s2 where enc: "sys_pfm_encode K e PFM_PLM zeroed_attr s = (ret, rv, s2)"
    by (metis prod_cases3)
  with assms sys_pfm_encode_trace [OF enc]
  show "pfm_cell s' = pfm_cell s" "pfm_inits (trace s') = pfm_inits (trace s)"
    by (auto simp: get_perf_attr_array_def pfm_inits_def)
qed

lemma from_pfm_string_cell:
  assumes one: "from_pfm_string K e n s = (r, s')" and force: "pfm_force K s = (c, s1)"
  shows "pfm_cell s' = Some c \<and> (\<forall>err. c = Inl err \<longrightarrow> r = Inl err)
    \<and> pfm_inits (trace s') = pfm_inits (trace s) + (if pfm_cell s = None then 1 else 0)"
proof (cases c)
  case (Inl e)
  with assms pfm_force_cell [OF force] show ?thesis by (auto simp: from_pfm_string_def)
next
  case (Inr u)
  obtain a s2 where get: "get_perf_attr_array K e s1 = (a, s2)" by force
  with one force Inr have "s' = s2" by (auto simp: from_pfm_string_def split: sum.splits)
  with pfm_force_cell [OF force] get_perf_attr_array_cell [OF get] Inr show ?thesis by simp
qed

lemma from_pfm_strings_cell:
  "from_pfm_strings K es s = (rs, s') \<Longrightarrow> pfm_cell s = Some c \<Longrightarrow>
     pfm_inits (trace s') = pfm_inits (trace s)
   \<and> (\<forall>err. c = Inl err \<longrightarrow> rs = replicate (length es) (Inl err))"
proof (induction es arbitrary: s rs)
  case Nil
  then show ?case by simp
next
  case (Cons e es)
  obtain r s1 where one: "from_pfm_string K e e s = (r, s1)" by force
  obtain rs' s2 where rest: "from_pfm_strings K es s1 = (rs', s2)" by force
  have "pfm_force K s = (c, s)" using Cons.prems(2) by (simp add: pfm_force_def)
  note step = from_pfm_string_cell [OF one this]
  from Cons.prems(1) one rest have eqs: "rs = r # rs'" "s' = s2" by auto
  with rest have "from_pfm_strings K es s1 = (rs', s')" by simp
  from Cons.IH [OF this] step Cons.prems(2) eqs show ?case by auto
qed

text \<open>
  \<^bold>\<open>C36.\<close> libpfm is initialised lazily and once: encoding any number of events from a fresh process
  initialises it exactly once if there is an event and never otherwise, and a failed
  initialisation is remembered, so that every event then fails with its code.
\<close>

theorem pfm_initialised_once:
  assumes fresh: "pfm_cell s = None" and strs: "from_pfm_strings K es s = (rs, s')"
  shows "pfm_inits (trace s') = pfm_inits (trace s) + (if es = [] then 0 else 1)
    \<and> (\<forall>err s1. pfm_force K s = (Inl err, s1) \<longrightarrow> rs = replicate (length es) (Inl err))"
proof (cases es)
  case Nil
  with strs show ?thesis by simp
next
  case (Cons e es')
  obtain c s0 where force: "pfm_force K s = (c, s0)" by force
  obtain r s1 where one: "from_pfm_string K e e s = (r, s1)" by force
  obtain rs' s2 where rest: "from_pfm_strings K es' s1 = (rs', s2)" by force
  note step = from_pfm_string_cell [OF one force]
  note tail = from_pfm_strings_cell [OF rest, of c]
  from strs Cons one rest have "rs = r # rs'" "s' = s2" by auto
  with step tail fresh Cons force show ?thesis by auto
qed

theorem pfm_initialised_once_witness:
  "fst (from_pfm_strings (idle_kernel\<lparr>k_pfm_initialize := \<lambda>w. (-4, w)\<rparr>) [''cycles'', ''faults''] (boot ()))
     = [Inl (-4), Inl (-4)]"
proof -
  let ?K = "idle_kernel\<lparr>k_pfm_initialize := \<lambda>w. (-4, w)\<rparr> :: unit kernel"
  let ?es = "[''cycles'', ''faults'']"
  have fresh: "pfm_cell (boot ()) = None" by (simp add: boot_def)
  have force: "pfm_force ?K (boot ()) = (Inl (-4), snd (pfm_force ?K (boot ())))"
    by (simp add: pfm_force_def boot_def os_simps PFM_SUCCESS_def Let_def)
  have "from_pfm_strings ?K ?es (boot ()) =
      (fst (from_pfm_strings ?K ?es (boot ())), snd (from_pfm_strings ?K ?es (boot ())))"
    by (rule surjective_pairing)
  from pfm_initialised_once [OF fresh this] force
  have "fst (from_pfm_strings ?K ?es (boot ())) = replicate (length ?es) (Inl (-4))" by blast
  then show ?thesis by (simp only: list.size replicate.simps add_0 plus_nat.simps Suc_eq_plus1 [symmetric] One_nat_def)
qed

end
