(* ===== verification/Perf_Group.thy ===== *)
theory Perf_Group
  imports Perf_Config Non_Empty Bytes Simulation
begin

text \<open>
  Groups of counters and reading them: \<open>perf-ffi/src/perf_stat.rs\<close>, \<open>read_structs.rs\<close> and
  \<open>group_reader.rs\<close>. The model is of the release build, in which \<open>debug_assert!\<close> is not checked
  and \<open>usize\<close> arithmetic wraps. The casts of the crate zerocopy are a parameter, the record
  \<open>zerocopy\<close>, with their documented contract as the predicate \<open>zerocopy_laws\<close>. Memory is
  explicit: a block has an address and cells that may be uninitialised.
\<close>

section \<open>The structs the kernel writes (\<open>read_structs.rs\<close>)\<close>

record perf_header =
  nr :: u64
  time_enabled :: u64
  time_running :: u64

record perf_entry =
  ev_value :: u64
  ev_id :: u64

definition header_size :: nat where "header_size = 24"
definition entry_size :: nat where "entry_size = 16"

definition header_image :: "perf_header \<Rightarrow> byte list" where
  "header_image h = u64_le (nr h) @ u64_le (time_enabled h) @ u64_le (time_running h)"

definition header_of :: "byte list \<Rightarrow> perf_header" where
  "header_of bs = \<lparr>nr = le_u64 (take 8 bs), time_enabled = le_u64 (take 8 (drop 8 bs)),
     time_running = le_u64 (drop 16 bs)\<rparr>"

definition entry_image :: "perf_entry \<Rightarrow> byte list" where
  "entry_image e = u64_le (ev_value e) @ u64_le (ev_id e)"

definition entry_of :: "byte list \<Rightarrow> perf_entry" where
  "entry_of bs = \<lparr>ev_value = le_u64 (take 8 bs), ev_id = le_u64 (drop 8 bs)\<rparr>"

interpretation header: codec header_size header_image header_of
proof
  fix bs :: "byte list" assume len: "length bs = header_size"
  have "take 8 (drop 8 bs) @ drop 16 bs = drop 8 bs"
    using append_take_drop_id [of 8 "drop 8 bs"] by simp
  then show "header_image (header_of bs) = bs"
    using len by (simp add: header_image_def header_of_def header_size_def u64.enc_dec)
qed (simp_all add: header_image_def header_of_def header_size_def u64.length_enc u64.dec_enc)

interpretation entry: codec entry_size entry_image entry_of
proof
  fix bs :: "byte list" assume "length bs = entry_size"
  then show "entry_image (entry_of bs) = bs"
    by (simp add: entry_image_def entry_of_def entry_size_def u64.enc_dec)
qed (simp_all add: entry_image_def entry_of_def entry_size_def u64.length_enc u64.dec_enc)

text \<open>
  \<open>ref_from_prefix\<close> and \<open>ref_from_bytes_with_elems\<close>: given the address and the bytes of a slice
  they succeed exactly when it is aligned and (for the prefix) long enough or (for the elements)
  of exactly the right length, and then view the bytes as the struct lays them out.
\<close>

record zerocopy =
  zc_header :: "nat \<Rightarrow> byte list \<Rightarrow> cast_error + (perf_header \<times> byte list)"
  zc_entries :: "nat \<Rightarrow> byte list \<Rightarrow> nat \<Rightarrow> cast_error + perf_entry list"

definition zerocopy_laws :: "zerocopy \<Rightarrow> bool" where
  "zerocopy_laws Z \<longleftrightarrow>
     (\<forall>a bs. if 8 dvd a \<and> header_size \<le> length bs
        then zc_header Z a bs = Inr (header_of (take header_size bs), drop header_size bs)
        else (\<exists>e. zc_header Z a bs = Inl e))
   \<and> (\<forall>a bs n. if 8 dvd a \<and> length bs = entry_size * n
        then zc_entries Z a bs n = Inr (map entry_of (chunks entry_size n bs))
        else (\<exists>e. zc_entries Z a bs n = Inl e))"

section \<open>Counters and groups (\<open>perf_stat.rs\<close>)\<close>

record 'n perf_stat =
  ps_fd :: int
  ps_name :: 'n

record 'n perf_stat_group =
  pg_fds :: "'n perf_stat non_empty"

definition PERF_FLAG_FD_CLOEXEC :: nat where "PERF_FLAG_FD_CLOEXEC = 8"

text \<open>\<open>PERF_FORMAT_GROUP\<close>, \<open>TOTAL_TIME_ENABLED\<close>, \<open>TOTAL_TIME_RUNNING\<close> and \<open>ID\<close>.\<close>

definition GROUP_READ_FORMAT :: u64 where "GROUP_READ_FORMAT = 8 OR 1 OR 2 OR 4"

text \<open>\<open>Error::empty\<close> and the conversions of \<open>error.rs\<close> that \<open>?\<close> applies.\<close>

definition error_empty :: perf_error where [simp]: "error_empty = Empty"
definition error_from_io :: "io_error \<Rightarrow> perf_error" where [simp]: "error_from_io e = IO e"
definition error_from_header_cast :: "cast_error \<Rightarrow> perf_error" where [simp]: "error_from_header_cast e = HeaderCast e"
definition error_from_entry_cast :: "cast_error \<Rightarrow> perf_error" where [simp]: "error_from_entry_cast e = EntryCast e"

definition get_id :: "'w kernel \<Rightarrow> 'n perf_stat \<Rightarrow> 'w os \<Rightarrow> (io_error + u64) \<times> 'w os" where
  "get_id K ps s =
     (case sys_ioctl_id K (ps_fd ps) s of (ioctl_res, v, s') \<Rightarrow>
        (if ioctl_res \<noteq> 0 then Inl (last_os_error K s') else Inr v, s'))"

definition perf_event_open ::
    "'w kernel \<Rightarrow> perf_event_attr \<Rightarrow> int \<Rightarrow> int \<Rightarrow> int \<Rightarrow> nat \<Rightarrow> 'w os \<Rightarrow> (io_error + int) \<times> 'w os" where
  "perf_event_open K attr pid cpu group_fd flags s =
     (case sys_perf_event_open K attr pid cpu group_fd flags s of (fd, s') \<Rightarrow>
        (if fd < 0 then Inl (last_os_error K s') else Inr (as_i32 fd), s'))"

text \<open>Dropping counters closes their descriptors, in order.\<close>

definition close_all :: "'w kernel \<Rightarrow> 'n perf_stat list \<Rightarrow> 'w os \<Rightarrow> 'w os" where
  "close_all K pss s = fold (\<lambda>ps s. sys_close K (ps_fd ps) s) pss s"

text \<open>
  The rest of the iterator of \<open>PerfStatGroup::new\<close>, collected into a \<open>Result\<close>: the first error
  ends it, and what was collected so far is dropped.
\<close>

fun open_rest ::
    "'w kernel \<Rightarrow> int \<Rightarrow> int \<Rightarrow> 'n perf_stat list \<Rightarrow> 'n perf_config list \<Rightarrow> 'w os \<Rightarrow>
       (io_error + 'n perf_stat list) \<times> 'w os" where
  "open_rest K pid first_raw acc [] s = (Inr acc, s)"
| "open_rest K pid first_raw acc (c # configs) s =
     (case perf_event_open K (pc_attr c) pid (-1) first_raw PERF_FLAG_FD_CLOEXEC s of
        (Inl e, s') \<Rightarrow> (Inl e, close_all K acc s')
      | (Inr fd, s') \<Rightarrow>
          open_rest K pid first_raw (acc @ [\<lparr>ps_fd = fd, ps_name = pc_name c\<rparr>]) configs s')"

definition group_new ::
    "'w kernel \<Rightarrow> 'n perf_config list \<Rightarrow> int \<Rightarrow> 'w os \<Rightarrow>
       (perf_error + 'n perf_stat_group) \<times> 'w os" where
  "group_new K input pid s =
     (case input of
        [] \<Rightarrow> (Inl error_empty, s)
      | first_config # it \<Rightarrow>
          (let first_attr = (pc_attr first_config)\<lparr>attr_read_format := GROUP_READ_FORMAT\<rparr> in
           case perf_event_open K first_attr pid (-1) (-1) PERF_FLAG_FD_CLOEXEC s of
             (Inl e, s1) \<Rightarrow> (Inl (error_from_io e), s1)
           | (Inr first_fd, s1) \<Rightarrow>
               (case open_rest K pid first_fd
                       [\<lparr>ps_fd = first_fd, ps_name = pc_name first_config\<rparr>] it s1 of
                  (Inl e, s2) \<Rightarrow> (Inl (error_from_io e), s2)
                | (Inr collected, s2) \<Rightarrow>
                    (case into_option (from_iter collected) of
                       None \<Rightarrow> (Inl error_empty, s2)
                     | Some ne \<Rightarrow> (Inr \<lparr>pg_fds = ne\<rparr>, s2)))))"

definition group_len :: "'n perf_stat_group \<Rightarrow> nat" where
  "group_len g = length (elems (pg_fds g))"

text \<open>\<open>self.fds.is_empty()\<close> resolves to the method of the slice.\<close>

definition group_is_empty :: "'n perf_stat_group \<Rightarrow> bool" where
  "group_is_empty g \<longleftrightarrow> elems (pg_fds g) = []"

definition leader_fd :: "'n perf_stat_group \<Rightarrow> int outcome" where
  "leader_fd g =
     (case first (pg_fds g) of
        Return ps \<Rightarrow> Return (ps_fd ps) | Panic m \<Rightarrow> Panic m | Undefined \<Rightarrow> Undefined)"

definition group_drop :: "'w kernel \<Rightarrow> 'n perf_stat_group \<Rightarrow> 'w os \<Rightarrow> 'w os" where
  "group_drop K g s = close_all K (elems (pg_fds g)) s"

text \<open>
  \<open>PerfStatGroup::read\<close> into the slice at address \<open>a\<close> with cells \<open>buf\<close>; the cells afterwards are
  part of the result. A short count is only a failed \<open>debug_assert!\<close>, which a release build skips.
\<close>

definition group_read ::
    "'w kernel \<Rightarrow> zerocopy \<Rightarrow> 'n perf_stat_group \<Rightarrow> nat \<Rightarrow> memory \<Rightarrow> 'w os \<Rightarrow>
       (perf_error + perf_header \<times> perf_entry list) outcome \<times> memory \<times> 'w os" where
  "group_read K Z g a buf s =
     (case leader_fd g of
        Panic m \<Rightarrow> (Panic m, buf, s)
      | Undefined \<Rightarrow> (Undefined, buf, s)
      | Return leader \<Rightarrow>
          (case sys_read K leader (length buf) s of (read_val, bs, s') \<Rightarrow>
             let buf' = fill buf (map Some bs) in
             (if read_val < 0 then Return (Inl (error_from_io (last_os_error K s')))
              else case assume_init buf' of
                  Panic m \<Rightarrow> Panic m
                | Undefined \<Rightarrow> Undefined
                | Return bytes \<Rightarrow>
                    (case zc_header Z a bytes of
                       Inl e \<Rightarrow> Return (Inl (error_from_header_cast e))
                     | Inr (header, remaining) \<Rightarrow>
                         (case zc_entries Z (a + header_size) remaining (group_len g) of
                            Inl e \<Rightarrow> Return (Inl (error_from_entry_cast e))
                          | Inr events \<Rightarrow> Return (Inr (header, events)))),
              buf', s')))"

definition group_names :: "'n perf_stat_group \<Rightarrow> 'n list" where
  "group_names g = map ps_name (elems (pg_fds g))"

text \<open>
  One element of the iterator \<open>name_and_ids()\<close>, which is lazy: its closure applied to a counter.
\<close>

definition name_and_id ::
    "'w kernel \<Rightarrow> 'n perf_stat \<Rightarrow> 'w os \<Rightarrow> (io_error + 'n \<times> u64) \<times> 'w os" where
  "name_and_id K x s =
     (case get_id K x s of
        (Inl e, s') \<Rightarrow> (Inl e, s')
      | (Inr v, s') \<Rightarrow> (Inr (ps_name x, v), s'))"

section \<open>The reader's buffer (\<open>group_reader.rs\<close>)\<close>

text \<open>A heap block; its layout's size is the number of its cells.\<close>

record block =
  blk_addr :: nat
  blk_mem :: memory

type_synonym perf_group_reader = "block option"

record group_info =
  gi_time_enabled :: u64
  gi_time_running :: u64

record event_info =
  ei_id :: u64
  ei_count :: u64

definition necessary_buffer_size :: "nat \<Rightarrow> nat" where
  "necessary_buffer_size cnt = (header_size + cnt * entry_size) mod 2 ^ 64"

text \<open>
  \<open>Layout::from_size_align\<close> with the alignment of the header: the size, rounded up to the
  alignment, must not exceed \<open>isize::MAX\<close>.
\<close>

definition get_layout_from_count :: "nat \<Rightarrow> nat option" where
  "get_layout_from_count cnt =
     (let sz = necessary_buffer_size cnt in if sz \<le> 2 ^ 63 - 1 - 7 then Some sz else None)"

definition ensure_sized ::
    "'w kernel \<Rightarrow> nat \<Rightarrow> perf_group_reader \<Rightarrow> 'w os \<Rightarrow>
       unit outcome \<times> perf_group_reader \<times> 'w os" where
  "ensure_sized K cnt rd s =
     (let min_size = necessary_buffer_size cnt in
      case rd of
        Some b \<Rightarrow>
          (if length (blk_mem b) < min_size then
             (case get_layout_from_count cnt of
                None \<Rightarrow> (Panic ''Invalid Layout'', None, s)
              | Some l \<Rightarrow>
                  (case sys_realloc K (blk_addr b) (length (blk_mem b)) min_size s of (p, s') \<Rightarrow>
                     if p = 0 then (Panic ''Realloc returned NULL'', None, s')
                     else (Return (), Some \<lparr>blk_addr = p,
                             blk_mem = blk_mem b @ uninit (min_size - length (blk_mem b))\<rparr>, s')))
           else (Return (), Some b, s))
      | None \<Rightarrow>
          (case get_layout_from_count cnt of
             None \<Rightarrow> (Panic ''Invalid Layout'', None, s)
           | Some l \<Rightarrow>
               (case sys_alloc K l 8 s of (p, s') \<Rightarrow>
                  if p = 0 then (Panic ''Allocation returned NULL'', None, s')
                  else (Return (), Some \<lparr>blk_addr = p, blk_mem = uninit l\<rparr>, s'))))"

definition reader_new :: perf_group_reader where
  "reader_new = None"

definition reader_default :: perf_group_reader where [simp]: "reader_default = reader_new"

definition read_group ::
    "'w kernel \<Rightarrow> zerocopy \<Rightarrow> 'n perf_stat_group \<Rightarrow> perf_group_reader \<Rightarrow> 'w os \<Rightarrow>
       (perf_error + group_info \<times> event_info list) outcome \<times> perf_group_reader \<times> 'w os" where
  "read_group K Z g rd s =
     (case ensure_sized K (group_len g) rd s of
        (Return _, Some b, s1) \<Rightarrow>
          (let n = necessary_buffer_size (group_len g) in
           case group_read K Z g (blk_addr b) (take n (blk_mem b)) s1 of (out, buf, s2) \<Rightarrow>
             ((case out of
                 Panic m \<Rightarrow> Panic m
               | Undefined \<Rightarrow> Undefined
               | Return (Inl e) \<Rightarrow> Return (Inl e)
               | Return (Inr (header, events)) \<Rightarrow>
                   Return (Inr (\<lparr>gi_time_enabled = time_enabled header,
                                 gi_time_running = time_running header\<rparr>,
                     map (\<lambda>e. \<lparr>ei_id = ev_id e, ei_count = ev_value e\<rparr>) events))),
              Some (b\<lparr>blk_mem := buf @ drop n (blk_mem b)\<rparr>), s2))
      | (Return _, None, s1) \<Rightarrow> (Undefined, None, s1)
      | (Panic m, rd', s1) \<Rightarrow> (Panic m, rd', s1)
      | (Undefined, rd', s1) \<Rightarrow> (Undefined, rd', s1))"

definition reader_drop :: "'w kernel \<Rightarrow> perf_group_reader \<Rightarrow> 'w os \<Rightarrow> 'w os" where
  "reader_drop K rd s = (case rd of None \<Rightarrow> s | Some b \<Rightarrow> sys_dealloc K (blk_addr b) (length (blk_mem b)) s)"

section \<open>The descriptors of a group\<close>

definition group_fds :: "'n perf_stat_group \<Rightarrow> int multiset" where
  "group_fds g = mset (map ps_fd (elems (pg_fds g)))"

lemma close_all_trace: "trace (close_all K pss s) = trace s @ map (\<lambda>ps. CClose (ps_fd ps)) pss"
  by (induction pss arbitrary: s) (simp_all add: close_all_def)

lemma fds_opened_closes [simp]: "fds_opened (map (\<lambda>ps. CClose (ps_fd ps)) pss) = {#}"
  by (induction pss) simp_all

lemma fds_closed_closes [simp]:
  "fds_closed (map (\<lambda>ps. CClose (ps_fd ps)) pss) = mset (map ps_fd pss)"
  by (induction pss) simp_all

section \<open>Opening a group\<close>

lemma perf_event_open_trace:
  assumes "perf_event_open K attr pid cpu grp flags s = (r, s')"
  obtains ret where "trace s' = trace s @ [CPerfOpen attr pid cpu grp flags ret]"
    "r = (if ret < 0 then Inl (last_os_error K s') else Inr (as_i32 ret))"
proof -
  obtain ret s1 where call: "sys_perf_event_open K attr pid cpu grp flags s = (ret, s1)" by force
  with assms sys_perf_event_open_trace [OF call] show ?thesis
    by (intro that [of ret]) (auto simp: perf_event_open_def)
qed

text \<open>The calls that open the members after the leader, and the counters they give.\<close>

definition member_opens :: "int \<Rightarrow> int \<Rightarrow> 'n perf_config list \<Rightarrow> int list \<Rightarrow> call list" where
  "member_opens pid leader configs rets =
     map2 (\<lambda>c r. CPerfOpen (pc_attr c) pid (-1) leader PERF_FLAG_FD_CLOEXEC r) configs rets"

definition counters :: "'n perf_config list \<Rightarrow> int list \<Rightarrow> 'n perf_stat list" where
  "counters configs rets = map2 (\<lambda>c r. \<lparr>ps_fd = as_i32 r, ps_name = pc_name c\<rparr>) configs rets"

lemma counters_simps [simp]:
  "counters [] rets = []"
  "counters (c # cs) (r # rs) = \<lparr>ps_fd = as_i32 r, ps_name = pc_name c\<rparr> # counters cs rs"
  by (simp_all add: counters_def)

lemma member_opens_simps [simp]:
  "member_opens pid l [] rets = []"
  "member_opens pid l (c # cs) (r # rs) =
     CPerfOpen (pc_attr c) pid (-1) l PERF_FLAG_FD_CLOEXEC r # member_opens pid l cs rs"
  by (simp_all add: member_opens_def)

lemma open_rest_trace:
  "open_rest K pid l acc configs s = (r, s') \<Longrightarrow>
     case r of
       Inl e \<Rightarrow> \<exists>d. trace s' = trace s @ d \<and> fds_closed d = fds_opened d + mset (map ps_fd acc)
     | Inr collected \<Rightarrow> \<exists>rets. length rets = length configs \<and> (\<forall>r \<in> set rets. 0 \<le> r)
         \<and> trace s' = trace s @ member_opens pid l configs rets
         \<and> collected = acc @ counters configs rets"
proof (induction configs arbitrary: acc s)
  case Nil
  then show ?case by (auto intro: exI [of _ "[]"])
next
  case (Cons c configs)
  obtain r1 s1 where call: "perf_event_open K (pc_attr c) pid (-1) l PERF_FLAG_FD_CLOEXEC s = (r1, s1)"
    by force
  then obtain ret where t: "trace s1 = trace s @ [CPerfOpen (pc_attr c) pid (-1) l PERF_FLAG_FD_CLOEXEC ret]"
      "r1 = (if ret < 0 then Inl (last_os_error K s1) else Inr (as_i32 ret))"
    by (rule perf_event_open_trace)
  show ?case
  proof (cases "ret < 0")
    case True
    with Cons.prems call t have "r = Inl (last_os_error K s1)" "s' = close_all K acc s1" by auto
    with t True show ?thesis by (simp add: close_all_trace)
  next
    case False
    with Cons.prems call t
    have rest: "open_rest K pid l (acc @ [\<lparr>ps_fd = as_i32 ret, ps_name = pc_name c\<rparr>]) configs s1 = (r, s')"
      by simp
    show ?thesis
    proof (cases r)
      case (Inl e)
      with Cons.IH [OF rest] obtain d where "trace s' = trace s1 @ d"
          "fds_closed d = fds_opened d + mset (map ps_fd acc) + {#as_i32 ret#}"
        by auto
      with Inl t False show ?thesis
        by (auto intro!: exI [of _ "CPerfOpen (pc_attr c) pid (-1) l PERF_FLAG_FD_CLOEXEC ret # d"])
    next
      case (Inr collected)
      with Cons.IH [OF rest] obtain rets where "length rets = length configs" "\<forall>r \<in> set rets. 0 \<le> r"
          "trace s' = trace s1 @ member_opens pid l configs rets"
          "collected = acc @ \<lparr>ps_fd = as_i32 ret, ps_name = pc_name c\<rparr> # counters configs rets"
        by auto
      with Inr t False show ?thesis by (auto intro!: exI [of _ "ret # rets"])
    qed
  qed
qed

lemma group_opened_members:
  "length rets = length configs \<Longrightarrow> \<forall>r \<in> set rets. 0 \<le> r \<Longrightarrow>
     fds_opened (member_opens pid l configs rets) = mset (map ps_fd (counters configs rets))
   \<and> fds_closed (member_opens pid l configs rets) = {#}"
  by (induction rets configs rule: list_induct2) auto

text \<open>The calls of a successful \<open>PerfStatGroup::new\<close>.\<close>

definition group_opens :: "int \<Rightarrow> 'n perf_config \<Rightarrow> int \<Rightarrow> 'n perf_config list \<Rightarrow> int list \<Rightarrow> call list" where
  "group_opens pid c ret configs rets =
     CPerfOpen ((pc_attr c)\<lparr>attr_read_format := GROUP_READ_FORMAT\<rparr>) pid (-1) (-1) PERF_FLAG_FD_CLOEXEC ret
     # member_opens pid (as_i32 ret) configs rets"

lemma group_new_trace:
  assumes "group_new K (c # configs) pid s = (r, s')"
  shows "case r of
      Inl e \<Rightarrow> e \<noteq> Empty \<and> (\<exists>d. trace s' = trace s @ d \<and> fds_opened d = fds_closed d)
    | Inr g \<Rightarrow> \<exists>ret rets. 0 \<le> ret \<and> length rets = length configs \<and> (\<forall>r \<in> set rets. 0 \<le> r)
        \<and> trace s' = trace s @ group_opens pid c ret configs rets
        \<and> g = \<lparr>pg_fds = NonEmpty (counters (c # configs) (ret # rets))\<rparr>"
proof -
  let ?attr = "(pc_attr c)\<lparr>attr_read_format := GROUP_READ_FORMAT\<rparr>"
  obtain r1 s1 where call: "perf_event_open K ?attr pid (-1) (-1) PERF_FLAG_FD_CLOEXEC s = (r1, s1)"
    by force
  then obtain ret where t: "trace s1 = trace s @ [CPerfOpen ?attr pid (-1) (-1) PERF_FLAG_FD_CLOEXEC ret]"
      "r1 = (if ret < 0 then Inl (last_os_error K s1) else Inr (as_i32 ret))"
    by (rule perf_event_open_trace)
  show ?thesis
  proof (cases "ret < 0")
    case True
    with assms call t have "r = Inl (IO (last_os_error K s1))" "s' = s1"
      by (auto simp: group_new_def)
    with t True show ?thesis by simp
  next
    case False
    let ?first = "\<lparr>ps_fd = as_i32 ret, ps_name = pc_name c\<rparr>"
    obtain r2 s2 where rest: "open_rest K pid (as_i32 ret) [?first] configs s1 = (r2, s2)" by force
    note tr = open_rest_trace [OF rest]
    show ?thesis
    proof (cases r2)
      case (Inl e)
      with assms call t False rest have "r = Inl (IO e)" "s' = s2" by (auto simp: group_new_def)
      moreover from tr Inl obtain d where "trace s2 = trace s1 @ d"
          "fds_closed d = fds_opened d + {#as_i32 ret#}" by auto
      ultimately show ?thesis using t False
        by (auto intro!: exI [of _ "CPerfOpen ?attr pid (-1) (-1) PERF_FLAG_FD_CLOEXEC ret # d"])
    next
      case (Inr collected)
      with tr have ne: "collected \<noteq> []" by auto
      with assms call t False rest Inr have "r = Inr \<lparr>pg_fds = NonEmpty collected\<rparr>" "s' = s2"
        by (auto simp: group_new_def from_iter_def)
      moreover from tr Inr obtain rets where "length rets = length configs" "\<forall>r \<in> set rets. 0 \<le> r"
          "trace s2 = trace s1 @ member_opens pid (as_i32 ret) configs rets"
          "collected = ?first # counters configs rets" by auto
      ultimately show ?thesis using t False
        by (auto simp: group_opens_def intro!: exI [of _ ret] exI [of _ rets])
    qed
  qed
qed

lemma group_new_balance:
  "case group_new K configs pid s of (r, s') \<Rightarrow>
     \<exists>d. trace s' = trace s @ d
       \<and> fds_opened d = fds_closed d + (case r of Inl _ \<Rightarrow> {#} | Inr g \<Rightarrow> group_fds g)"
proof (cases configs)
  case Nil
  then show ?thesis by (simp add: group_new_def)
next
  case (Cons c configs')
  obtain r s' where new: "group_new K (c # configs') pid s = (r, s')" by force
  note tr = group_new_trace [OF new]
  show ?thesis
  proof (cases r)
    case (Inl e)
    with tr new Cons show ?thesis by auto
  next
    case (Inr g)
    with tr obtain ret rets where "0 \<le> ret" "length rets = length configs'" "\<forall>r \<in> set rets. 0 \<le> r"
        "trace s' = trace s @ group_opens pid c ret configs' rets"
        "g = \<lparr>pg_fds = NonEmpty (counters (c # configs') (ret # rets))\<rparr>"
      by auto
    with Inr new Cons group_opened_members [of rets configs' pid "as_i32 ret"] show ?thesis
      by (auto simp: group_opens_def group_fds_def intro!: exI [of _ "group_opens pid c ret configs' rets"])
  qed
qed

text \<open>
  \<^bold>\<open>C26.\<close> No descriptor leaks when a group is opened, on any kernel: if opening any member fails,
  every descriptor opened for the group has been closed again, and if the group is returned, it
  owns exactly the descriptors that were opened.
\<close>

theorem group_new_no_leak:
  "case group_new K configs pid s of (r, s') \<Rightarrow>
     \<exists>d. trace s' = trace s @ d
       \<and> fds_opened d = fds_closed d + (case r of Inl _ \<Rightarrow> {#} | Inr g \<Rightarrow> group_fds g)"
  by (rule group_new_balance)

text \<open>
  \<^bold>\<open>C27.\<close> The shape of a group: for a non-empty list of configurations, success means one open call
  per configuration in order, the first with no group and with the read format that
  \<open>PerfStatGroup::read\<close> decodes, every other one attached to the descriptor of the first; the
  group then has one counter per configuration, with its name, and the leader's descriptor is the
  first. The error \<open>Empty\<close> is not possible.
\<close>

theorem group_new_attaches_to_leader:
  "case group_new K (c # configs) pid s of
     (Inl e, s') \<Rightarrow> e \<noteq> Empty
   | (Inr g, s') \<Rightarrow>
       \<exists>ret rets. 0 \<le> ret \<and> length rets = length configs
         \<and> trace s' = trace s @ group_opens pid c ret configs rets
         \<and> leader_fd g = Return (as_i32 ret)
         \<and> group_len g = Suc (length configs) \<and> group_names g = map pc_name (c # configs)"
proof -
  obtain r s' where new: "group_new K (c # configs) pid s = (r, s')" by force
  have names: "length rets = length configs \<Longrightarrow> map ps_name (counters configs rets) = map pc_name configs"
    for rets :: "int list" by (induction rets configs rule: list_induct2) auto
  have len: "length rets = length configs \<Longrightarrow> length (counters configs rets) = length configs"
    for rets :: "int list" by (simp add: counters_def)
  show ?thesis
    using group_new_trace [OF new] new names len
    by (cases r) (fastforce simp: leader_fd_def first_def group_len_def group_names_def)+
qed

section \<open>The reader's buffer\<close>

text \<open>
  The allocator's contract while memory lasts: a block is not null and aligned for the header.
\<close>

definition allocator_laws :: "'w kernel \<Rightarrow> bool" where
  "allocator_laws K \<longleftrightarrow>
     (\<forall>sz w. fst (k_alloc K sz 8 w) \<noteq> 0 \<and> 8 dvd fst (k_alloc K sz 8 w))
   \<and> (\<forall>p sz n w. 8 dvd p \<longrightarrow> fst (k_realloc K p sz n w) \<noteq> 0 \<and> 8 dvd fst (k_realloc K p sz n w))"

definition reader_aligned :: "perf_group_reader \<Rightarrow> bool" where
  "reader_aligned rd = (case rd of None \<Rightarrow> True | Some b \<Rightarrow> 8 dvd blk_addr b)"

definition capacity :: "perf_group_reader \<Rightarrow> nat" where
  "capacity rd = (case rd of None \<Rightarrow> 0 | Some b \<Rightarrow> length (blk_mem b))"

definition stored :: "perf_group_reader \<Rightarrow> memory" where
  "stored rd = (case rd of None \<Rightarrow> [] | Some b \<Rightarrow> blk_mem b)"

text \<open>The groups the reader can hold: their sample fits into \<open>isize::MAX\<close> bytes.\<close>

definition countable_group :: "nat \<Rightarrow> bool" where
  "countable_group cnt \<longleftrightarrow> header_size + cnt * entry_size \<le> 2 ^ 63 - 8"

lemma necessary_buffer_size_exact:
  "countable_group cnt \<Longrightarrow> necessary_buffer_size cnt = header_size + cnt * entry_size"
  by (simp add: countable_group_def necessary_buffer_size_def)

lemma get_layout_exact:
  "countable_group cnt \<Longrightarrow> get_layout_from_count cnt = Some (header_size + cnt * entry_size)"
  by (simp add: get_layout_from_count_def necessary_buffer_size_exact Let_def) (simp add: countable_group_def)

lemma ensure_sized_buffer:
  assumes "allocator_laws K" "reader_aligned rd" "countable_group cnt"
  shows "\<exists>b s'. ensure_sized K cnt rd s = (Return (), Some b, s') \<and> 8 dvd blk_addr b
       \<and> length (blk_mem b) = max (capacity rd) (header_size + cnt * entry_size)
       \<and> take (capacity rd) (blk_mem b) = stored rd
       \<and> (rd \<noteq> None \<longrightarrow> header_size + cnt * entry_size \<le> capacity rd \<longrightarrow> s' = s)"
proof (cases rd)
  case None
  obtain p s' where call: "sys_alloc K (header_size + cnt * entry_size) 8 s = (p, s')" by force
  then have "p \<noteq> 0" "8 dvd p" using assms(1)
    by (auto simp: sys_alloc_def allocator_laws_def split: prod.splits) (metis fst_conv)+
  with None call assms show ?thesis
    by (simp add: ensure_sized_def get_layout_exact capacity_def stored_def)
next
  case (Some b)
  let ?n = "header_size + cnt * entry_size"
  note [simp] = necessary_buffer_size_exact [OF assms(3)] get_layout_exact [OF assms(3)]
  show ?thesis
  proof (cases "length (blk_mem b) < ?n")
    case False
    with Some assms show ?thesis
      by (simp add: ensure_sized_def capacity_def stored_def reader_aligned_def max_def Let_def)
  next
    case True
    obtain p s' where call: "sys_realloc K (blk_addr b) (length (blk_mem b)) ?n s = (p, s')" by force
    moreover have "8 dvd blk_addr b" using assms Some by (simp add: reader_aligned_def)
    ultimately have "p \<noteq> 0" "8 dvd p" using assms(1)
      by (auto simp: sys_realloc_def allocator_laws_def split: prod.splits) (metis fst_conv)+
    with Some True call show ?thesis
      by (simp add: ensure_sized_def capacity_def stored_def Let_def)
  qed
qed

text \<open>
  \<^bold>\<open>C28.\<close> The reader's buffer always fits: with a working allocator, \<open>ensure_sized\<close> returns, the
  block is aligned, has room for the header and one entry per counter, never shrinks, keeps the
  bytes it held, and no allocator call is made when the block is already large enough.
\<close>

theorem ensure_sized_fits:
  assumes "allocator_laws K" "reader_aligned rd" "countable_group cnt"
  shows "\<exists>b s'. ensure_sized K cnt rd s = (Return (), Some b, s') \<and> 8 dvd blk_addr b
       \<and> length (blk_mem b) = max (capacity rd) (header_size + cnt * entry_size)
       \<and> take (capacity rd) (blk_mem b) = stored rd
       \<and> (rd \<noteq> None \<longrightarrow> header_size + cnt * entry_size \<le> capacity rd \<longrightarrow> s' = s)"
  by (rule ensure_sized_buffer [OF assms])

lemma idle_allocator: "allocator_laws idle_kernel"
  by (simp add: allocator_laws_def idle_kernel_def)

theorem ensure_sized_fits_witness:
  "\<exists>b s'. ensure_sized idle_kernel 2 (Some \<lparr>blk_addr = 4096, blk_mem = uninit 40\<rparr>) (boot ()) =
        (Return (), Some b, s') \<and> length (blk_mem b) = 56"
  using ensure_sized_fits [of idle_kernel "Some \<lparr>blk_addr = 4096, blk_mem = uninit 40\<rparr>" 2 "boot ()"] idle_allocator
  by (auto simp: reader_aligned_def countable_group_def header_size_def entry_size_def capacity_def)

section \<open>Reading a group\<close>

text \<open>A whole sample as the kernel lays it out.\<close>

definition sample :: "perf_header \<Rightarrow> perf_entry list \<Rightarrow> byte list" where
  "sample h es = header_image h @ concat (map entry_image es)"

definition decoded :: "perf_header \<Rightarrow> perf_entry list \<Rightarrow> group_info \<times> event_info list" where
  "decoded h es = (\<lparr>gi_time_enabled = time_enabled h, gi_time_running = time_running h\<rparr>,
     map (\<lambda>e. \<lparr>ei_id = ev_id e, ei_count = ev_value e\<rparr>) es)"

lemma length_sample: "length (sample h es) = header_size + length es * entry_size"
  by (simp add: sample_def header.length_enc entry.length_concat_enc mult.commute)

lemma leader_exists: "elems (pg_fds g) \<noteq> [] \<Longrightarrow> leader_fd g = Return (ps_fd (hd (elems (pg_fds g))))"
  by (simp add: leader_fd_def first_def list.case_eq_if)

lemma cast_sample:
  assumes Z: "zerocopy_laws Z" and a: "8 dvd a" and len: "length bs = header_size + n * entry_size"
  shows "zc_header Z a bs = Inr (header_of (take header_size bs), drop header_size bs)"
    "zc_entries Z (a + header_size) (drop header_size bs) n
       = Inr (map entry_of (chunks entry_size n (drop header_size bs)))"
proof -
  show "zc_header Z a bs = Inr (header_of (take header_size bs), drop header_size bs)"
    using Z a len by (simp add: zerocopy_laws_def)
  have "8 dvd (a + header_size)" using a by (simp add: header_size_def)
  then show "zc_entries Z (a + header_size) (drop header_size bs) n
       = Inr (map entry_of (chunks entry_size n (drop header_size bs)))"
    using Z len by (simp add: zerocopy_laws_def mult.commute)
qed

text \<open>What a read makes of the cells of an aligned buffer of the right size.\<close>

lemma group_read_result:
  assumes Z: "zerocopy_laws Z" and a: "8 dvd a" and ne: "elems (pg_fds g) \<noteq> []"
    and len: "length buf = header_size + group_len g * entry_size"
    and call: "sys_read K (ps_fd (hd (elems (pg_fds g)))) (length buf) s = (ret, bs, s')"
    and ok: "0 \<le> ret" and init: "assume_init (fill buf (map Some bs)) = Return bytes"
  shows "group_read K Z g a buf s =
    (Return (Inr (header_of (take header_size bytes),
       map entry_of (chunks entry_size (group_len g) (drop header_size bytes)))),
     fill buf (map Some bs), s')"
proof -
  have "length bytes = header_size + group_len g * entry_size"
    using init len by (auto simp: assume_init_def split: if_splits)
  from cast_sample [OF Z a this] call ok init show ?thesis
    by (simp add: group_read_def leader_exists [OF ne] Let_def)
qed

lemma header_of_sample: "header_of (take header_size (sample h es)) = h"
  by (simp add: sample_def header.length_enc header.dec_enc)

lemma entries_of_sample:
  "map entry_of (chunks entry_size (length es) (drop header_size (sample h es))) = es"
  using entry.dec_chunks [of es "[]"] by (simp add: sample_def header.length_enc)

text \<open>
  \<^bold>\<open>C18.\<close> A group is read back exactly: with a working allocator and the contract of the casts,
  if the kernel delivers the image of a header followed by one entry per counter, \<open>read_group\<close>
  returns that header's times and those entries, in order, whatever the buffer held before; no
  cast fails.
\<close>

theorem read_group_exact:
  assumes "allocator_laws K" "zerocopy_laws Z" "reader_aligned rd"
    and "elems (pg_fds g) \<noteq> []" "countable_group (group_len g)" "length es = group_len g"
    and "ensure_sized K (group_len g) rd s = (Return (), rd1, s1)"
    and "sys_read K (ps_fd (hd (elems (pg_fds g)))) (header_size + group_len g * entry_size) s1 =
           (ret, sample h es, s')" "0 \<le> ret"
  shows "\<exists>rd'. read_group K Z g rd s = (Return (Inr (decoded h es)), rd', s')"
proof -
  let ?n = "header_size + group_len g * entry_size"
  obtain b where b: "rd1 = Some b" "8 dvd blk_addr b" "?n \<le> length (blk_mem b)"
    using ensure_sized_buffer [OF assms(1,3,5), of s] assms(7) by auto
  let ?buf = "take ?n (blk_mem b)"
  have len: "length ?buf = ?n" using b(3) by simp
  have "fill ?buf (map Some (sample h es)) = map Some (sample h es)"
    using len assms(6) by (intro fill_exact) (simp add: length_sample)
  then have init: "assume_init (fill ?buf (map Some (sample h es))) = Return (sample h es)" by simp
  have "group_read K Z g (blk_addr b) ?buf s1 = (Return (Inr (h, es)), fill ?buf (map Some (sample h es)), s')"
    using group_read_result [OF assms(2) b(2) assms(4) len _ assms(9) init, of K s1 s'] assms(8) len
      header_of_sample [of h es] entries_of_sample [of es h] assms(6) by simp
  with assms(7) b(1) show ?thesis
    by (simp add: read_group_def necessary_buffer_size_exact [OF assms(5)] Let_def decoded_def)
qed


definition sized_casts :: zerocopy where
  "sized_casts = \<lparr>
     zc_header = (\<lambda>a bs. if 8 dvd a then
        if header_size \<le> length bs then Inr (header_of (take header_size bs), drop header_size bs)
        else Inl SizeError else Inl AlignmentError),
     zc_entries = (\<lambda>a bs n. if 8 dvd a then
        if length bs = entry_size * n then Inr (map entry_of (chunks entry_size n bs))
        else Inl SizeError else Inl AlignmentError)\<rparr>"

lemma sized_casts_laws: "zerocopy_laws sized_casts"
  by (simp add: zerocopy_laws_def sized_casts_def)

definition sampling_kernel :: "byte list kernel" where
  "sampling_kernel = idle_kernel\<lparr>k_read := (\<lambda>fd n w. (int (length w), w, w))\<rparr>"

lemma sampling_allocator: "allocator_laws sampling_kernel"
  by (simp add: allocator_laws_def idle_kernel_def sampling_kernel_def)

definition one_counter :: "nat perf_stat_group" where
  "one_counter = \<lparr>pg_fds = NonEmpty [\<lparr>ps_fd = 7, ps_name = 0\<rparr>]\<rparr>"

lemmas sampling_defs =
  sampling_kernel_def idle_kernel_def one_counter_def group_len_def countable_group_def
  header_size_def entry_size_def boot_def log_call_def

theorem read_group_exact_witness:
  "\<forall>h e. \<exists>rd' s'. read_group sampling_kernel sized_casts one_counter None (boot (sample h [e])) =
     (Return (Inr (decoded h [e])), rd', s')"
proof (intro allI)
  fix h e
  obtain b s1 where sized: "ensure_sized sampling_kernel (group_len one_counter) None (boot (sample h [e]))
        = (Return (), Some b, s1)"
    using ensure_sized_buffer [of sampling_kernel None "group_len one_counter"] sampling_allocator
    by (fastforce simp: reader_aligned_def sampling_defs)
  have "world s1 = sample h [e]"
    using sized by (auto simp: ensure_sized_def get_layout_exact os_simps sampling_defs split: option.splits if_splits)
  then obtain s' where "sys_read sampling_kernel (ps_fd (hd (elems (pg_fds one_counter))))
        (header_size + group_len one_counter * entry_size) s1 = (int (length (sample h [e])), sample h [e], s')"
    by (simp add: os_simps sampling_defs)
  with read_group_exact [OF sampling_allocator sized_casts_laws _ _ _ _ sized, of "[e]" _ h] show "\<exists>rd' s'. read_group sampling_kernel sized_casts one_counter None (boot (sample h [e])) =
     (Return (Inr (decoded h [e])), rd', s')"
    by (fastforce simp: reader_aligned_def sampling_defs)
qed

section \<open>Short reads\<close>

text \<open>The view of \<open>n\<close> entries that a buffer of initialised bytes gives.\<close>

definition viewed :: "nat \<Rightarrow> byte list \<Rightarrow> group_info \<times> event_info list" where
  "viewed n bs = decoded (header_of (take header_size bs))
     (map entry_of (chunks entry_size n (drop header_size bs)))"

lemma viewed_sample: "viewed (length es) (sample h es) = decoded h es"
  by (simp only: viewed_def header_of_sample entries_of_sample)

text \<open>
  \<^bold>\<open>C39.\<close> A short read is not detected in a release build: when the buffer holds the bytes \<open>old\<close>
  of earlier reads and the kernel delivers fewer bytes than a sample (none, for a group in error
  state), \<open>read_group\<close> succeeds and returns the mixture of the new bytes and the old ones as if
  it were this group's sample.
\<close>

theorem short_read_returns_stale_bytes:
  assumes "zerocopy_laws Z" "8 dvd blk_addr b" "blk_mem b = map Some old"
    and "elems (pg_fds g) \<noteq> []" "countable_group (group_len g)"
    and "header_size + group_len g * entry_size \<le> length old"
    and "sys_read K (ps_fd (hd (elems (pg_fds g)))) (header_size + group_len g * entry_size) s = (ret, bs, s')"
    and "0 \<le> ret" "length bs < header_size + group_len g * entry_size"
  shows "\<exists>rd'. read_group K Z g (Some b) s =
    (Return (Inr (viewed (group_len g)
       (bs @ drop (length bs) (take (header_size + group_len g * entry_size) old)))), rd', s')"
proof -
  let ?n = "header_size + group_len g * entry_size"
  let ?buf = "take ?n (blk_mem b)"
  let ?now = "bs @ drop (length bs) (take ?n old)"
  have len: "length ?buf = ?n" using assms(3,6) by simp
  have "fill ?buf (map Some bs) = map Some ?now"
    using assms(3,6,9) by (simp add: fill_def drop_map take_map)
  then have init: "assume_init (fill ?buf (map Some bs)) = Return ?now"
    by (simp only: assume_init_stored)
  have sized: "ensure_sized K (group_len g) (Some b) s = (Return (), Some b, s)"
    using assms(3,6) by (simp add: ensure_sized_def necessary_buffer_size_exact [OF assms(5)] Let_def)
  show ?thesis
    using group_read_result [OF assms(1,2,4) len _ assms(8) init, of K s s'] assms(7) len sized
    by (simp add: read_group_def necessary_buffer_size_exact [OF assms(5)] Let_def viewed_def decoded_def)
qed

theorem short_read_returns_stale_bytes_witness:
  "\<forall>h e. \<exists>rd' s'. read_group sampling_kernel sized_casts one_counter
      (Some \<lparr>blk_addr = 4096, blk_mem = map Some (sample h [e])\<rparr>) (boot []) =
    (Return (Inr (decoded h [e])), rd', s')"
proof (intro allI)
  fix h e
  let ?b = "\<lparr>blk_addr = 4096, blk_mem = map Some (sample h [e])\<rparr>"
  have one: "group_len one_counter = 1" "countable_group 1" "elems (pg_fds one_counter) \<noteq> []"
    "length (sample h [e]) = header_size + entry_size"
    by (simp_all add: length_sample sampling_defs)
  obtain s' where call: "sys_read sampling_kernel (ps_fd (hd (elems (pg_fds one_counter))))
        (header_size + group_len one_counter * entry_size) (boot []) = (0, [], s')"
    by (simp add: os_simps sampling_defs)
  have now: "viewed (Suc 0) (sample h [e]) = decoded h [e]" using viewed_sample [of "[e]" h] by simp
  have "\<exists>rd'. read_group sampling_kernel sized_casts one_counter (Some ?b) (boot []) =
     (Return (Inr (viewed (group_len one_counter)
        ([] @ drop (length ([] :: byte list)) (take (header_size + group_len one_counter * entry_size) (sample h [e]))))), rd', s')"
    by (rule short_read_returns_stale_bytes [OF sized_casts_laws _ _ one(3) _ _ call])
      (simp_all add: one header_size_def countable_group_def entry_size_def)
  with now one show "\<exists>rd' s'. read_group sampling_kernel sized_casts one_counter
      (Some \<lparr>blk_addr = 4096, blk_mem = map Some (sample h [e])\<rparr>) (boot []) =
    (Return (Inr (decoded h [e])), rd', s')" by auto
qed

text \<open>
  \<^bold>\<open>C40.\<close> In a fresh buffer the same short read is undefined behaviour: \<open>assume_init_ref\<close> is
  applied to bytes nobody has written.
\<close>

theorem short_read_of_fresh_buffer_undefined:
  assumes "allocator_laws K" "elems (pg_fds g) \<noteq> []" "countable_group (group_len g)"
    and "ensure_sized K (group_len g) None s = (Return (), rd1, s1)"
    and "sys_read K (ps_fd (hd (elems (pg_fds g)))) (header_size + group_len g * entry_size) s1 = (ret, bs, s')"
    and "0 \<le> ret" "length bs < header_size + group_len g * entry_size"
  shows "fst (read_group K Z g None s) = Undefined"
proof -
  let ?n = "header_size + group_len g * entry_size"
  obtain b where b: "rd1 = Some b" "blk_mem b = uninit ?n"
    using assms(4) by (auto simp: ensure_sized_def get_layout_exact [OF assms(3)] split: prod.splits if_splits)
  then have "group_read K Z g (blk_addr b) (take ?n (blk_mem b)) s1 =
      (Undefined, fill (uninit ?n) (map Some bs), s')"
    using assms(5,6,7) assume_init_short [of bs ?n]
    by (simp add: group_read_def leader_exists [OF assms(2)] Let_def)
  with assms(4) b show ?thesis
    by (simp add: read_group_def necessary_buffer_size_exact [OF assms(3)] Let_def)
qed

theorem short_read_of_fresh_buffer_undefined_witness:
  "fst (read_group sampling_kernel sized_casts one_counter None (boot [])) = Undefined"
proof -
  obtain rd1 s1 where sized: "ensure_sized sampling_kernel (group_len one_counter) None (boot [])
        = (Return (), rd1, s1)"
    using ensure_sized_buffer [of sampling_kernel None "group_len one_counter"] sampling_allocator
    by (fastforce simp: reader_aligned_def sampling_defs)
  have "world s1 = []"
    using sized by (auto simp: ensure_sized_def get_layout_exact os_simps sampling_defs split: option.splits if_splits)
  then obtain s' where "sys_read sampling_kernel (ps_fd (hd (elems (pg_fds one_counter))))
        (header_size + group_len one_counter * entry_size) s1 = (0, [], s')"
    by (simp add: os_simps sampling_defs)
  from short_read_of_fresh_buffer_undefined [OF sampling_allocator _ _ sized this] show ?thesis
    by (simp add: sampling_defs)
qed

end
