(* ===== verification/Csv_Writer.thy ===== *)
theory Csv_Writer
  imports Simulation Text
begin

text \<open>
  The three CSV files (\<open>threadstat-shared/src/csv_writer.rs\<close>) on top of the standard library's
  \<open>BufWriter<File>\<close>, which is modelled with its buffer and its default capacity. \<open>writeln!\<close> hands
  the writer one string per literal and per formatted argument and stops at the first error. The
  locale \<open>appending_sink\<close> is the interface between the two: a writer whose text only grows, by
  the bytes it accepted. A file's text is what the trace shows was written to its descriptor,
  followed by what is still in the buffer.
\<close>

section \<open>The interface of a writer\<close>

locale appending_sink =
  fixes write_all :: "string \<Rightarrow> 'a \<Rightarrow> 'w os \<Rightarrow> (io_error + unit) \<times> 'a \<times> 'w os"
    and content :: "'a \<Rightarrow> 'w os \<Rightarrow> string"
  assumes write_ok: "write_all bs x s = (Inr (), x', s') \<Longrightarrow> content x' s' = content x s @ bs"
    and write_err: "write_all bs x s = (Inl e, x', s') \<Longrightarrow>
      \<exists>ys zs. bs = ys @ zs \<and> content x' s' = content x s @ ys"

text \<open>\<open>io::Write::write_fmt\<close> over the pieces of a format string.\<close>

fun write_pieces ::
    "(string \<Rightarrow> 'a \<Rightarrow> 'w os \<Rightarrow> (io_error + unit) \<times> 'a \<times> 'w os) \<Rightarrow> string list \<Rightarrow> 'a \<Rightarrow> 'w os \<Rightarrow>
       (io_error + unit) \<times> 'a \<times> 'w os" where
  "write_pieces wr [] x s = (Inr (), x, s)"
| "write_pieces wr (p # ps) x s =
     (case wr p x s of
        (Inl e, x', s') \<Rightarrow> (Inl e, x', s')
      | (Inr _, x', s') \<Rightarrow> write_pieces wr ps x' s')"

context appending_sink
begin

lemma pieces_ok:
  "write_pieces write_all ps x s = (Inr (), x', s') \<Longrightarrow> content x' s' = content x s @ concat ps"
proof (induction ps arbitrary: x s)
  case (Cons p ps)
  obtain r x1 s1 where call: "write_all p x s = (r, x1, s1)" by (metis prod_cases3)
  with Cons write_ok [of p x s x1 s1] show ?case by (cases r) auto
qed simp

lemma pieces_err:
  "write_pieces write_all ps x s = (Inl e, x', s') \<Longrightarrow>
     \<exists>ys zs. concat ps = ys @ zs \<and> content x' s' = content x s @ ys"
proof (induction ps arbitrary: x s)
  case (Cons p ps)
  obtain r x1 s1 where call: "write_all p x s = (r, x1, s1)" by (metis prod_cases3)
  show ?case
  proof (cases r)
    case (Inl e1)
    with Cons.prems call have "x' = x1" "s' = s1" by auto
    with write_err [of p x s e1 x1 s1] call Inl show ?thesis by fastforce
  next
    case (Inr u)
    with Cons.prems call have "write_pieces write_all ps x1 s1 = (Inl e, x', s')" by simp
    then obtain ys zs where "concat ps = ys @ zs" "content x' s' = content x1 s1 @ ys"
      using Cons.IH by blast
    with write_ok [of p x s x1 s1] call Inr show ?thesis
      by (intro exI [of _ "p @ ys"] exI [of _ zs]) auto
  qed
qed simp

lemma pieces_append:
  assumes "write_pieces write_all ps x s = (res, x', s')"
  shows "\<exists>ys zs. concat ps = ys @ zs \<and> content x' s' = content x s @ ys \<and> (res = Inr () \<longrightarrow> zs = [])"
  using assms pieces_ok [of ps x s x' s'] pieces_err [of ps x s _ x' s'] by (cases res) auto

end

section \<open>\<open>BufWriter<File>\<close>\<close>

record buf_writer =
  bw_fd :: int
  bw_buf :: string

definition CAPACITY :: nat where "CAPACITY = 8192"

definition bw_new :: "int \<Rightarrow> buf_writer" where
  "bw_new fd = \<lparr>bw_fd = fd, bw_buf = []\<rparr>"

text \<open>\<open>flush_buf\<close>: on an error the bytes already written leave the buffer, the others stay.\<close>

definition flush_buf :: "'w kernel \<Rightarrow> buf_writer \<Rightarrow> 'w os \<Rightarrow> (io_error + unit) \<times> buf_writer \<times> 'w os" where
  "flush_buf K w s =
     (if bw_buf w = [] then (Inr (), w, s)
      else case sys_file_write K (bw_fd w) (bw_buf w) s of (n, e, s') \<Rightarrow>
        (case e of None \<Rightarrow> Inr () | Some err \<Rightarrow> Inl err, w\<lparr>bw_buf := drop n (bw_buf w)\<rparr>, s'))"

definition bw_push :: "string \<Rightarrow> buf_writer \<Rightarrow> buf_writer" where
  "bw_push bs w = w\<lparr>bw_buf := bw_buf w @ bs\<rparr>"

text \<open>The part of \<open>write_all_cold\<close> after the flush.\<close>

definition bw_store :: "'w kernel \<Rightarrow> string \<Rightarrow> buf_writer \<Rightarrow> 'w os \<Rightarrow> (io_error + unit) \<times> buf_writer \<times> 'w os" where
  "bw_store K bs w s =
     (if CAPACITY \<le> length bs then
        (case sys_file_write K (bw_fd w) bs s of (n, e, s') \<Rightarrow>
           (case e of None \<Rightarrow> Inr () | Some err \<Rightarrow> Inl err, w, s'))
      else (Inr (), bw_push bs w, s))"

definition bw_write_all :: "'w kernel \<Rightarrow> string \<Rightarrow> buf_writer \<Rightarrow> 'w os \<Rightarrow> (io_error + unit) \<times> buf_writer \<times> 'w os" where
  "bw_write_all K bs w s =
     (let spare = CAPACITY - length (bw_buf w) in
      if length bs < spare then (Inr (), bw_push bs w, s)
      else if spare < length bs then
        (case flush_buf K w s of
           (Inl e, w', s') \<Rightarrow> (Inl e, w', s')
         | (Inr _, w', s') \<Rightarrow> bw_store K bs w' s')
      else bw_store K bs w s)"

text \<open>Dropping the writer flushes it, the error ignored, and closes the file.\<close>

definition bw_drop :: "'w kernel \<Rightarrow> buf_writer \<Rightarrow> 'w os \<Rightarrow> 'w os" where
  "bw_drop K w s = (case flush_buf K w s of (_, w', s') \<Rightarrow> sys_close K (bw_fd w') s')"

section \<open>The text of a file\<close>

fun written_by :: "int \<Rightarrow> call \<Rightarrow> string" where
  "written_by fd (CFileWrite f bs) = (if f = fd then bs else [])"
| "written_by fd _ = []"

definition file_text :: "int \<Rightarrow> call list \<Rightarrow> string" where
  "file_text fd cs = concat (map (written_by fd) cs)"

lemma file_text_simps [simp, trace_simps]:
  "file_text fd [] = []" "file_text fd (c # cs) = written_by fd c @ file_text fd cs"
  "file_text fd (xs @ ys) = file_text fd xs @ file_text fd ys"
  by (simp_all add: file_text_def)

definition bw_text :: "buf_writer \<Rightarrow> 'w os \<Rightarrow> string" where
  "bw_text w s = file_text (bw_fd w) (trace s) @ bw_buf w"

text \<open>What an operation on a writer may change: its own text, and nothing of other files.\<close>

definition only_writes :: "int \<Rightarrow> 'w os \<Rightarrow> 'w os \<Rightarrow> bool" where
  "only_writes fd s s' \<longleftrightarrow> pfm_cell s' = pfm_cell s
     \<and> (\<exists>d. trace s' = trace s @ d \<and> (\<forall>c \<in> set d. \<exists>bs. c = CFileWrite fd bs))"

lemma only_writes_refl [simp]: "only_writes fd s s"
  by (simp add: only_writes_def)

lemma only_writes_trans: "only_writes fd s1 s2 \<Longrightarrow> only_writes fd s2 s3 \<Longrightarrow> only_writes fd s1 s3"
  by (fastforce simp: only_writes_def)

lemma only_writes_other:
  assumes "only_writes fd s s'" "f \<noteq> fd" shows "file_text f (trace s') = file_text f (trace s)"
proof -
  from assms obtain d where d: "trace s' = trace s @ d" "\<forall>c \<in> set d. \<exists>bs. c = CFileWrite fd bs"
    by (auto simp: only_writes_def)
  from d(2) assms(2) have "file_text f d = []" by (induction d) auto
  with d(1) show ?thesis by simp
qed

lemma sys_file_write_text:
  assumes "sys_file_write K fd bs s = (n, e, s')"
  shows "file_text fd (trace s') = file_text fd (trace s) @ take n bs"
    "e = None \<Longrightarrow> take n bs = bs \<and> drop n bs = []" "only_writes fd s s'"
  using sys_file_write_trace [OF assms] sys_file_write_complete [of K fd bs s n s'] assms
  by (auto simp: only_writes_def)

lemma flush_buf_text:
  assumes "flush_buf K w s = (r, w', s')"
  shows "bw_text w' s' = bw_text w s" "bw_fd w' = bw_fd w" "only_writes (bw_fd w) s s'"
    "r = Inr () \<Longrightarrow> bw_buf w' = []" "length (bw_buf w') \<le> length (bw_buf w)"
  using assms
  by (auto simp: flush_buf_def bw_text_def sys_file_write_text
      split: if_splits prod.splits option.splits intro: sys_file_write_text(3))

lemma bw_store_text:
  assumes "bw_store K bs w s = (r, w', s')" and "CAPACITY \<le> length bs \<Longrightarrow> bw_buf w = []"
  shows "\<exists>n. bw_text w' s' = bw_text w s @ take n bs \<and> (r = Inr () \<longrightarrow> take n bs = bs)"
    "bw_fd w' = bw_fd w" "only_writes (bw_fd w) s s'"
proof -
  show "\<exists>n. bw_text w' s' = bw_text w s @ take n bs \<and> (r = Inr () \<longrightarrow> take n bs = bs)"
  proof (cases "CAPACITY \<le> length bs")
    case True
    obtain n e s1 where "sys_file_write K (bw_fd w) bs s = (n, e, s1)" by (metis prod_cases3)
    with assms True sys_file_write_text [OF this] show ?thesis
      by (intro exI [of _ n]) (auto simp: bw_store_def bw_text_def split: option.splits)
  next
    case False
    with assms(1) show ?thesis
      by (auto simp: bw_store_def bw_push_def bw_text_def intro: exI [of _ "length bs"])
  qed
qed (use assms(1) in \<open>auto simp: bw_store_def bw_push_def split: if_splits prod.splits option.splits
    intro: sys_file_write_text(3)\<close>)

text \<open>One call of \<open>write_all\<close>: the text grows by a prefix of the bytes, by all of them on success.\<close>

lemma bw_write_all_text:
  assumes "bw_write_all K bs w s = (r, w', s')"
  shows "\<exists>n. bw_text w' s' = bw_text w s @ take n bs \<and> (r = Inr () \<longrightarrow> take n bs = bs)"
    "bw_fd w' = bw_fd w" "only_writes (bw_fd w) s s'"
proof -
  let ?spare = "CAPACITY - length (bw_buf w)"
  consider (fits) "length bs < ?spare" | (flush) "?spare < length bs" | (exact) "?spare = length bs"
    by linarith
  then have "(\<exists>n. bw_text w' s' = bw_text w s @ take n bs \<and> (r = Inr () \<longrightarrow> take n bs = bs))
      \<and> bw_fd w' = bw_fd w \<and> only_writes (bw_fd w) s s'"
  proof cases
    case fits
    with assms show ?thesis
      by (auto simp: bw_write_all_def bw_push_def bw_text_def intro: exI [of _ "length bs"])
  next
    case flush
    obtain r1 w1 s1 where fl: "flush_buf K w s = (r1, w1, s1)" by (metis prod_cases3)
    note flt = flush_buf_text [OF fl]
    show ?thesis
    proof (cases r1)
      case (Inl e)
      with assms flush fl have "r = Inl e" "w' = w1" "s' = s1" by (auto simp: bw_write_all_def)
      with flt show ?thesis by (auto intro: exI [of _ 0])
    next
      case (Inr u)
      with assms flush fl have st: "bw_store K bs w1 s1 = (r, w', s')" by (auto simp: bw_write_all_def)
      from Inr flt(4) have "bw_buf w1 = []" by simp
      with bw_store_text [OF st] flt only_writes_trans show ?thesis by auto
    qed
  next
    case exact
    with assms have st: "bw_store K bs w s = (r, w', s')" by (auto simp: bw_write_all_def)
    have "bw_buf w = []" if "CAPACITY \<le> length bs" using that exact unfolding CAPACITY_def by (cases "bw_buf w") auto
    with bw_store_text [OF st] show ?thesis by auto
  qed
  then show "\<exists>n. bw_text w' s' = bw_text w s @ take n bs \<and> (r = Inr () \<longrightarrow> take n bs = bs)"
    "bw_fd w' = bw_fd w" "only_writes (bw_fd w) s s'" by blast+
qed

interpretation bw: appending_sink "bw_write_all K" bw_text for K :: "'w kernel"
proof
  fix bs x and s s' :: "'w os" and x'
  assume "bw_write_all K bs x s = (Inr (), x', s')"
  from bw_write_all_text(1) [OF this] show "bw_text x' s' = bw_text x s @ bs" by auto
next
  fix bs x and s s' :: "'w os" and x' e
  assume "bw_write_all K bs x s = (Inl e, x', s')"
  from bw_write_all_text(1) [OF this] show "\<exists>ys zs. bs = ys @ zs \<and> bw_text x' s' = bw_text x s @ ys"
    by (metis append_take_drop_id)
qed

lemma write_pieces_only:
  assumes "write_pieces (bw_write_all K) ps w s = (r, w', s')"
  shows "bw_fd w' = bw_fd w \<and> only_writes (bw_fd w) s s'"
  using assms
proof (induction ps arbitrary: w s)
  case (Cons p ps)
  obtain r1 w1 s1 where call: "bw_write_all K p w s = (r1, w1, s1)" by (metis prod_cases3)
  note one = bw_write_all_text(2,3) [OF call]
  show ?case
  proof (cases r1)
    case (Inr u)
    with Cons.prems call have "write_pieces (bw_write_all K) ps w1 s1 = (r, w', s')" by simp
    with Cons.IH one only_writes_trans show ?thesis by metis
  qed (use Cons.prems call one in auto)
qed simp

section \<open>The writer of the three files\<close>

record csv_writer =
  cw_event :: buf_writer
  cw_read :: buf_writer
  cw_desc :: buf_writer

text \<open>\<open>Path::join\<close> with a plain file name.\<close>

definition path_join :: "string \<Rightarrow> string \<Rightarrow> string" where
  "path_join folder name =
     (if folder = [] then name
      else if last folder = CHR ''/'' then folder @ name else folder @ ''/'' @ name)"

text \<open>\<open>OpenOptions::open\<close>; a path with a NUL byte never reaches the kernel.\<close>

definition open_file :: "'w kernel \<Rightarrow> string \<Rightarrow> 'w os \<Rightarrow> (io_error + int) \<times> 'w os" where
  "open_file K path s =
     (if CHR 0x00 \<in> set path then
        (Inl (Custom InvalidInput ''file name contained an unexpected NUL byte''), s)
      else case sys_file_open K path s of (fd, s') \<Rightarrow>
        (if fd < 0 then Inl (last_os_error K s') else Inr fd, s'))"

definition event_header :: string where "event_header = ''read_id,count,event_id''"
definition read_header :: string where "read_header = ''read_id,timestamp,time_running,time_enabled''"
definition desc_header :: string where "desc_header = ''event_id,name,pid''"

definition newline :: string where "newline = ''\<newline>''"

text \<open>The locals of \<open>open\<close> are dropped in the reverse of the order they were made in.\<close>

definition csv_open :: "'w kernel \<Rightarrow> string \<Rightarrow> 'w os \<Rightarrow> (io_error + csv_writer) \<times> 'w os" where
  "csv_open K folder s =
     (case open_file K (path_join folder ''threadstat-event.csv'') s of
        (Inl e, s) \<Rightarrow> (Inl e, s)
      | (Inr fd, s) \<Rightarrow>
     (let event = bw_new fd in
      case open_file K (path_join folder ''threadstat-read.csv'') s of
        (Inl e, s) \<Rightarrow> (Inl e, bw_drop K event s)
      | (Inr fd, s) \<Rightarrow>
     (let read = bw_new fd in
      case open_file K (path_join folder ''threadstat-event-description.csv'') s of
        (Inl e, s) \<Rightarrow> (Inl e, bw_drop K event (bw_drop K read s))
      | (Inr fd, s) \<Rightarrow>
     (let desc = bw_new fd in
      case write_pieces (bw_write_all K) [event_header @ newline] event s of
        (Inl e, event, s) \<Rightarrow> (Inl e, bw_drop K event (bw_drop K read (bw_drop K desc s)))
      | (Inr _, event, s) \<Rightarrow>
     (case write_pieces (bw_write_all K) [read_header @ newline] read s of
        (Inl e, read, s) \<Rightarrow> (Inl e, bw_drop K event (bw_drop K read (bw_drop K desc s)))
      | (Inr _, read, s) \<Rightarrow>
     (case write_pieces (bw_write_all K) [desc_header @ newline] desc s of
        (Inl e, desc, s) \<Rightarrow> (Inl e, bw_drop K event (bw_drop K read (bw_drop K desc s)))
      | (Inr _, desc, s) \<Rightarrow> (Inr \<lparr>cw_event = event, cw_read = read, cw_desc = desc\<rparr>, s)))))))"

text \<open>The pieces of the rows: \<open>Display\<close> of an integer writes its sign and its digits.\<close>

definition show_u64 :: "u64 \<Rightarrow> string" where
  "show_u64 x = show_nat (unat x)"

definition int_pieces :: "i32 \<Rightarrow> string list" where
  "int_pieces x =
     (if sint x < 0 then [''-'', show_nat (nat (- sint x))] else [show_nat (nat (sint x))])"

definition event_pieces :: "u64 \<Rightarrow> u64 \<Rightarrow> u64 \<Rightarrow> string list" where
  "event_pieces read_id cnt i = [show_u64 read_id, '','', show_u64 cnt, '','', show_u64 i, newline]"

definition read_pieces :: "u64 \<Rightarrow> nat \<Rightarrow> u64 \<Rightarrow> u64 \<Rightarrow> string list" where
  "read_pieces read_id timestamp running enabled =
     [show_u64 read_id, '','', show_nat timestamp, '','', show_u64 running, '','', show_u64 enabled,
      newline]"

definition desc_pieces :: "u64 \<Rightarrow> string \<Rightarrow> i32 \<Rightarrow> string list" where
  "desc_pieces i name tid = [show_u64 i, '','', name, '',''] @ int_pieces tid @ [newline]"

definition write_event ::
    "'w kernel \<Rightarrow> u64 \<Rightarrow> u64 \<Rightarrow> u64 \<Rightarrow> csv_writer \<Rightarrow> 'w os \<Rightarrow> (io_error + unit) \<times> csv_writer \<times> 'w os" where
  "write_event K read_id cnt i c s =
     (case write_pieces (bw_write_all K) (event_pieces read_id cnt i) (cw_event c) s of
        (r, w, s') \<Rightarrow> (r, c\<lparr>cw_event := w\<rparr>, s'))"

definition write_read ::
    "'w kernel \<Rightarrow> u64 \<Rightarrow> nat \<Rightarrow> u64 \<Rightarrow> u64 \<Rightarrow> csv_writer \<Rightarrow> 'w os \<Rightarrow>
       (io_error + unit) \<times> csv_writer \<times> 'w os" where
  "write_read K read_id timestamp running enabled c s =
     (case write_pieces (bw_write_all K) (read_pieces read_id timestamp running enabled) (cw_read c) s of
        (r, w, s') \<Rightarrow> (r, c\<lparr>cw_read := w\<rparr>, s'))"

definition write_desc ::
    "'w kernel \<Rightarrow> u64 \<Rightarrow> string \<Rightarrow> i32 \<Rightarrow> csv_writer \<Rightarrow> 'w os \<Rightarrow> (io_error + unit) \<times> csv_writer \<times> 'w os" where
  "write_desc K i name tid c s =
     (case write_pieces (bw_write_all K) (desc_pieces i name tid) (cw_desc c) s of
        (r, w, s') \<Rightarrow> (r, c\<lparr>cw_desc := w\<rparr>, s'))"

text \<open>The fields are dropped in the order of their declaration.\<close>

definition csv_drop :: "'w kernel \<Rightarrow> csv_writer \<Rightarrow> 'w os \<Rightarrow> 'w os" where
  "csv_drop K c s = bw_drop K (cw_desc c) (bw_drop K (cw_read c) (bw_drop K (cw_event c) s))"

section \<open>The texts of the three files\<close>

definition event_text :: "csv_writer \<Rightarrow> 'w os \<Rightarrow> string" where
  "event_text c s = bw_text (cw_event c) s"

definition read_text :: "csv_writer \<Rightarrow> 'w os \<Rightarrow> string" where
  "read_text c s = bw_text (cw_read c) s"

definition desc_text :: "csv_writer \<Rightarrow> 'w os \<Rightarrow> string" where
  "desc_text c s = bw_text (cw_desc c) s"

definition csv_fds :: "csv_writer \<Rightarrow> int list" where
  "csv_fds c = [bw_fd (cw_event c), bw_fd (cw_read c), bw_fd (cw_desc c)]"

definition event_row :: "u64 \<Rightarrow> u64 \<Rightarrow> u64 \<Rightarrow> string" where
  "event_row read_id cnt i = join_with CHR '','' [show_u64 read_id, show_u64 cnt, show_u64 i]"

definition read_row :: "u64 \<Rightarrow> nat \<Rightarrow> u64 \<Rightarrow> u64 \<Rightarrow> string" where
  "read_row read_id timestamp running enabled =
     join_with CHR '','' [show_u64 read_id, show_nat timestamp, show_u64 running, show_u64 enabled]"

definition desc_row :: "u64 \<Rightarrow> string \<Rightarrow> i32 \<Rightarrow> string" where
  "desc_row i name tid = join_with CHR '','' [show_u64 i, name, show_int (sint tid)]"

lemma concat_pieces:
  "concat (event_pieces r c i) = event_row r c i @ newline"
  "concat (read_pieces r t a b) = read_row r t a b @ newline"
  "concat (desc_pieces i name tid) = desc_row i name tid @ newline"
  by (simp_all add: event_pieces_def event_row_def read_pieces_def read_row_def desc_pieces_def
      desc_row_def int_pieces_def show_int_def)

text \<open>What a writing operation may touch: the one file, and no call but writes to it.\<close>

lemma bw_text_other:
  "only_writes fd s s' \<Longrightarrow> bw_fd w \<noteq> fd \<Longrightarrow> bw_text w s' = bw_text w s"
  by (simp add: bw_text_def only_writes_other)

lemma write_event_text:
  assumes "write_event K r cnt i c s = (res, c', s')" "distinct (csv_fds c)"
  shows "\<exists>ys zs. event_row r cnt i @ newline = ys @ zs \<and> event_text c' s' = event_text c s @ ys
      \<and> (res = Inr () \<longrightarrow> zs = [])"
    "read_text c' s' = read_text c s" "desc_text c' s' = desc_text c s" "csv_fds c' = csv_fds c"
    "only_writes (bw_fd (cw_event c)) s s'"
proof -
  obtain w where p: "write_pieces (bw_write_all K) (event_pieces r cnt i) (cw_event c) s = (res, w, s')"
      and c': "c' = c\<lparr>cw_event := w\<rparr>"
    using assms(1) by (auto simp: write_event_def split: prod.splits)
  note only = write_pieces_only [OF p]
  show "\<exists>ys zs. event_row r cnt i @ newline = ys @ zs \<and> event_text c' s' = event_text c s @ ys
      \<and> (res = Inr () \<longrightarrow> zs = [])"
    using bw.pieces_append [OF p] c' by (simp add: concat_pieces event_text_def)
  show "read_text c' s' = read_text c s" "desc_text c' s' = desc_text c s" "csv_fds c' = csv_fds c"
      "only_writes (bw_fd (cw_event c)) s s'"
    using only c' assms(2) by (auto simp: read_text_def desc_text_def csv_fds_def bw_text_other)
qed

lemma write_read_text:
  assumes "write_read K r t a b c s = (res, c', s')" "distinct (csv_fds c)"
  shows "\<exists>ys zs. read_row r t a b @ newline = ys @ zs \<and> read_text c' s' = read_text c s @ ys
      \<and> (res = Inr () \<longrightarrow> zs = [])"
    "event_text c' s' = event_text c s" "desc_text c' s' = desc_text c s" "csv_fds c' = csv_fds c"
    "only_writes (bw_fd (cw_read c)) s s'"
proof -
  obtain w where p: "write_pieces (bw_write_all K) (read_pieces r t a b) (cw_read c) s = (res, w, s')"
      and c': "c' = c\<lparr>cw_read := w\<rparr>"
    using assms(1) by (auto simp: write_read_def split: prod.splits)
  note only = write_pieces_only [OF p]
  show "\<exists>ys zs. read_row r t a b @ newline = ys @ zs \<and> read_text c' s' = read_text c s @ ys
      \<and> (res = Inr () \<longrightarrow> zs = [])"
    using bw.pieces_append [OF p] c' by (simp add: concat_pieces read_text_def)
  show "event_text c' s' = event_text c s" "desc_text c' s' = desc_text c s" "csv_fds c' = csv_fds c"
      "only_writes (bw_fd (cw_read c)) s s'"
    using only c' assms(2) by (auto simp: event_text_def desc_text_def csv_fds_def bw_text_other)
qed

lemma write_desc_text:
  assumes "write_desc K i name tid c s = (res, c', s')" "distinct (csv_fds c)"
  shows "\<exists>ys zs. desc_row i name tid @ newline = ys @ zs \<and> desc_text c' s' = desc_text c s @ ys
      \<and> (res = Inr () \<longrightarrow> zs = [])"
    "event_text c' s' = event_text c s" "read_text c' s' = read_text c s" "csv_fds c' = csv_fds c"
    "only_writes (bw_fd (cw_desc c)) s s'"
proof -
  obtain w where p: "write_pieces (bw_write_all K) (desc_pieces i name tid) (cw_desc c) s = (res, w, s')"
      and c': "c' = c\<lparr>cw_desc := w\<rparr>"
    using assms(1) by (auto simp: write_desc_def split: prod.splits)
  note only = write_pieces_only [OF p]
  show "\<exists>ys zs. desc_row i name tid @ newline = ys @ zs \<and> desc_text c' s' = desc_text c s @ ys
      \<and> (res = Inr () \<longrightarrow> zs = [])"
    using bw.pieces_append [OF p] c' by (simp add: concat_pieces desc_text_def)
  show "event_text c' s' = event_text c s" "read_text c' s' = read_text c s" "csv_fds c' = csv_fds c"
      "only_writes (bw_fd (cw_desc c)) s s'"
    using only c' assms(2) by (auto simp: event_text_def read_text_def csv_fds_def bw_text_other)
qed

section \<open>The writer as three append-only logs\<close>

datatype csv_row = EventRow u64 u64 u64 | ReadRow u64 nat u64 u64 | DescRow u64 string i32

fun write_row :: "'w kernel \<Rightarrow> csv_row \<Rightarrow> csv_writer \<Rightarrow> 'w os \<Rightarrow> (io_error + unit) \<times> csv_writer \<times> 'w os" where
  "write_row K (EventRow r cnt i) c s = write_event K r cnt i c s"
| "write_row K (ReadRow r t a b) c s = write_read K r t a b c s"
| "write_row K (DescRow i name tid) c s = write_desc K i name tid c s"

text \<open>Any sequence of row writes, with their results.\<close>

fun write_rows :: "'w kernel \<Rightarrow> csv_row list \<Rightarrow> csv_writer \<Rightarrow> 'w os \<Rightarrow> (io_error + unit) list \<times> csv_writer \<times> 'w os" where
  "write_rows K [] c s = ([], c, s)"
| "write_rows K (row # rows) c s =
     (case write_row K row c s of (r, c1, s1) \<Rightarrow>
        (case write_rows K rows c1 s1 of (rs, c2, s2) \<Rightarrow> (r # rs, c2, s2)))"

fun event_line :: "csv_row \<Rightarrow> string" where
  "event_line (EventRow r cnt i) = event_row r cnt i @ newline"
| "event_line _ = []"

fun read_line :: "csv_row \<Rightarrow> string" where
  "read_line (ReadRow r t a b) = read_row r t a b @ newline"
| "read_line _ = []"

fun desc_line :: "csv_row \<Rightarrow> string" where
  "desc_line (DescRow i name tid) = desc_row i name tid @ newline"
| "desc_line _ = []"

lemma write_row_text:
  assumes "write_row K row c s = (Inr (), c', s')" "distinct (csv_fds c)"
  shows "event_text c' s' = event_text c s @ event_line row
    \<and> read_text c' s' = read_text c s @ read_line row
    \<and> desc_text c' s' = desc_text c s @ desc_line row \<and> csv_fds c' = csv_fds c"
proof (cases row)
  case (EventRow r cnt i)
  with assms write_event_text [of K r cnt i c s "Inr ()" c' s'] show ?thesis by auto
next
  case (ReadRow r t a b)
  with assms write_read_text [of K r t a b c s "Inr ()" c' s'] show ?thesis by auto
next
  case (DescRow i name tid)
  with assms write_desc_text [of K i name tid c s "Inr ()" c' s'] show ?thesis by auto
qed

lemma write_rows_text:
  assumes "distinct (csv_fds c)" "write_rows K rows c s = (rs, c', s')" "set rs \<subseteq> {Inr ()}"
  shows "event_text c' s' = event_text c s @ concat (map event_line rows)
    \<and> read_text c' s' = read_text c s @ concat (map read_line rows)
    \<and> desc_text c' s' = desc_text c s @ concat (map desc_line rows) \<and> csv_fds c' = csv_fds c"
  using assms
proof (induction rows arbitrary: c s rs)
  case (Cons row rows)
  obtain r c1 s1 where one: "write_row K row c s = (r, c1, s1)" by (metis prod_cases3)
  obtain rs' where rest: "write_rows K rows c1 s1 = (rs', c', s')" and rs: "rs = r # rs'"
    using Cons.prems(2) one by (auto split: prod.splits)
  from rs Cons.prems(3) have ok: "r = Inr ()" "set rs' \<subseteq> {Inr ()}" by auto
  note step = write_row_text [OF one [unfolded ok(1)] Cons.prems(1)]
  then have "distinct (csv_fds c1)" using Cons.prems(1) by simp
  from Cons.IH [OF this rest ok(2)] step show ?case by simp
qed simp

text \<open>
  The writer refines three append-only logs: with three distinct descriptors, after any
  interleaving of row writes none of which failed, the text of each file (what reached its
  descriptor, followed by what is still buffered) has grown by exactly the rows written to that
  file, whole and in order, whatever their lengths and wherever the buffers were flushed.
\<close>

theorem csv_rows_append:
  assumes "distinct (csv_fds c)" "write_rows K rows c s = (rs, c', s')" "set rs \<subseteq> {Inr ()}"
  shows "event_text c' s' = event_text c s @ concat (map event_line rows)
    \<and> read_text c' s' = read_text c s @ concat (map read_line rows)
    \<and> desc_text c' s' = desc_text c s @ concat (map desc_line rows) \<and> csv_fds c' = csv_fds c"
  by (rule write_rows_text [OF assms])

definition three_files :: csv_writer where
  "three_files = \<lparr>cw_event = bw_new 8, cw_read = bw_new 9, cw_desc = bw_new 10\<rparr>"

text \<open>Four rows to fresh files; on \<open>idle_kernel\<close> every write succeeds.\<close>

definition demo_rows :: "csv_row list" where
  "demo_rows = [ReadRow 0 7 1 2, EventRow 0 5 3, DescRow 3 ''cycles'' 42, EventRow 0 6 4]"

lemma demo_run:
  obtains rs c' s' where "write_rows idle_kernel demo_rows three_files (boot ()) = (rs, c', s')"
    "set rs \<subseteq> {Inr ()}" "distinct (csv_fds three_files)"
    "event_text three_files (boot ()) = []" "desc_text three_files (boot ()) = []"
proof -
  obtain rs c' s' where w: "write_rows idle_kernel demo_rows three_files (boot ()) = (rs, c', s')"
    by (metis prod_cases3)
  have "set rs \<subseteq> {Inr ()}"
    using w by (auto simp: demo_rows_def three_files_def write_event_def write_read_def write_desc_def
        event_pieces_def read_pieces_def desc_pieces_def int_pieces_def bw_write_all_def bw_push_def
        bw_new_def CAPACITY_def show_u64_def newline_def Let_def show_nat.simps split: prod.splits)
  with w show ?thesis
    by (rule that) (simp_all add: three_files_def csv_fds_def bw_new_def event_text_def desc_text_def
        bw_text_def boot_def)
qed

theorem csv_rows_append_witness:
  "case write_rows idle_kernel demo_rows three_files (boot ()) of
     (rs, c', s') \<Rightarrow> event_text c' s' = event_row 0 5 3 @ newline @ event_row 0 6 4 @ newline"
proof -
  obtain rs c' s' where w: "write_rows idle_kernel demo_rows three_files (boot ()) = (rs, c', s')"
      "set rs \<subseteq> {Inr ()}" "distinct (csv_fds three_files)" "event_text three_files (boot ()) = []"
    by (rule demo_run)
  from csv_rows_append [OF w(3,1,2)] w(4) show ?thesis by (simp add: w(1)) (simp add: demo_rows_def)
qed

section \<open>Reading a file back\<close>

definition decode_u64 :: "string \<Rightarrow> u64 option" where
  "decode_u64 s = map_option of_nat (parse_digits s)"

text \<open>A consumer's view of the files: the lines, each split at its commas.\<close>

definition csv_table :: "string \<Rightarrow> string list list" where
  "csv_table s = map (split_on CHR '','') (butlast (split_on CHR ''\<newline>'' s))"

lemma decode_show_u64: "decode_u64 (show_u64 x) = Some x"
  by (simp add: decode_u64_def show_u64_def parse_digits_show)

lemma show_u64_clean:
  "CHR '','' \<notin> set (show_u64 x)" "CHR ''\<newline>'' \<notin> set (show_u64 x)"
  by (simp_all add: show_u64_def show_nat_clean)

lemma join_clean: "c \<notin> set (join_with d xs) \<longleftrightarrow> (\<forall>x \<in> set xs. c \<notin> set x) \<or> xs = []"
  if "c \<noteq> d" for xs
  using that by (induction d xs rule: join_with.induct) auto

lemma csv_table_rows:
  assumes "\<forall>r \<in> set rows. r \<noteq> [] \<and> (\<forall>f \<in> set r. CHR '','' \<notin> set f \<and> CHR ''\<newline>'' \<notin> set f)"
  shows "csv_table (concat (map (\<lambda>r. join_with CHR '','' r @ newline) rows)) = rows"
proof -
  let ?lines = "map (join_with CHR '','') rows"
  have "\<forall>l \<in> set ?lines. CHR ''\<newline>'' \<notin> set l" using assms by (auto simp: join_clean)
  from split_lines [OF this]
  have "split_on CHR ''\<newline>'' (concat (map (\<lambda>r. join_with CHR '','' r @ newline) rows)) = ?lines @ [[]]"
    by (simp add: newline_def comp_def)
  moreover have "map (split_on CHR '','') ?lines = rows"
    using assms by (simp add: comp_def map_idI split_join)
  ultimately show ?thesis by (simp add: csv_table_def)
qed

lemma event_rows_read_back:
  "map (map decode_u64) (csv_table (concat (map (\<lambda>(r, cnt, i). event_row r cnt i @ newline) xs)))
     = map (\<lambda>(r, cnt, i). [Some r, Some cnt, Some i]) xs"
proof -
  have "csv_table (concat (map (\<lambda>r. join_with CHR '','' r @ newline)
      (map (\<lambda>(r, cnt, i). [show_u64 r, show_u64 cnt, show_u64 i]) xs)))
    = map (\<lambda>(r, cnt, i). [show_u64 r, show_u64 cnt, show_u64 i]) xs"
    by (rule csv_table_rows) (auto simp: show_u64_clean)
  then show ?thesis by (simp add: event_row_def comp_def case_prod_unfold decode_show_u64)
qed

lemma desc_rows_read_back:
  assumes "\<forall>(i, name, tid) \<in> set xs. CHR '','' \<notin> set name \<and> CHR ''\<newline>'' \<notin> set name"
  shows "map (\<lambda>r. (decode_u64 (r ! 0), r ! 1, parse_i64 (r ! 2)))
      (csv_table (concat (map (\<lambda>(i, name, tid). desc_row i name tid @ newline) xs)))
    = map (\<lambda>(i, name, tid). (Some i, name, Some (sint tid))) xs"
proof -
  have "csv_table (concat (map (\<lambda>r. join_with CHR '','' r @ newline)
      (map (\<lambda>(i, name, tid). [show_u64 i, name, show_int (sint tid)]) xs)))
    = map (\<lambda>(i, name, tid). [show_u64 i, name, show_int (sint tid)]) xs"
    using assms by (intro csv_table_rows) (auto simp: show_u64_clean show_int_clean)
  moreover have "parse_i64 (show_int (sint tid)) = Some (sint tid)" for tid :: i32
    using sint_ge [of tid] sint_lt [of tid] by (intro parse_show_i64) simp_all
  ultimately show ?thesis by (simp add: desc_row_def comp_def case_prod_unfold decode_show_u64)
qed

text \<open>The values written by the rows of a kind.\<close>

fun event_values :: "csv_row \<Rightarrow> (u64 \<times> u64 \<times> u64) list" where
  "event_values (EventRow r cnt i) = [(r, cnt, i)]"
| "event_values _ = []"

fun desc_values :: "csv_row \<Rightarrow> (u64 \<times> string \<times> i32) list" where
  "desc_values (DescRow i name tid) = [(i, name, tid)]"
| "desc_values _ = []"

lemma event_lines_values:
  "concat (map event_line rows) =
     concat (map (\<lambda>(r, cnt, i). event_row r cnt i @ newline) (concat (map event_values rows)))"
proof (induction rows)
  case (Cons row rows)
  then show ?case by (cases row) simp_all
qed simp

lemma desc_lines_values:
  "concat (map desc_line rows) =
     concat (map (\<lambda>(i, name, tid). desc_row i name tid @ newline) (concat (map desc_values rows)))"
proof (induction rows)
  case (Cons row rows)
  then show ?case by (cases row) simp_all
qed simp

text \<open>
  The event file can be read back: what any interleaving of successful writes adds to it
  splits into lines and fields that decode to exactly the read id, the count and the event id of
  each event written, in order, for all values of the 64 bit integers.
\<close>

theorem event_rows_roundtrip:
  assumes "distinct (csv_fds c)" "write_rows K rows c s = (rs, c', s')" "set rs \<subseteq> {Inr ()}"
  shows "\<exists>t. event_text c' s' = event_text c s @ t \<and>
    map (map decode_u64) (csv_table t) =
      map (\<lambda>(r, cnt, i). [Some r, Some cnt, Some i]) (concat (map event_values rows))"
  using write_rows_text [OF assms] event_rows_read_back [of "concat (map event_values rows)"]
  by (simp add: event_lines_values)

theorem event_rows_roundtrip_witness:
  "case write_rows idle_kernel demo_rows three_files (boot ()) of
     (rs, c', s') \<Rightarrow> map (map decode_u64) (csv_table (event_text c' s')) =
        [[Some 0, Some 5, Some 3], [Some 0, Some 6, Some 4]]"
proof -
  obtain rs c' s' where w: "write_rows idle_kernel demo_rows three_files (boot ()) = (rs, c', s')"
      "set rs \<subseteq> {Inr ()}" "distinct (csv_fds three_files)" "event_text three_files (boot ()) = []"
    by (rule demo_run)
  from event_rows_roundtrip [OF w(3,1,2)] w(4) show ?thesis by (simp add: w(1)) (simp add: demo_rows_def)
qed

text \<open>
  The description file can be read back when the event names hold no comma and no newline:
  every row that successful writes add has three fields, the event id, the name as it is, and a
  thread id that parses to the signed number that was written.
\<close>

theorem desc_rows_roundtrip:
  assumes "distinct (csv_fds c)" "write_rows K rows c s = (rs, c', s')" "set rs \<subseteq> {Inr ()}"
    and "\<forall>(i, name, tid) \<in> set (concat (map desc_values rows)). CHR '','' \<notin> set name \<and> CHR ''\<newline>'' \<notin> set name"
  shows "\<exists>t. desc_text c' s' = desc_text c s @ t \<and>
    map (\<lambda>r. (decode_u64 (r ! 0), r ! 1, parse_i64 (r ! 2))) (csv_table t) =
      map (\<lambda>(i, name, tid). (Some i, name, Some (sint tid))) (concat (map desc_values rows))"
  using write_rows_text [OF assms(1-3)] desc_rows_read_back [OF assms(4)]
  by (simp add: desc_lines_values)

theorem desc_rows_roundtrip_witness:
  "case write_rows idle_kernel demo_rows three_files (boot ()) of
     (rs, c', s') \<Rightarrow> map (\<lambda>r. (decode_u64 (r ! 0), r ! 1, parse_i64 (r ! 2))) (csv_table (desc_text c' s')) =
        [(Some 3, ''cycles'', Some 42)]"
proof -
  obtain rs c' s' where w: "write_rows idle_kernel demo_rows three_files (boot ()) = (rs, c', s')"
      "set rs \<subseteq> {Inr ()}" "distinct (csv_fds three_files)" "desc_text three_files (boot ()) = []"
    by (rule demo_run)
  from desc_rows_roundtrip [OF w(3,1,2)] w(4) show ?thesis by (simp add: w(1)) (simp add: demo_rows_def)
qed

section \<open>Opening and closing the files\<close>

lemma open_file_trace:
  assumes "open_file K path s = (r, s')"
  obtains d where "trace s' = trace s @ d" "fds_closed d = {#}" "\<And>fd. file_text fd d = []"
    "fds_opened d = (case r of Inl _ \<Rightarrow> {#} | Inr fd \<Rightarrow> {#fd#})"
proof (cases "CHR 0x00 \<in> set path")
  case True
  with assms that [of "[]"] show ?thesis by (auto simp: open_file_def)
next
  case False
  obtain ret s1 where call: "sys_file_open K path s = (ret, s1)" by force
  with assms False sys_file_open_trace [OF call] show ?thesis
    by (intro that [of "[CFileOpen path ret]"]) (auto simp: open_file_def)
qed

lemma bw_drop_new: "trace (bw_drop K (bw_new fd) s) = trace s @ [CClose fd]"
  by (simp add: bw_drop_def flush_buf_def bw_new_def)

text \<open>A header fits into a fresh buffer: writing it calls nothing and cannot fail.\<close>

lemma write_header:
  "length h < CAPACITY \<Longrightarrow>
     write_pieces (bw_write_all K) [h] (bw_new fd) s = (Inr (), \<lparr>bw_fd = fd, bw_buf = h\<rparr>, s)"
  by (simp add: bw_write_all_def bw_new_def bw_push_def)

lemma headers_fit:
  "length (event_header @ newline) < CAPACITY" "length (read_header @ newline) < CAPACITY"
  "length (desc_header @ newline) < CAPACITY"
  by (simp_all add: event_header_def read_header_def desc_header_def newline_def CAPACITY_def)

lemma open_file_ok: "open_file K path s = (Inr fd, s') \<Longrightarrow> trace s' = trace s @ [CFileOpen path fd] \<and> 0 \<le> fd"
  by (auto simp: open_file_def split: if_splits prod.splits dest: sys_file_open_trace)

lemma csv_open_trace:
  "case csv_open K folder s of
     (Inl e, s') \<Rightarrow> \<exists>d. trace s' = trace s @ d \<and> fds_opened d = fds_closed d
   | (Inr c, s') \<Rightarrow> \<exists>e q d. 0 \<le> e \<and> 0 \<le> q \<and> 0 \<le> d
       \<and> trace s' = trace s @ [CFileOpen (path_join folder ''threadstat-event.csv'') e,
           CFileOpen (path_join folder ''threadstat-read.csv'') q,
           CFileOpen (path_join folder ''threadstat-event-description.csv'') d]
       \<and> c = \<lparr>cw_event = \<lparr>bw_fd = e, bw_buf = event_header @ newline\<rparr>,
             cw_read = \<lparr>bw_fd = q, bw_buf = read_header @ newline\<rparr>,
             cw_desc = \<lparr>bw_fd = d, bw_buf = desc_header @ newline\<rparr>\<rparr>"
proof -
  obtain r1 s1 where o1: "open_file K (path_join folder ''threadstat-event.csv'') s = (r1, s1)" by force
  obtain r2 s2 where o2: "open_file K (path_join folder ''threadstat-read.csv'') s1 = (r2, s2)" by force
  obtain r3 s3 where o3: "open_file K (path_join folder ''threadstat-event-description.csv'') s2 = (r3, s3)"
    by force
  obtain d1 where d1: "trace s1 = trace s @ d1" "fds_closed d1 = {#}" "\<And>fd. file_text fd d1 = []"
    "fds_opened d1 = (case r1 of Inl _ \<Rightarrow> {#} | Inr fd \<Rightarrow> {#fd#})"
    by (rule open_file_trace [OF o1]) blast
  obtain d2 where d2: "trace s2 = trace s1 @ d2" "fds_closed d2 = {#}" "\<And>fd. file_text fd d2 = []"
    "fds_opened d2 = (case r2 of Inl _ \<Rightarrow> {#} | Inr fd \<Rightarrow> {#fd#})"
    by (rule open_file_trace [OF o2]) blast
  obtain d3 where d3: "trace s3 = trace s2 @ d3" "fds_closed d3 = {#}" "\<And>fd. file_text fd d3 = []"
    "fds_opened d3 = (case r3 of Inl _ \<Rightarrow> {#} | Inr fd \<Rightarrow> {#fd#})"
    by (rule open_file_trace [OF o3]) blast
  note headers = write_header [OF headers_fit(1)] write_header [OF headers_fit(2)] write_header [OF headers_fit(3)]
  show ?thesis
  proof (cases r1)
    case (Inl e)
    with o1 d1 show ?thesis by (simp add: csv_open_def)
  next
    case r1: (Inr fd1)
    show ?thesis
    proof (cases r2)
      case (Inl e)
      with r1 o1 o2 d1 d2 show ?thesis by (simp add: csv_open_def bw_drop_new)
    next
      case r2: (Inr fd2)
      show ?thesis
      proof (cases r3)
        case (Inl e)
        with r1 r2 o1 o2 o3 d1 d2 d3 show ?thesis by (simp add: csv_open_def bw_drop_new)
      next
        case (Inr fd3)
        let ?c = "\<lparr>cw_event = \<lparr>bw_fd = fd1, bw_buf = event_header @ newline\<rparr>,
            cw_read = \<lparr>bw_fd = fd2, bw_buf = read_header @ newline\<rparr>,
            cw_desc = \<lparr>bw_fd = fd3, bw_buf = desc_header @ newline\<rparr>\<rparr>"
        from Inr r1 r2 o1 o2 o3 have "csv_open K folder s = (Inr ?c, s3)"
          by (simp add: csv_open_def headers Let_def del: write_pieces.simps)
        with open_file_ok [OF o1 [unfolded r1]] open_file_ok [OF o2 [unfolded r2]] open_file_ok [OF o3 [unfolded Inr]]
        show ?thesis by simp
      qed
    qed
  qed
qed

text \<open>
  Opening the writer, on any kernel: on success the three files have been opened and none
  closed, nothing has been written to a descriptor yet, and the text of each file is its header
  line; on failure every file that had been opened is closed again.
\<close>

theorem csv_open_headers:
  "case csv_open K folder s of
     (Inl e, s') \<Rightarrow> \<exists>d. trace s' = trace s @ d \<and> fds_opened d = fds_closed d
   | (Inr c, s') \<Rightarrow> \<exists>d. trace s' = trace s @ d \<and> fds_opened d = mset (csv_fds c)
       \<and> fds_closed d = {#} \<and> (\<forall>fd. file_text fd d = [])
       \<and> event_text c s' = file_text (bw_fd (cw_event c)) (trace s) @ event_header @ newline
       \<and> read_text c s' = file_text (bw_fd (cw_read c)) (trace s) @ read_header @ newline
       \<and> desc_text c s' = file_text (bw_fd (cw_desc c)) (trace s) @ desc_header @ newline"
  using csv_open_trace [where K = K and folder = folder and s = s]
  by (auto simp: csv_fds_def event_text_def read_text_def desc_text_def bw_text_def split: prod.splits sum.splits)

lemma csv_drop_texts:
  assumes "distinct (csv_fds c)" "\<And>fd bs w. fst (snd (k_file_write K fd bs w)) = None"
  shows "file_text (bw_fd (cw_event c)) (trace (csv_drop K c s)) = event_text c s
    \<and> file_text (bw_fd (cw_read c)) (trace (csv_drop K c s)) = read_text c s
    \<and> file_text (bw_fd (cw_desc c)) (trace (csv_drop K c s)) = desc_text c s
    \<and> (\<exists>d. trace (csv_drop K c s) = trace s @ d
         \<and> filter (\<lambda>x. \<exists>fd. x = CClose fd) d = map CClose (csv_fds c))"
proof -
  have drop: "trace (bw_drop K w t) = trace t @ (if bw_buf w = [] then [] else [CFileWrite (bw_fd w) (bw_buf w)])
      @ [CClose (bw_fd w)]" for w and t :: "'a os"
    using assms(2) [of "bw_fd w" "bw_buf w" "world t"]
    by (auto simp: bw_drop_def flush_buf_def sys_file_write_def split: prod.splits option.splits)
  show ?thesis
    using assms(1) by (auto simp: csv_drop_def drop event_text_def read_text_def desc_text_def bw_text_def csv_fds_def)
qed

text \<open>
  Nothing that was accepted is lost at exit: when the kernel's writes succeed, dropping the
  writer writes out every buffered byte, so that what has reached each descriptor is the whole
  text of its file, and then closes the three descriptors, each after its last write.
\<close>

theorem csv_drop_flushes:
  assumes "distinct (csv_fds c)" "\<And>fd bs w. fst (snd (k_file_write K fd bs w)) = None"
  shows "file_text (bw_fd (cw_event c)) (trace (csv_drop K c s)) = event_text c s
    \<and> file_text (bw_fd (cw_read c)) (trace (csv_drop K c s)) = read_text c s
    \<and> file_text (bw_fd (cw_desc c)) (trace (csv_drop K c s)) = desc_text c s
    \<and> (\<exists>d. trace (csv_drop K c s) = trace s @ d
         \<and> filter (\<lambda>x. \<exists>fd. x = CClose fd) d = map CClose (csv_fds c))"
  by (rule csv_drop_texts [OF assms])

theorem csv_drop_flushes_witness:
  "file_text 8 (trace (csv_drop idle_kernel (three_files\<lparr>cw_event := \<lparr>bw_fd = 8, bw_buf = ''x''\<rparr>\<rparr>) (boot ())))
     = ''x''"
  using csv_drop_flushes [of "three_files\<lparr>cw_event := \<lparr>bw_fd = 8, bw_buf = ''x''\<rparr>\<rparr>" idle_kernel "boot ()"]
  by (simp add: three_files_def csv_fds_def bw_new_def event_text_def bw_text_def boot_def idle_kernel_def)

end
