(* ===== verification/Parse_Perf.thy ===== *)
theory Parse_Perf
  imports Perf_Config Non_Empty Text Simulation "HOL-Library.Sublist"
begin

text \<open>
  The parser of the event list (\<open>threadstat-shared/src/parse_perf.rs\<close>). The scanner works on byte
  indices, as the code does; slicing a \<open>str\<close> panics off a character boundary. The interned
  strings of the crate string-intern are a parameter. The reference is \<open>scan\<close>, a lexer on lists
  with no index, and \<open>build_groups\<close>, which hands the names it yields to the code's two ways to add
  a group; the first theorem shows that the code is their composition. What the groups are is
  said by \<open>encode_item\<close>, which has no accumulator and does not use the code of the parser.
\<close>

section \<open>Interned strings and errors\<close>

record ('n, 'e) interner =
  in_try_new :: "string \<Rightarrow> 'e + 'n"
  in_new :: "string \<Rightarrow> 'n outcome"
  in_cstr :: "'n \<Rightarrow> string"

text \<open>The C string of an interned string is the string that was interned.\<close>

definition interner_laws :: "('n, 'e) interner \<Rightarrow> bool" where
  "interner_laws I \<longleftrightarrow>
     (\<forall>s n. in_try_new I s = Inr n \<longrightarrow> in_cstr I n = s) \<and> (\<forall>s n. in_new I s = Return n \<longrightarrow> in_cstr I n = s)"

datatype 'e parse_error = Pfm int | InternalNULL 'e

definition parse_error_from_pfm :: "int \<Rightarrow> 'e parse_error" where [simp]: "parse_error_from_pfm e = Pfm e"
definition parse_error_from_nul :: "'e \<Rightarrow> 'e parse_error" where [simp]: "parse_error_from_nul e = InternalNULL e"

definition parse_error_message :: "(int \<Rightarrow> string option) \<Rightarrow> ('e \<Rightarrow> string) \<Rightarrow> 'e parse_error \<Rightarrow> string" where
  "parse_error_message strerror show_nul err =
     (case err of
        Pfm e \<Rightarrow> ''libpfm error:'' @ pfm_error_message strerror e
      | InternalNULL e \<Rightarrow> show_nul e)"

section \<open>Scanning by index\<close>

text \<open>The three loops \<open>while i < b.len() && P(b[i])\<close> of the scanner.\<close>

function scan_while :: "(char \<Rightarrow> bool) \<Rightarrow> string \<Rightarrow> nat \<Rightarrow> nat" where
  "scan_while P b i = (if i < length b \<and> P (b ! i) then scan_while P b (i + 1) else i)"
  by pat_completeness auto
termination by (relation "measure (\<lambda>(P, b, i). length b - i)") auto

declare scan_while.simps [simp del]

definition is_ascii_whitespace :: "char \<Rightarrow> bool" where
  "is_ascii_whitespace c \<longleftrightarrow> c \<in> {CHR 0x20, CHR 0x09, CHR 0x0A, CHR 0x0C, CHR 0x0D}"

definition is_separator :: "char \<Rightarrow> bool" where
  "is_separator c \<longleftrightarrow> c = CHR '','' \<or> is_ascii_whitespace c"

definition is_name_char :: "char \<Rightarrow> bool" where
  "is_name_char c \<longleftrightarrow> c \<noteq> CHR '','' \<and> c \<noteq> CHR ''[''"

definition continuation :: "char \<Rightarrow> bool" where
  "continuation c \<longleftrightarrow> (let k = of_char c :: nat in 0x80 \<le> k \<and> k < 0xC0)"

definition is_char_boundary :: "string \<Rightarrow> nat \<Rightarrow> bool" where
  "is_char_boundary s i \<longleftrightarrow> i = 0 \<or> i = length s \<or> i < length s \<and> \<not> continuation (s ! i)"

definition str_slice :: "string \<Rightarrow> nat \<Rightarrow> nat \<Rightarrow> string outcome" where
  "str_slice s a b =
     (if a \<le> b \<and> is_char_boundary s a \<and> is_char_boundary s b then Return (take (b - a) (drop a s))
      else Panic ''str index is not a char boundary'')"

lemma scan_while_done: "\<not> (i < length b \<and> P (b ! i)) \<Longrightarrow> scan_while P b i = i"
  by (subst scan_while.simps) auto

lemma scan_while_ge: "i \<le> scan_while P b i"
proof (induction P b i rule: scan_while.induct)
  case (1 P b i)
  then show ?case by (subst scan_while.simps) auto
qed

lemma scan_while_stop: "scan_while P b i < length b \<Longrightarrow> \<not> P (b ! scan_while P b i)"
proof (induction P b i rule: scan_while.induct)
  case (1 P b i)
  then show ?case
    by (cases "i < length b \<and> P (b ! i)") (simp_all add: scan_while.simps [of P b i])
qed

lemma scan_while_step: "i < length b \<Longrightarrow> P (b ! i) \<Longrightarrow> Suc i \<le> scan_while P b i"
  using scan_while_ge [of "Suc i" P b] by (simp add: scan_while.simps [of P b i])

section \<open>The parser\<close>

text \<open>The iterator over the names of a bracket, collected into a \<open>Result\<close>.\<close>

definition group_names_of :: "string \<Rightarrow> string list" where
  "group_names_of inner = filter (\<lambda>e. e \<noteq> []) (map trim (split_on CHR '','' inner))"

fun collect_group ::
    "'w kernel \<Rightarrow> ('n, 'e) interner \<Rightarrow> string list \<Rightarrow> 'w os \<Rightarrow>
       ('e parse_error + 'n perf_config list) \<times> 'w os" where
  "collect_group K I [] os = (Inr [], os)"
| "collect_group K I (e # es) os =
     (case in_try_new I e of
        Inl err \<Rightarrow> (Inl (parse_error_from_nul err), os)
      | Inr interned \<Rightarrow>
          (case from_pfm_string K (in_cstr I interned) interned os of
             (Inl err, os1) \<Rightarrow> (Inl (parse_error_from_pfm err), os1)
           | (Inr cfg, os1) \<Rightarrow>
               (case collect_group K I es os1 of
                  (Inl err, os2) \<Rightarrow> (Inl err, os2)
                | (Inr cfgs, os2) \<Rightarrow> (Inr (cfg # cfgs), os2))))"

definition parse_bracket ::
    "'w kernel \<Rightarrow> ('n, 'e) interner \<Rightarrow> string list \<Rightarrow> 'n perf_config non_empty list \<Rightarrow> 'w os \<Rightarrow>
       ('e parse_error + 'n perf_config non_empty list) outcome \<times> 'w os" where
  "parse_bracket K I names groups os =
     (case collect_group K I names os of
        (Inl err, os1) \<Rightarrow> (Return (Inl err), os1)
      | (Inr cfgs, os1) \<Rightarrow>
          (case into_option (from_iter cfgs) of
             None \<Rightarrow> (Return (Inr groups), os1)
           | Some v \<Rightarrow> (Return (Inr (groups @ [v])), os1)))"

definition parse_bare ::
    "'w kernel \<Rightarrow> ('n, 'e) interner \<Rightarrow> string \<Rightarrow> 'n perf_config non_empty list \<Rightarrow> 'w os \<Rightarrow>
       ('e parse_error + 'n perf_config non_empty list) outcome \<times> 'w os" where
  "parse_bare K I name groups os =
     (if name = [] then (Return (Inr groups), os)
      else case in_new I name of
          Panic m \<Rightarrow> (Panic m, os)
        | Undefined \<Rightarrow> (Undefined, os)
        | Return interned \<Rightarrow>
            (case from_pfm_string K (in_cstr I interned) interned os of
               (Inl err, os1) \<Rightarrow> (Return (Inl (parse_error_from_pfm err)), os1)
             | (Inr cfg, os1) \<Rightarrow> (Return (Inr (groups @ [new_single cfg])), os1)))"

lemma bare_progress:
  assumes "i = scan_while is_separator s i0" "i < length s" "s ! i \<noteq> CHR ''[''"
  shows "i < scan_while is_name_char s i"
proof -
  have "\<not> is_separator (s ! i)" using assms(1,2) scan_while_stop [of is_separator s i0] by simp
  with assms(3) have "is_name_char (s ! i)" by (simp add: is_separator_def is_name_char_def)
  with scan_while_step [OF assms(2)] show ?thesis by fastforce
qed

text \<open>The outer loop, at index \<open>i\<close> with the groups so far.\<close>

function parse_loop ::
    "'w kernel \<Rightarrow> ('n, 'e) interner \<Rightarrow> string \<Rightarrow> nat \<Rightarrow> 'n perf_config non_empty list \<Rightarrow> 'w os \<Rightarrow>
       ('e parse_error + 'n perf_config non_empty list) outcome \<times> 'w os" where
  "parse_loop K I s i0 groups os =
     (let i = scan_while is_separator s i0 in
      if length s \<le> i then (Return (Inr groups), os)
      else if s ! i = CHR ''['' then
        (let start = i + 1; j = scan_while (\<lambda>c. c \<noteq> CHR '']'') s start in
         case str_slice s start j of
           Return inner \<Rightarrow>
             (case parse_bracket K I (group_names_of inner) groups os of
                (Return (Inr groups'), os1) \<Rightarrow>
                  parse_loop K I s (if j < length s then j + 1 else j) groups' os1
              | halted \<Rightarrow> halted)
         | Panic m \<Rightarrow> (Panic m, os)
         | Undefined \<Rightarrow> (Undefined, os))
      else
        (let j = scan_while is_name_char s i in
         case str_slice s i j of
           Return name \<Rightarrow>
             (case parse_bare K I (trim name) groups os of
                (Return (Inr groups'), os1) \<Rightarrow> parse_loop K I s j groups' os1
              | halted \<Rightarrow> halted)
         | Panic m \<Rightarrow> (Panic m, os)
         | Undefined \<Rightarrow> (Undefined, os)))"
  by pat_completeness auto

termination
proof (relation "measure (\<lambda>(K, I, s, i, groups, os). length s - i)", goal_cases)
  case (2 K I s i0 groups os i start j)
  then have "i0 \<le> i" "i < j" "i < length s"
    using scan_while_ge [of i0 is_separator s] scan_while_ge [of start "\<lambda>c. c \<noteq> CHR '']''" s] by auto
  then show ?case by auto
next
  case (3 K I s i0 groups os i j)
  then have "i0 \<le> i" "i < j" "i < length s"
    using scan_while_ge [of i0 is_separator s] bare_progress [of i s i0] by auto
  then show ?case by simp
qed simp

declare parse_loop.simps [simp del]

definition parse_event_groups ::
    "'w kernel \<Rightarrow> ('n, 'e) interner \<Rightarrow> string \<Rightarrow> 'w os \<Rightarrow>
       ('e parse_error + 'n perf_config non_empty list) outcome \<times> 'w os" where
  "parse_event_groups K I s os = parse_loop K I s 0 [] os"

text \<open>What every group keeps of the world and of the outcome, the loop keeps.\<close>

lemma parse_loop_invariant:
  assumes bracket: "\<And>names gs os out os1. parse_bracket K I names gs os = (out, os1) \<Longrightarrow> P os \<Longrightarrow> P os1 \<and> Q out"
    and bare: "\<And>name gs os out os1. parse_bare K I name gs os = (out, os1) \<Longrightarrow> P os \<Longrightarrow> P os1 \<and> Q out"
    and ends: "\<And>gs. Q (Return (Inr gs))" "\<And>m. Q (Panic m)"
  shows "P os \<Longrightarrow> P (snd (parse_loop K I s i gs os)) \<and> Q (fst (parse_loop K I s i gs os))"
proof (induction "length s - i" arbitrary: i gs os rule: less_induct)
  case less
  have step: "P (snd (case r of (Return (Inr gs'), os1) \<Rightarrow> parse_loop K I s k gs' os1 | halted \<Rightarrow> halted))
      \<and> Q (fst (case r of (Return (Inr gs'), os1) \<Rightarrow> parse_loop K I s k gs' os1 | halted \<Rightarrow> halted))"
    if "P (snd r) \<and> Q (fst r)" "length s - k < length s - i" for r k
    using that less.hyps [OF that(2)] by (auto split: prod.splits outcome.splits sum.splits)
  let ?i = "scan_while is_separator s i"
  let ?j = "scan_while (\<lambda>c. c \<noteq> CHR '']'') s (?i + 1)" and ?k = "scan_while is_name_char s ?i"
  show ?case
  proof (cases "length s \<le> ?i")
    case True
    with less.prems ends show ?thesis by (simp add: parse_loop.simps [of K I s i])
  next
    case False
    then have i: "i \<le> ?i" "?i < length s" using scan_while_ge by auto
    have j: "?i + 1 \<le> ?j" using scan_while_ge by blast
    have slice: "str_slice s a b \<noteq> Undefined" for a b by (simp add: str_slice_def)
    show ?thesis
    proof (cases "s ! ?i = CHR ''[''")
      case True
      let ?n = "if ?j < length s then ?j + 1 else ?j"
      have unroll: "parse_loop K I s i gs os =
        (case str_slice s (?i + 1) ?j of
           Return inner \<Rightarrow>
             (case parse_bracket K I (group_names_of inner) gs os of
                (Return (Inr gs'), os1) \<Rightarrow> parse_loop K I s ?n gs' os1 | halted \<Rightarrow> halted)
         | Panic m \<Rightarrow> (Panic m, os) | Undefined \<Rightarrow> (Undefined, os))"
        using i True by (subst parse_loop.simps) (simp only: Let_def if_True if_False not_le [THEN iffD2] refl not_le)
      have shorter: "length s - ?n < length s - i" using i j by auto
      have "P (snd (parse_bracket K I names gs os)) \<and> Q (fst (parse_bracket K I names gs os))" for names
        using bracket [of names gs os] less.prems by (metis prod.collapse)
      note next_round = step [OF this shorter]
      show ?thesis
        using next_round ends less.prems slice [of "?i + 1" ?j]
        by (cases "str_slice s (?i + 1) ?j") (simp_all only: unroll outcome.case fst_conv snd_conv simp_thms)
    next
      case no_bracket: False
      have unroll: "parse_loop K I s i gs os =
        (case str_slice s ?i ?k of
           Return name \<Rightarrow>
             (case parse_bare K I (trim name) gs os of
                (Return (Inr gs'), os1) \<Rightarrow> parse_loop K I s ?k gs' os1 | halted \<Rightarrow> halted)
         | Panic m \<Rightarrow> (Panic m, os) | Undefined \<Rightarrow> (Undefined, os))"
        using i no_bracket by (subst parse_loop.simps) (simp only: Let_def if_True if_False not_le [THEN iffD2] refl not_le)
      have shorter: "length s - ?k < length s - i" using bare_progress [OF refl i(2) no_bracket] i by simp
      have "P (snd (parse_bare K I name gs os)) \<and> Q (fst (parse_bare K I name gs os))" for name
        using bare [of name gs os] less.prems by (metis prod.collapse)
      note next_round = step [OF this shorter]
      show ?thesis
        using next_round ends less.prems slice [of ?i ?k]
        by (cases "str_slice s ?i ?k") (simp_all only: unroll outcome.case fst_conv snd_conv simp_thms)
    qed
  qed
qed

section \<open>The reference lexer\<close>

datatype item = Bracketed "string list" | Bare string

definition not_bracket :: "char \<Rightarrow> bool" where
  "not_bracket c \<longleftrightarrow> c \<noteq> CHR '']''"

lemma dropWhile_shorter: "dropWhile P s = c # cs \<Longrightarrow> length (dropWhile Q cs) < length s"
  using length_dropWhile_le [of P s] length_dropWhile_le [of Q cs] by simp

function scan :: "string \<Rightarrow> item list" where
  "scan s =
     (case dropWhile is_separator s of
        [] \<Rightarrow> []
      | c # cs \<Rightarrow>
          if c = CHR ''['' then
            Bracketed (group_names_of (takeWhile not_bracket cs)) # scan (drop 1 (dropWhile not_bracket cs))
          else Bare (trim (c # takeWhile is_name_char cs)) # scan (dropWhile is_name_char cs))"
  by pat_completeness auto

termination
proof (relation "measure length", goal_cases)
  case (2 s c cs)
  from dropWhile_shorter [OF 2(1), of not_bracket] show ?case by simp
next
  case (3 s c cs)
  from dropWhile_shorter [OF 3(1), of is_name_char] show ?case by simp
qed simp

declare scan.simps [simp del]

lemma scan_end: "dropWhile is_separator s = [] \<Longrightarrow> scan s = []"
  by (subst scan.simps) (simp only: list.case)

lemma scan_bracket:
  "dropWhile is_separator s = CHR ''['' # cs \<Longrightarrow>
     scan s = Bracketed (group_names_of (takeWhile not_bracket cs)) # scan (drop 1 (dropWhile not_bracket cs))"
  by (subst scan.simps) (simp only: list.case if_True refl)

lemma scan_bare:
  "dropWhile is_separator s = c # cs \<Longrightarrow> c \<noteq> CHR ''['' \<Longrightarrow>
     scan s = Bare (trim (c # takeWhile is_name_char cs)) # scan (dropWhile is_name_char cs)"
  by (subst scan.simps) (simp only: list.case if_False)

text \<open>Encoding the items in order, stopping at the first that fails.\<close>

fun build_groups ::
    "'w kernel \<Rightarrow> ('n, 'e) interner \<Rightarrow> item list \<Rightarrow> 'n perf_config non_empty list \<Rightarrow> 'w os \<Rightarrow>
       ('e parse_error + 'n perf_config non_empty list) outcome \<times> 'w os" where
  "build_groups K I [] groups os = (Return (Inr groups), os)"
| "build_groups K I (item # items) groups os =
     (case (case item of
          Bracketed names \<Rightarrow> parse_bracket K I names groups os
        | Bare name \<Rightarrow> parse_bare K I name groups os) of
        (Return (Inr groups'), os1) \<Rightarrow> build_groups K I items groups' os1
      | halted \<Rightarrow> halted)"

section \<open>The index scanner agrees with the lexer\<close>

lemma scan_while_index: "i \<le> length s \<Longrightarrow> scan_while P s i = i + length (takeWhile P (drop i s))"
proof (induction P s i rule: scan_while.induct)
  case (1 P s i)
  show ?case
  proof (cases "i < length s \<and> P (s ! i)")
    case True
    then have "drop i s = s ! i # drop (Suc i) s" by (simp add: Cons_nth_drop_Suc)
    with 1 True show ?thesis by (simp add: scan_while.simps [of P s i])
  next
    case False
    then show ?thesis using 1(2)
      by (cases "i < length s") (auto simp: scan_while_done Cons_nth_drop_Suc [symmetric])
  qed
qed

lemma scan_while_drop: "i \<le> length s \<Longrightarrow> drop (scan_while P s i) s = dropWhile P (drop i s)"
  by (simp add: scan_while_index dropWhile_eq_drop add.commute)

lemma scan_while_le: "i \<le> length s \<Longrightarrow> scan_while P s i \<le> length s"
  using length_takeWhile_le [of P "drop i s"] by (simp add: scan_while_index)

text \<open>
  What every \<open>str\<close> satisfies: no continuation byte at the start or after an ASCII byte.
\<close>

definition utf8_like :: "string \<Rightarrow> bool" where
  "utf8_like s \<longleftrightarrow> (s \<noteq> [] \<longrightarrow> \<not> continuation (s ! 0))
     \<and> (\<forall>i. Suc i < length s \<longrightarrow> of_char (s ! i) < (128 :: nat) \<longrightarrow> \<not> continuation (s ! Suc i))"

text \<open>So the hypothesis \<open>utf8_like\<close> of the theorems below holds of every \<open>str\<close>, which is valid UTF-8.\<close>

lemma utf8_seqD: "utf8_seq a t \<Longrightarrow> \<not> continuation a \<and> (\<forall>c \<in> set t. continuation c) \<and> (of_char a < (128 :: nat) \<longrightarrow> t = [])"
  by (auto simp: utf8_seq_def in_range_def continuation_def Let_def list_all_iff split: nat.splits)

lemma utf8_valid_like: "utf8_valid s \<Longrightarrow> utf8_like s"
proof (induction "length s" arbitrary: s rule: less_induct)
  case less
  show ?case
  proof (cases s)
    case (Cons a r)
    obtain t u where r: "r = t @ u" "utf8_valid u" "utf8_seq a t"
      using utf8_valid_parts less.prems Cons by blast
    have u: "utf8_like u" using less.hyps [OF _ r(2)] Cons r(1) by simp
    note a = utf8_seqD [OF r(3)]
    have "\<not> continuation (s ! Suc i)" if i: "Suc i < length s" "of_char (s ! i) < (128 :: nat)" for i
    proof (cases "i < length (a # t)")
      case True
      have "of_char c \<ge> (128 :: nat)" if "continuation c" for c using that by (simp add: continuation_def Let_def)
      then have "i = 0 \<and> t = []" using True i(2) a Cons r(1)
        by (cases i) (auto simp: nth_append not_le [symmetric] dest: nth_mem)
      with i u Cons r(1) show ?thesis by (auto simp: utf8_like_def)
    next
      case False
      then obtain j where j: "i = length (a # t) + j" by (metis le_add_diff_inverse not_le)
      have "s ! i = u ! j" "s ! Suc i = u ! Suc j" "Suc j < length u"
        using i(1) Cons r(1) j by (auto simp: nth_append)
      with u i(2) show ?thesis by (simp add: utf8_like_def)
    qed
    with a Cons show ?thesis by (auto simp: utf8_like_def)
  qed (simp add: utf8_like_def)
qed

lemma ascii_boundary:
  assumes "utf8_like s" "i \<le> length s" "i = 0 \<or> of_char (s ! (i - 1)) < (128 :: nat)"
  shows "is_char_boundary s i"
  using assms by (cases i) (auto simp: utf8_like_def is_char_boundary_def)

lemma ascii_at_boundary: "i < length s \<Longrightarrow> of_char (s ! i) < (128 :: nat) \<Longrightarrow> is_char_boundary s i"
  by (simp add: is_char_boundary_def continuation_def Let_def)

lemma separator_ascii: "is_separator c \<Longrightarrow> of_char c < (128 :: nat)"
  by (auto simp: is_separator_def is_ascii_whitespace_def)

text \<open>The index at which a loop stops is a boundary if the loop started at one, or stops at ASCII.\<close>

lemma skip_boundary:
  assumes "utf8_like s" "i \<le> length s" "is_char_boundary s i"
  shows "is_char_boundary s (scan_while is_separator s i)"
  using assms
proof (induction is_separator s i rule: scan_while.induct)
  case (1 s i)
  show ?case
  proof (cases "i < length s \<and> is_separator (s ! i)")
    case True
    then have "is_char_boundary s (i + 1)"
      using ascii_boundary [OF 1(2), of "i + 1"] separator_ascii by simp
    with 1 True show ?thesis by (simp add: scan_while.simps [of is_separator s i])
  qed (use 1 in \<open>simp add: scan_while_done\<close>)
qed

lemma stop_boundary:
  assumes "i \<le> length s" "\<And>c. \<not> P c \<Longrightarrow> of_char c < (128 :: nat)"
  shows "is_char_boundary s (scan_while P s i)"
proof (cases "scan_while P s i < length s")
  case True
  with scan_while_stop [of P s i] assms(2) show ?thesis by (intro ascii_at_boundary) auto
next
  case False
  with scan_while_le [OF assms(1), of P] show ?thesis by (simp add: is_char_boundary_def)
qed

lemma str_slice_while:
  assumes "i \<le> length s" "is_char_boundary s i" "is_char_boundary s (scan_while P s i)"
  shows "str_slice s i (scan_while P s i) = Return (takeWhile P (drop i s))"
  using assms scan_while_index [OF assms(1), of P]
  by (simp add: str_slice_def takeWhile_eq_take [symmetric])

text \<open>One round of the loop at a bracket and at a bare name, in terms of the rest of the text.\<close>

lemma parse_loop_bracket:
  assumes utf: "utf8_like s" and i: "i = scan_while is_separator s i0" "i < length s" "s ! i = CHR ''[''"
    and start: "is_char_boundary s i"
  obtains k where "i < k" "k \<le> length s" "is_char_boundary s k"
    "drop k s = drop 1 (dropWhile not_bracket (drop (Suc i) s))"
    "\<forall>groups os. parse_loop K I s i0 groups os =
       (case parse_bracket K I (group_names_of (takeWhile not_bracket (drop (Suc i) s))) groups os of
          (Return (Inr groups'), os1) \<Rightarrow> parse_loop K I s k groups' os1 | halted \<Rightarrow> halted)"
proof -
  let ?j = "scan_while not_bracket s (Suc i)"
  let ?k = "if ?j < length s then ?j + 1 else ?j"
  have j: "Suc i \<le> ?j" "?j \<le> length s"
    using scan_while_ge [of "Suc i" not_bracket s] scan_while_le [of "Suc i" s] i(2) by auto
  have bounds: "is_char_boundary s (Suc i)" "is_char_boundary s ?j"
    using ascii_boundary [OF utf, of "Suc i"] i by (auto intro!: stop_boundary simp: not_bracket_def)
  have slice: "str_slice s (Suc i) ?j = Return (takeWhile not_bracket (drop (Suc i) s))"
    by (rule str_slice_while) (use i bounds in auto)
  show ?thesis
  proof (rule that [of ?k])
    show "is_char_boundary s ?k"
      using ascii_boundary [OF utf, of "Suc ?j"] scan_while_stop [of not_bracket s "Suc i"] bounds
      by (auto simp: not_bracket_def)
    show "drop ?k s = drop 1 (dropWhile not_bracket (drop (Suc i) s))"
      unfolding scan_while_drop [OF Suc_leI [OF i(2)], of not_bracket, symmetric] using j by (simp add: drop_drop)
    show "\<forall>groups os. parse_loop K I s i0 groups os =
       (case parse_bracket K I (group_names_of (takeWhile not_bracket (drop (Suc i) s))) groups os of
          (Return (Inr groups'), os1) \<Rightarrow> parse_loop K I s ?k groups' os1 | halted \<Rightarrow> halted)"
      using i(2,3) slice by (intro allI, cases "?j < length s")
        (simp_all add: parse_loop.simps [of K I s i0] i(1) [symmetric] Let_def not_bracket_def [abs_def, symmetric])
  qed (use j in auto)
qed

lemma parse_loop_bare:
  assumes utf: "utf8_like s" and i: "i = scan_while is_separator s i0" "i < length s" "s ! i \<noteq> CHR ''[''"
    and start: "is_char_boundary s i"
  obtains k where "i < k" "k \<le> length s" "is_char_boundary s k"
    "drop k s = dropWhile is_name_char (drop (Suc i) s)"
    "\<forall>groups os. parse_loop K I s i0 groups os =
       (case parse_bare K I (trim (s ! i # takeWhile is_name_char (drop (Suc i) s))) groups os of
          (Return (Inr groups'), os1) \<Rightarrow> parse_loop K I s k groups' os1 | halted \<Rightarrow> halted)"
proof -
  let ?k = "scan_while is_name_char s i"
  have cons: "drop i s = s ! i # drop (Suc i) s" using i(2) by (simp add: Cons_nth_drop_Suc)
  have k: "i < ?k" "?k \<le> length s" using bare_progress [OF i] scan_while_le [of i s] i(2) by auto
  have kb: "is_char_boundary s ?k" by (rule stop_boundary) (use i start in \<open>auto simp: is_name_char_def\<close>)
  have slice: "str_slice s i ?k = Return (takeWhile is_name_char (drop i s))"
    by (rule str_slice_while) (use i start kb in auto)
  have name: "is_name_char (s ! i)"
    using scan_while_stop [of is_separator s i0] i by (auto simp: is_separator_def is_name_char_def)
  show ?thesis
  proof (rule that [of ?k])
    show "drop ?k s = dropWhile is_name_char (drop (Suc i) s)"
      using scan_while_drop [of i s is_name_char] i(2) name cons by simp
    show "\<forall>groups os. parse_loop K I s i0 groups os =
       (case parse_bare K I (trim (s ! i # takeWhile is_name_char (drop (Suc i) s))) groups os of
          (Return (Inr groups'), os1) \<Rightarrow> parse_loop K I s ?k groups' os1 | halted \<Rightarrow> halted)"
      using i(2,3) cons slice name by (intro allI) (simp add: parse_loop.simps [of K I s i0] i(1) [symmetric] Let_def)
  qed (use k kb in auto)
qed

lemma parse_loop_scans:
  assumes "utf8_like s"
  shows "i0 \<le> length s \<Longrightarrow> is_char_boundary s i0 \<Longrightarrow>
      parse_loop K I s i0 groups os = build_groups K I (scan (drop i0 s)) groups os"
proof (induction "length s - i0" arbitrary: i0 groups os rule: less_induct)
  case less
  define i where "i = scan_while is_separator s i0"
  have i: "i0 \<le> i" "i \<le> length s" "is_char_boundary s i"
    using scan_while_ge scan_while_le less.prems skip_boundary [OF assms less.prems] by (auto simp: i_def)
  have rest: "dropWhile is_separator (drop i0 s) = drop i s"
    using scan_while_drop [OF less.prems(1)] by (simp add: i_def)
  show ?case
  proof (cases "i < length s")
    case False
    with rest have "scan (drop i0 s) = []" by (intro scan_end) simp
    with False show ?thesis by (simp add: parse_loop.simps [of K I s i0] Let_def i_def)
  next
    case True
    then have cons: "drop i s = s ! i # drop (Suc i) s" by (simp add: Cons_nth_drop_Suc)
    show ?thesis
    proof (cases "s ! i = CHR ''[''")
      case br: True
      obtain k where k: "i < k" "k \<le> length s" "is_char_boundary s k"
          "drop k s = drop 1 (dropWhile not_bracket (drop (Suc i) s))" and
        step: "\<forall>groups os. parse_loop K I s i0 groups os =
          (case parse_bracket K I (group_names_of (takeWhile not_bracket (drop (Suc i) s))) groups os of
            (Return (Inr groups'), os1) \<Rightarrow> parse_loop K I s k groups' os1 | halted \<Rightarrow> halted)"
        by (rule parse_loop_bracket [where K = K and I = I, OF assms i_def True br i(3)])
      have "parse_loop K I s k g o1 = build_groups K I (scan (drop k s)) g o1" for g o1
        by (rule less.hyps) (use i k in auto)
      moreover have "scan (drop i0 s) = Bracketed (group_names_of (takeWhile not_bracket (drop (Suc i) s))) # scan (drop k s)"
        unfolding k(4) by (rule scan_bracket [OF rest [unfolded cons br]])
      ultimately show ?thesis by (simp add: step split: outcome.splits sum.splits prod.splits)
    next
      case bare: False
      obtain k where k: "i < k" "k \<le> length s" "is_char_boundary s k"
          "drop k s = dropWhile is_name_char (drop (Suc i) s)" and
        step: "\<forall>groups os. parse_loop K I s i0 groups os =
          (case parse_bare K I (trim (s ! i # takeWhile is_name_char (drop (Suc i) s))) groups os of
            (Return (Inr groups'), os1) \<Rightarrow> parse_loop K I s k groups' os1 | halted \<Rightarrow> halted)"
        by (rule parse_loop_bare [where K = K and I = I, OF assms i_def True bare i(3)])
      have "parse_loop K I s k g o1 = build_groups K I (scan (drop k s)) g o1" for g o1
        by (rule less.hyps) (use i k in auto)
      moreover have "scan (drop i0 s) = Bare (trim (s ! i # takeWhile is_name_char (drop (Suc i) s))) # scan (drop k s)"
        unfolding k(4) by (rule scan_bare [OF rest [unfolded cons] bare])
      ultimately show ?thesis by (simp add: step split: outcome.splits sum.splits prod.splits)
    qed
  qed
qed

lemma parse_scans:
  "utf8_like s \<Longrightarrow> parse_event_groups K I s os = build_groups K I (scan s) [] os"
  using parse_loop_scans [of s 0 K I "[]" os] by (simp add: parse_event_groups_def is_char_boundary_def)

text \<open>
  \<^bold>\<open>C21.\<close> The index scanner is correct and never slices inside a character: on every string whose
  bytes can be those of a \<open>str\<close>, with any libpfm and any interner, \<open>parse_event_groups\<close> makes the
  same calls and gives the same result as encoding, in order, the items that the lexer finds.
\<close>

theorem parse_event_groups_scans:
  assumes "utf8_like s"
  shows "parse_event_groups K I s os = build_groups K I (scan s) [] os"
  by (rule parse_scans [OF assms])

definition plain_interner :: "(string, unit) interner" where
  "plain_interner = \<lparr>in_try_new = Inr, in_new = Return, in_cstr = (\<lambda>n. n)\<rparr>"

lemma plain_interner_laws: "interner_laws plain_interner"
  by (simp add: interner_laws_def plain_interner_def)

theorem parse_event_groups_scans_witness:
  "parse_event_groups idle_kernel plain_interner ''a,[b]'' (boot ())
     = build_groups idle_kernel plain_interner (scan ''a,[b]'') [] (boot ())"
  by (rule parse_event_groups_scans) (auto simp: utf8_like_def continuation_def less_Suc_eq)

section \<open>Names\<close>

fun item_names :: "item \<Rightarrow> string list" where
  "item_names (Bracketed names) = names"
| "item_names (Bare name) = (if name = [] then [] else [name])"

definition group_lists :: "item list \<Rightarrow> string list list" where
  "group_lists items = filter (\<lambda>ns. ns \<noteq> []) (map item_names items)"

text \<open>A name as the parser leaves it: not empty, trimmed, without a comma.\<close>

definition tidy_name :: "string \<Rightarrow> bool" where
  "tidy_name n \<longleftrightarrow> n \<noteq> [] \<and> trim n = n \<and> CHR '','' \<notin> set n"

lemma group_names_tidy: "n \<in> set (group_names_of inner) \<Longrightarrow> tidy_name n"
proof -
  assume n: "n \<in> set (group_names_of inner)"
  then obtain p where p: "p \<in> set (split_on CHR '','' inner)" "n = trim p" "n \<noteq> []"
    by (auto simp: group_names_of_def)
  have "CHR '','' \<notin> set p" using split_on_pieces [OF p(1)] by auto
  with p show ?thesis using trim_set [of p] by (auto simp: tidy_name_def trim_idem)
qed

lemma scan_names_tidy: "item \<in> set (scan s) \<Longrightarrow> n \<in> set (item_names item) \<Longrightarrow> tidy_name n"
proof (induction s rule: scan.induct)
  case (1 s)
  show ?case
  proof (cases "dropWhile is_separator s")
    case Nil
    with 1 show ?thesis by (simp add: scan_end)
  next
    case (Cons c cs)
    show ?thesis
    proof (cases "c = CHR ''[''")
      case True
      with Cons have sc: "scan s = Bracketed (group_names_of (takeWhile not_bracket cs))
          # scan (drop 1 (dropWhile not_bracket cs))" by (intro scan_bracket) simp
      with 1 Cons True group_names_tidy show ?thesis by auto
    next
      case False
      note sc = scan_bare [OF Cons False]
      have "\<not> is_separator c" using Cons by (metis hd_dropWhile list.distinct(1) list.sel(1))
      then have "CHR '','' \<notin> set (trim (c # takeWhile is_name_char cs))"
        using trim_set [of "c # takeWhile is_name_char cs"]
        by (auto simp: is_separator_def is_name_char_def dest!: set_takeWhileD subsetD)
      with 1 Cons False sc show ?thesis by (auto simp: tidy_name_def trim_idem split: if_splits)
    qed
  qed
qed

section \<open>Calls and results\<close>

fun encoded_by :: "call \<Rightarrow> string list" where
  "encoded_by (CPfmEncode e ret) = [e]"
| "encoded_by _ = []"

definition encoded :: "call list \<Rightarrow> string list" where
  "encoded cs = concat (map encoded_by cs)"

lemma encoded_simps [simp, trace_simps]:
  "encoded [] = []" "encoded (c # cs) = encoded_by c @ encoded cs"
  "encoded (xs @ ys) = encoded xs @ encoded ys"
  by (simp_all add: encoded_def)

lemma pfm_force_encoded: "pfm_force K os = (c, os') \<Longrightarrow> encoded (trace os') = encoded (trace os)"
  by (auto simp: pfm_force_def Let_def split: option.splits prod.splits dest!: sys_pfm_initialize_trace)

lemma from_pfm_string_encoded:
  assumes "from_pfm_string K e n os = (r, os')"
  shows "(\<exists>b. encoded (trace os') = encoded (trace os) @ (if b then [e] else []) \<and> (\<forall>c. r = Inr c \<longrightarrow> b))
    \<and> (\<forall>c. r = Inr c \<longrightarrow> pc_name c = n)"
proof -
  obtain c os1 where f: "pfm_force K os = (c, os1)" by force
  note fe = pfm_force_encoded [OF f]
  show ?thesis
  proof (cases c)
    case (Inl err)
    with assms f fe show ?thesis by (auto simp: from_pfm_string_def intro: exI [of _ False])
  next
    case (Inr u)
    obtain ret rv os2 where enc: "sys_pfm_encode K e PFM_PLM zeroed_attr os1 = (ret, rv, os2)"
      by (metis prod_cases3)
    with assms f Inr fe sys_pfm_encode_trace [OF enc] show ?thesis
      by (intro conjI exI [of _ True]) (auto simp: from_pfm_string_def get_perf_attr_array_def split: if_splits)
  qed
qed

definition config_names :: "('n, 'e) interner \<Rightarrow> 'n perf_config list \<Rightarrow> string list" where
  "config_names I cfgs = map (\<lambda>c. in_cstr I (pc_name c)) cfgs"

lemma collect_group_names:
  "interner_laws I \<Longrightarrow> collect_group K I es os = (r, os') \<Longrightarrow>
     (\<exists>ns. prefix ns es \<and> encoded (trace os') = encoded (trace os) @ ns \<and> (\<forall>cfgs. r = Inr cfgs \<longrightarrow> ns = es))
   \<and> (\<forall>cfgs. r = Inr cfgs \<longrightarrow> config_names I cfgs = es)"
proof (induction es arbitrary: os r os')
  case Nil
  then show ?case by (auto simp: config_names_def)
next
  case (Cons e es)
  show ?case
  proof (cases "in_try_new I e")
    case (Inl err)
    with Cons.prems show ?thesis by (auto intro: exI [of _ "[]"])
  next
    case (Inr n)
    with Cons.prems(1) have cstr: "in_cstr I n = e" by (simp add: interner_laws_def)
    obtain r1 os1 where one: "from_pfm_string K e n os = (r1, os1)" by force
    note enc = from_pfm_string_encoded [OF one]
    show ?thesis
    proof (cases r1)
      case (Inl err)
      with Cons.prems Inr cstr one have "r = Inl (Pfm err)" "os' = os1" by auto
      with enc show ?thesis by (auto intro: exI [of _ "[e]"] exI [of _ "[]"])
    next
      case r1: (Inr cfg)
      obtain r2 os2 where rest: "collect_group K I es os1 = (r2, os2)" by force
      with Cons.prems Inr cstr one r1 have res: "os' = os2" "r = (case r2 of Inl err \<Rightarrow> Inl err | Inr cfgs \<Rightarrow> Inr (cfg # cfgs))"
        by (auto split: sum.splits)
      from Cons.IH [OF Cons.prems(1) rest] obtain ns where "prefix ns es"
          "encoded (trace os2) = encoded (trace os1) @ ns" "\<forall>cfgs. r2 = Inr cfgs \<longrightarrow> ns = es \<and> config_names I cfgs = es"
        by auto
      with enc r1 res cstr show ?thesis
        by (intro conjI exI [of _ "e # ns"]) (auto simp: config_names_def split: sum.splits)
    qed
  qed
qed

lemma build_groups_names:
  "interner_laws I \<Longrightarrow> build_groups K I items groups os = (out, os') \<Longrightarrow>
     (\<exists>ns. prefix ns (concat (map item_names items)) \<and> encoded (trace os') = encoded (trace os) @ ns
        \<and> (\<forall>gs. out = Return (Inr gs) \<longrightarrow> ns = concat (map item_names items)))
   \<and> (\<forall>gs. out = Return (Inr gs) \<longrightarrow> (\<exists>new. gs = groups @ new \<and> list_all built new
        \<and> map (\<lambda>g. config_names I (elems g)) new = group_lists items))"
proof (induction items arbitrary: groups os out os')
  case Nil
  then show ?case by (auto simp: group_lists_def)
next
  case (Cons item items)
  obtain o1 os1 where one: "(case item of Bracketed names \<Rightarrow> parse_bracket K I names groups os
      | Bare name \<Rightarrow> parse_bare K I name groups os) = (o1, os1)" by force
  have step: "(\<exists>ns. prefix ns (item_names item) \<and> encoded (trace os1) = encoded (trace os) @ ns
        \<and> (\<forall>gs. o1 = Return (Inr gs) \<longrightarrow> ns = item_names item))
      \<and> (\<forall>gs. o1 = Return (Inr gs) \<longrightarrow> (\<exists>new. gs = groups @ new \<and> list_all built new
        \<and> map (\<lambda>g. config_names I (elems g)) new = group_lists [item]))"
  proof (cases item)
    case (Bracketed names)
    obtain r os2 where c: "collect_group K I names os = (r, os2)" by force
    note cn = collect_group_names [OF Cons.prems(1) c]
    show ?thesis
    proof (cases r)
      case (Inl err)
      with cn c one Bracketed show ?thesis by (auto simp: parse_bracket_def)
    next
      case (Inr cfgs)
      with cn c one Bracketed show ?thesis
        by (cases "cfgs = []") (auto simp: parse_bracket_def from_iter_def group_lists_def built_NonEmpty config_names_def)
    qed
  next
    case (Bare name)
    show ?thesis
    proof (cases "name \<noteq> [] \<and> returns (in_new I name)")
      case False
      with one Bare show ?thesis
        by (auto simp: parse_bare_def group_lists_def split: if_splits outcome.splits)
    next
      case True
      then obtain n where n: "in_new I name = Return n" by (auto simp: returns_iff)
      with Cons.prems(1) have cstr: "in_cstr I n = name" by (simp add: interner_laws_def)
      obtain r1 os2 where f: "from_pfm_string K name n os = (r1, os2)" by force
      note enc = from_pfm_string_encoded [OF f]
      show ?thesis
      proof (cases r1)
        case (Inl err)
        with enc True n cstr f one Bare show ?thesis
          by (auto simp: parse_bare_def intro: exI [of _ "[name]"] exI [of _ "[]"])
      next
        case (Inr cfg)
        have "built (new_single cfg)" by (rule built.single)
        with Inr enc True n cstr f one Bare show ?thesis
          by (auto simp: parse_bare_def group_lists_def config_names_def new_single_def)
      qed
    qed
  qed
  show ?case
  proof (cases "\<exists>gs. o1 = Return (Inr gs)")
    case False
    with Cons.prems(2) one have "out = o1" "os' = os1"
      by (auto split: outcome.splits sum.splits)
    with False step show ?thesis by (auto intro: prefix_order.trans)
  next
    case True
    then obtain gs where o1: "o1 = Return (Inr gs)" by blast
    with Cons.prems(2) one have rest: "build_groups K I items gs os1 = (out, os')" by simp
    from step o1 obtain new where s: "encoded (trace os1) = encoded (trace os) @ item_names item"
        "gs = groups @ new" "list_all built new" "map (\<lambda>g. config_names I (elems g)) new = group_lists [item]"
      by auto
    from Cons.IH [OF Cons.prems(1) rest] s show ?thesis
      by (auto simp: group_lists_def intro: exI [of _ "item_names item @ _"])
  qed
qed

section \<open>What a successful parse holds\<close>

lemma group_lists_tidy: "ns \<in> set (group_lists (scan s)) \<Longrightarrow> n \<in> set ns \<Longrightarrow> tidy_name n"
  by (auto simp: group_lists_def dest: scan_names_tidy)

text \<open>
  What the parser returns: on success every group is a legal non-empty slice, and the names
  of the configurations, group by group and in order, are the names the lexer finds, with the
  empty groups dropped; each of them is non-empty, trimmed and free of commas. libpfm has been
  asked for exactly these names, in that order; on an error or a panic, for a prefix of them.
\<close>

theorem parse_event_groups_names:
  assumes "interner_laws I" "utf8_like s"
  shows "case parse_event_groups K I s os of (out, os') \<Rightarrow>
     (\<exists>ns. prefix ns (concat (group_lists (scan s))) \<and> encoded (trace os') = encoded (trace os) @ ns)
   \<and> (\<forall>gs. out = Return (Inr gs) \<longrightarrow> list_all built gs
        \<and> map (\<lambda>g. config_names I (elems g)) gs = group_lists (scan s)
        \<and> encoded (trace os') = encoded (trace os) @ concat (group_lists (scan s))
        \<and> (\<forall>g \<in> set gs. \<forall>n \<in> set (config_names I (elems g)). tidy_name n))"
proof -
  obtain out os' where p: "parse_event_groups K I s os = (out, os')" by force
  then have b: "build_groups K I (scan s) [] os = (out, os')"
    using parse_scans [OF assms(2)] by metis
  have flat: "concat (map item_names items) = concat (group_lists items)" for items
    by (induction items) (auto simp: group_lists_def)
  note names = build_groups_names [OF assms(1) b, unfolded flat]
  have "tidy_name n" if "out = Return (Inr gs)" "g \<in> set gs" "n \<in> set (config_names I (elems g))" for gs g n
  proof -
    from names that(1) have "map (\<lambda>g. config_names I (elems g)) gs = group_lists (scan s)" by auto
    with that(2) have "config_names I (elems g) \<in> set (group_lists (scan s))" by (metis image_eqI list.set_map)
    with that(3) show ?thesis using group_lists_tidy by blast
  qed
  with names p show ?thesis by auto
qed

section \<open>A reference for the groups\<close>

text \<open>A fallible action for every element, in order, up to the first that does not give a result.\<close>

fun traverse ::
    "('a \<Rightarrow> 'w os \<Rightarrow> ('e + 'b) outcome \<times> 'w os) \<Rightarrow> 'a list \<Rightarrow> 'w os \<Rightarrow> ('e + 'b list) outcome \<times> 'w os" where
  "traverse f [] s = (Return (Inr []), s)"
| "traverse f (x # xs) s =
     (case f x s of
        (Return (Inr y), s1) \<Rightarrow> apfst (map_outcome (map_sum id ((#) y))) (traverse f xs s1)
      | (Return (Inl e), s1) \<Rightarrow> (Return (Inl e), s1)
      | (Panic m, s1) \<Rightarrow> (Panic m, s1)
      | (Undefined, s1) \<Rightarrow> (Undefined, s1))"

text \<open>
  What a text asks for, with no accumulator: each name is interned, by the function that its
  place calls for, and encoded by libpfm, the names of a group one after the other, the groups one
  after the other.
\<close>

definition encode_name ::
    "'w kernel \<Rightarrow> (string \<Rightarrow> ('e + 'n) outcome) \<Rightarrow> string \<Rightarrow> 'w os \<Rightarrow> ('e parse_error + 'n perf_config) outcome \<times> 'w os" where
  "encode_name K intern name s =
     (case intern name of
        Return (Inr n) \<Rightarrow> apfst (\<lambda>r. Return (map_sum Pfm id r)) (from_pfm_string K name n s)
      | Return (Inl e) \<Rightarrow> (Return (Inl (InternalNULL e)), s)
      | Panic m \<Rightarrow> (Panic m, s)
      | Undefined \<Rightarrow> (Undefined, s))"

fun encode_item ::
    "'w kernel \<Rightarrow> ('n, 'e) interner \<Rightarrow> item \<Rightarrow> 'w os \<Rightarrow> ('e parse_error + 'n perf_config list) outcome \<times> 'w os" where
  "encode_item K I (Bracketed names) s = traverse (encode_name K (\<lambda>n. Return (in_try_new I n))) names s"
| "encode_item K I (Bare name) s = traverse (encode_name K (\<lambda>n. map_outcome Inr (in_new I n))) [name] s"

definition as_groups :: "'n perf_config list list \<Rightarrow> 'n perf_config non_empty list" where
  "as_groups css = map NonEmpty (filter (\<lambda>cs. cs \<noteq> []) css)"

lemma collect_group_traverse:
  assumes "interner_laws I"
  shows "apfst Return (collect_group K I es s) = traverse (encode_name K (\<lambda>n. Return (in_try_new I n))) es s"
proof (induction es arbitrary: s)
  case (Cons e es)
  have "in_cstr I n = e" if "in_try_new I e = Inr n" for n using that assms by (simp add: interner_laws_def)
  with Cons [symmetric] show ?case
    by (auto simp: encode_name_def split: sum.splits prod.splits)
qed simp

lemma build_groups_encode:
  assumes "interner_laws I"
  shows "Bare [] \<notin> set items \<Longrightarrow> build_groups K I items gs s
    = apfst (map_outcome (map_sum id (\<lambda>css. gs @ as_groups css))) (traverse (encode_item K I) items s)"
proof (induction items arbitrary: gs s)
  case Nil
  then show ?case by (simp add: as_groups_def)
next
  case (Cons item items)
  let ?one = "case item of Bracketed names \<Rightarrow> parse_bracket K I names gs s | Bare name \<Rightarrow> parse_bare K I name gs s"
  have one: "?one = apfst (map_outcome (map_sum id (\<lambda>cs. gs @ as_groups [cs]))) (encode_item K I item s)"
  proof (cases item)
    case (Bracketed names)
    then show ?thesis
      by (auto simp: collect_group_traverse [OF assms, symmetric] parse_bracket_def from_iter_def as_groups_def
          split: prod.splits sum.splits)
  next
    case (Bare name)
    have "in_cstr I n = name" if "in_new I name = Return n" for n using that assms by (simp add: interner_laws_def)
    with Bare Cons.prems show ?thesis
      by (auto simp: parse_bare_def encode_name_def new_single_def as_groups_def
          split: prod.splits sum.splits outcome.splits)
  qed
  obtain r s1 where enc: "encode_item K I item s = (r, s1)" by force
  show ?case
  proof (cases "\<exists>cs. r = Return (Inr cs)")
    case True
    then obtain cs where r: "r = Return (Inr cs)" ..
    obtain q s2 where rest: "traverse (encode_item K I) items s1 = (q, s2)" by force
    from Cons.IH [of "gs @ as_groups [cs]" s1] Cons.prems one enc r rest show ?thesis
      by (cases q) (auto simp: as_groups_def sum.map_comp comp_def id_def)
  next
    case False
    with one enc show ?thesis by (auto split: outcome.splits sum.splits)
  qed
qed

section \<open>Joining and rendering\<close>

text \<open>Every bracket that the lexer opens is closed.\<close>

function brackets_closed :: "string \<Rightarrow> bool" where
  "brackets_closed s =
     (case dropWhile is_separator s of
        [] \<Rightarrow> True
      | c # cs \<Rightarrow>
          if c = CHR ''['' then
            dropWhile not_bracket cs \<noteq> [] \<and> brackets_closed (drop 1 (dropWhile not_bracket cs))
          else brackets_closed (dropWhile is_name_char cs))"
  by pat_completeness auto
termination
proof (relation "measure length", goal_cases)
  case (2 s c cs)
  from dropWhile_shorter [OF 2(1), of not_bracket] show ?case by simp
next
  case (3 s c cs)
  from dropWhile_shorter [OF 3(1), of is_name_char] show ?case by simp
qed simp

declare brackets_closed.simps [simp del]

lemma brackets_closed_cases:
  "dropWhile is_separator s = [] \<Longrightarrow> brackets_closed s"
  "dropWhile is_separator s = CHR ''['' # cs \<Longrightarrow> brackets_closed s \<longleftrightarrow>
     dropWhile not_bracket cs \<noteq> [] \<and> brackets_closed (drop 1 (dropWhile not_bracket cs))"
  "dropWhile is_separator s = c # cs \<Longrightarrow> c \<noteq> CHR ''['' \<Longrightarrow>
     brackets_closed s \<longleftrightarrow> brackets_closed (dropWhile is_name_char cs)"
  by (subst brackets_closed.simps; simp only: list.case if_True if_False refl)+

lemma scan_skip: "dropWhile is_separator s = dropWhile is_separator t \<Longrightarrow> scan s = scan t"
  by (subst (1 2) scan.simps) (simp only:)

lemma scan_comma: "scan (CHR '','' # t) = scan t"
  by (rule scan_skip) (simp add: is_separator_def)

lemma scan_append: "brackets_closed s \<Longrightarrow> scan (s @ CHR '','' # t) = scan s @ scan t"
proof (induction s rule: scan.induct)
  case (1 s)
  show ?case
  proof (cases "dropWhile is_separator s")
    case Nil
    then have "dropWhile is_separator (s @ CHR '','' # t) = dropWhile is_separator t"
      by (simp add: is_separator_def)
    from scan_skip [OF this] Nil show ?thesis by (simp add: scan_end)
  next
    case (Cons c cs)
    then have app: "dropWhile is_separator (s @ CHR '','' # t) = c # cs @ CHR '','' # t"
      by (metis append_Cons dropWhile_append dropWhile_eq_Nil_conv list.distinct(1))
    show ?thesis
    proof (cases "c = CHR ''[''")
      case True
      with Cons 1(3) brackets_closed_cases(2) have cl: "dropWhile not_bracket cs \<noteq> []"
          "brackets_closed (drop 1 (dropWhile not_bracket cs))" by auto
      then obtain x where "x \<in> set cs" "\<not> not_bracket x" by auto
      then have parts: "takeWhile not_bracket (cs @ CHR '','' # t) = takeWhile not_bracket cs"
          "dropWhile not_bracket (cs @ CHR '','' # t) = dropWhile not_bracket cs @ CHR '','' # t"
        by (auto simp: takeWhile_append dropWhile_append)
      have "drop 1 (dropWhile not_bracket (cs @ CHR '','' # t))
          = drop 1 (dropWhile not_bracket cs) @ CHR '','' # t"
        using cl(1) parts by (cases "dropWhile not_bracket cs") auto
      with 1(1) [OF Cons True cl(2)] parts True
        scan_bracket [OF app [unfolded True]] scan_bracket [OF Cons [unfolded True]]
      show ?thesis by simp
    next
      case False
      with Cons 1(3) brackets_closed_cases(3) have cl: "brackets_closed (dropWhile is_name_char cs)" by auto
      have "takeWhile is_name_char (cs @ CHR '','' # t) = takeWhile is_name_char cs"
          "dropWhile is_name_char (cs @ CHR '','' # t) = dropWhile is_name_char cs @ CHR '','' # t"
        by (induction cs) (auto simp: is_name_char_def)
      with 1(2) [OF Cons False cl] scan_bare [OF app False] scan_bare [OF Cons False] show ?thesis by simp
    qed
  qed
qed

lemma scan_join: "list_all brackets_closed ss \<Longrightarrow> scan (join_with CHR '','' ss) = concat (map scan ss)"
  by (induction "CHR '',''" ss rule: join_with.induct) (simp_all add: scan_append scan_end)

text \<open>
  The \<open>--events\<close> arguments may be given together or one by one: parsing the arguments
  joined with commas, as \<open>main\<close> does, encodes the groups of the first argument, then those of the
  second, and so on, as long as every bracket opened in an argument is closed in it.
\<close>

theorem parse_joined_arguments:
  assumes "list_all brackets_closed args" "utf8_like (join_with CHR '','' args)"
  shows "parse_event_groups K I (join_with CHR '','' args) os
    = build_groups K I (concat (map scan args)) [] os"
  using parse_scans [OF assms(2)] scan_join [OF assms(1)] by simp

theorem parse_joined_arguments_witness:
  "parse_event_groups idle_kernel plain_interner (join_with CHR '','' [''a'', ''b'']) (boot ())
    = build_groups idle_kernel plain_interner (concat (map scan [''a'', ''b''])) [] (boot ())"
  by (rule parse_joined_arguments)
    (auto simp: utf8_like_def continuation_def less_Suc_eq brackets_closed.simps is_separator_def
      is_ascii_whitespace_def is_name_char_def)

text \<open>The text of an item, for names that need no trimming.\<close>

fun render :: "item \<Rightarrow> string" where
  "render (Bracketed names) = CHR ''['' # join_with CHR '','' names @ '']''"
| "render (Bare name) = name"

definition plain_name :: "string \<Rightarrow> bool" where
  "plain_name n \<longleftrightarrow> n \<noteq> [] \<and> plain_char (hd n) \<and> plain_char (last n)
     \<and> set n \<inter> {CHR '','', CHR ''['', CHR '']''} = {}"

lemma plain_name_trim: "plain_name n \<Longrightarrow> trim n = n"
  by (simp add: plain_name_def trim_plain)

lemma group_names_join:
  assumes "list_all plain_name names"
  shows "group_names_of (join_with CHR '','' names) = names"
proof (cases names)
  case Nil
  then show ?thesis by (simp add: group_names_of_def)
next
  case (Cons n ns)
  have "map trim names = names" "filter (\<lambda>e. e \<noteq> []) names = names"
    using assms by (auto simp: list_all_iff plain_name_trim plain_name_def intro!: map_idI filter_True)
  moreover have "split_on CHR '','' (join_with CHR '','' names) = names"
    using Cons assms by (intro split_join) (auto simp: list_all_iff plain_name_def)
  ultimately show ?thesis by (simp add: group_names_of_def)
qed

lemma join_no_bracket:
  "list_all plain_name names \<Longrightarrow> c \<in> set (join_with CHR '','' names) \<Longrightarrow> not_bracket c"
  by (induction "CHR '',''" names rule: join_with.induct) (auto simp: not_bracket_def plain_name_def)

lemma plain_char_no_separator: "plain_char c \<Longrightarrow> c \<noteq> CHR '','' \<Longrightarrow> \<not> is_separator c"
  by (auto simp: plain_char_def is_separator_def is_ascii_whitespace_def)

lemma scan_render:
  assumes "list_all plain_name (item_names item)" "item \<noteq> Bare []"
  shows "scan (render item) = [item] \<and> brackets_closed (render item)"
proof (cases item)
  case (Bracketed names)
  let ?cs = "join_with CHR '','' names @ '']''"
  have start: "dropWhile is_separator (render item) = CHR ''['' # ?cs"
    using Bracketed by (simp add: is_separator_def is_ascii_whitespace_def)
  have names: "list_all plain_name names" using assms(1) Bracketed by simp
  have parts: "takeWhile not_bracket ?cs = join_with CHR '','' names" "dropWhile not_bracket ?cs = '']''"
    using join_no_bracket [OF names] by (auto simp: takeWhile_append dropWhile_append not_bracket_def)
  have "scan [] = []" "brackets_closed []" by (simp_all add: scan_end brackets_closed_cases)
  with scan_bracket [OF start] brackets_closed_cases(2) [OF start] parts group_names_join [OF names] Bracketed
  show ?thesis by simp
next
  case (Bare name)
  with assms have n: "plain_name name" by (auto split: if_splits)
  then obtain c cs where name: "name = c # cs" by (cases name) (auto simp: plain_name_def)
  have c: "\<not> is_separator c" "c \<noteq> CHR ''[''"
    using n name plain_char_no_separator by (auto simp: plain_name_def)
  have rest: "\<forall>x \<in> set cs. is_name_char x" using n name by (auto simp: plain_name_def is_name_char_def)
  have start: "dropWhile is_separator (render item) = c # cs" using Bare name c by simp
  have parts: "takeWhile is_name_char cs = cs" "dropWhile is_name_char cs = []" using rest by auto
  have "scan [] = []" "brackets_closed []" by (simp_all add: scan_end brackets_closed_cases)
  with scan_bare [OF start c(2)] brackets_closed_cases(3) [OF start c(2)] parts plain_name_trim [OF n] Bare name
  show ?thesis by simp
qed

text \<open>
  \<^bold>\<open>C20.\<close> Every list of groups can be written down and read back. The rendering of any list of
  brackets and bare names, over names without commas and brackets that begin and end with a visible
  ASCII character, is parsed as the reference says: the names are interned and encoded in the order
  in which they are written, each item gives one group (an empty bracket none) of the configurations
  of its names, the groups come in the order of the items, and the first failure ends it. When
  it succeeds, the names of the groups are, group by group, those that were written.
\<close>

theorem parse_rendered_items:
  assumes "interner_laws I" "\<forall>item \<in> set items. item \<noteq> Bare [] \<and> list_all plain_name (item_names item)"
    and "utf8_like (join_with CHR '','' (map render items))"
    and "parse_event_groups K I (join_with CHR '','' (map render items)) s = (out, s')"
  shows "(out, s') = apfst (map_outcome (map_sum id as_groups)) (traverse (encode_item K I) items s)
    \<and> (\<forall>gs. out = Return (Inr gs) \<longrightarrow>
          map (\<lambda>g. config_names I (elems g)) gs = filter (\<lambda>ns. ns \<noteq> []) (map item_names items))"
proof -
  have "list_all brackets_closed (map render items)" "concat (map scan (map render items)) = items"
    using assms(2) scan_render by (induction items) auto
  with scan_join have "scan (join_with CHR '','' (map render items)) = items" by metis
  with parse_scans [OF assms(3)] assms(4) have build: "build_groups K I items [] s = (out, s')" by metis
  have "Bare [] \<notin> set items" using assms(2) by auto
  from build_groups_encode [OF assms(1) this, of K "[]"] build_groups_names [OF assms(1) build] build
  show ?thesis by (auto simp: group_lists_def)
qed

theorem parse_rendered_items_witness:
  "\<exists>gs s'. parse_event_groups idle_kernel plain_interner ''a,[b,c]'' (boot ()) = (Return (Inr gs), s')
    \<and> map (\<lambda>g. config_names plain_interner (elems g)) gs = [[''a''], [''b'', ''c'']]"
proof -
  let ?items = "[Bare ''a'', Bracketed [''b'', ''c'']]"
  obtain out s' where run: "parse_event_groups idle_kernel plain_interner ''a,[b,c]'' (boot ()) = (out, s')" by force
  have "(out, s') = apfst (map_outcome (map_sum id as_groups)) (traverse (encode_item idle_kernel plain_interner) ?items (boot ()))
    \<and> (\<forall>gs. out = Return (Inr gs) \<longrightarrow>
          map (\<lambda>g. config_names plain_interner (elems g)) gs = filter (\<lambda>ns. ns \<noteq> []) (map item_names ?items))"
    by (rule parse_rendered_items [OF plain_interner_laws])
      (use run in \<open>auto simp: utf8_like_def continuation_def less_Suc_eq plain_name_def plain_char_def\<close>)
  then have *: "\<exists>gs. out = Return (Inr gs)" "\<forall>gs. out = Return (Inr gs) \<longrightarrow>
      map (\<lambda>g. config_names plain_interner (elems g)) gs = [[''a''], [''b'', ''c'']]"
    by (simp_all add: encode_name_def plain_interner_def from_pfm_string_def pfm_force_def get_perf_attr_array_def
        os_simps idle_kernel_def boot_def PFM_SUCCESS_def Let_def)
  with run show ?thesis by auto
qed

text \<open>Two groups that are parsed with success, and their names.\<close>

lemma parse_two_groups:
  "\<exists>gs s'. parse_event_groups idle_kernel plain_interner ''a,[b]'' (boot ()) = (Return (Inr gs), s')
     \<and> group_lists (scan ''a,[b]'') = [[''a''], [''b'']]"
proof -
  have utf: "utf8_like ''a,[b]''" by (auto simp: utf8_like_def continuation_def less_Suc_eq)
  have "list_all plain_name [''a'', ''b'']" by (simp add: plain_name_def plain_char_def)
  then have "scan ''a'' = [Bare ''a''] \<and> brackets_closed ''a''" "scan ''[b]'' = [Bracketed [''b'']] \<and> brackets_closed ''[b]''"
    using scan_render [of "Bare ''a''"] scan_render [of "Bracketed [''b'']"] by simp_all
  then have items: "scan ''a,[b]'' = [Bare ''a'', Bracketed [''b'']]"
    using scan_join [of "[''a'', ''[b]'']"] by simp
  show ?thesis
    unfolding parse_scans [OF utf] items
    by (simp add: group_lists_def parse_bare_def parse_bracket_def plain_interner_def from_pfm_string_def
        pfm_force_def get_perf_attr_array_def os_simps idle_kernel_def boot_def PFM_SUCCESS_def Let_def from_iter_def)
qed

theorem parse_event_groups_names_witness:
  "\<exists>gs s'. parse_event_groups idle_kernel plain_interner ''a,[b]'' (boot ()) = (Return (Inr gs), s')
     \<and> map (\<lambda>g. config_names plain_interner (elems g)) gs = [[''a''], [''b'']]"
proof -
  have utf: "utf8_like ''a,[b]''" by (auto simp: utf8_like_def continuation_def less_Suc_eq)
  from parse_event_groups_names [OF plain_interner_laws utf, where K = idle_kernel and os = "boot ()"]
    parse_two_groups show ?thesis by auto
qed

end
