(* ===== verification/Monitor_State.thy ===== *)
theory Monitor_State
  imports Csv_Writer Perf_Group Parse_Perf Message Poll
begin

text \<open>
  The monitor's state and its operations (\<open>threadstat-shared/src/state.rs\<close>) and the handler of the
  message queue (\<open>handlers.rs\<close>). The \<open>HashMap\<close> from threads to their groups is an association
  list with distinct keys, in the order of insertion; the order in which the code iterates over
  it is the hash map's, a parameter of the model. The increment of \<open>read_id\<close> wraps, as in the
  release build. Lines on stderr are calls of the trace.
\<close>

section \<open>The environment and the state\<close>

text \<open>
  What the operations are given from outside: the kernel, the casts of the crate zerocopy, the
  text of an interned name, and the iteration order of a \<open>HashMap\<close> with the given keys.
\<close>

record ('n, 'w) env =
  kern :: "'w kernel"
  casts :: zerocopy
  name_str :: "'n \<Rightarrow> string"
  map_order :: "i32 list \<Rightarrow> i32 list"

definition map_order_laws :: "('n, 'w) env \<Rightarrow> bool" where
  "map_order_laws E \<longleftrightarrow> (\<forall>ks. mset (map_order E ks) = mset ks)"

record 'n state =
  event_configs :: "'n perf_config non_empty list"
  groups :: "(i32 \<times> 'n perf_stat_group list) list"
  reader :: perf_group_reader
  csv :: csv_writer
  read_id :: u64

section \<open>Opening a thread\<close>

text \<open>The \<open>filter_map\<close> over the configurations; a failure is reported and left out.\<close>

fun open_groups ::
    "('n, 'w) env \<Rightarrow> i32 \<Rightarrow> 'n perf_config non_empty list \<Rightarrow> 'w os \<Rightarrow> 'n perf_stat_group list \<times> 'w os" where
  "open_groups E t [] s = ([], s)"
| "open_groups E t (config # configs) s =
     (case group_new (kern E) (elems config) (sint t) s of
        (Inl e, s1) \<Rightarrow> open_groups E t configs (eprintln (OpenEventsFailed t e) s1)
      | (Inr g, s1) \<Rightarrow> (case open_groups E t configs s1 of (gs, s2) \<Rightarrow> (g # gs, s2)))"

text \<open>The inner loop over \<open>name_and_ids().filter_map(Result::ok)\<close>.\<close>

fun describe_group ::
    "('n, 'w) env \<Rightarrow> i32 \<Rightarrow> 'n perf_stat list \<Rightarrow> csv_writer \<Rightarrow> 'w os \<Rightarrow> csv_writer \<times> 'w os" where
  "describe_group E t [] c s = (c, s)"
| "describe_group E t (ps # pss) c s =
     (case name_and_id (kern E) ps s of
        (Inl e, s1) \<Rightarrow> describe_group E t pss c s1
      | (Inr (name, i), s1) \<Rightarrow>
          (case write_desc (kern E) i (name_str E name) t c s1 of
             (Inl e, c', s2) \<Rightarrow> describe_group E t pss c' (eprintln (DescWriteError e) s2)
           | (Inr _, c', s2) \<Rightarrow> describe_group E t pss c' s2))"

fun describe_groups ::
    "('n, 'w) env \<Rightarrow> i32 \<Rightarrow> 'n perf_stat_group list \<Rightarrow> csv_writer \<Rightarrow> 'w os \<Rightarrow> csv_writer \<times> 'w os" where
  "describe_groups E t [] c s = (c, s)"
| "describe_groups E t (g # gs) c s =
     (case describe_group E t (elems (pg_fds g)) c s of (c', s') \<Rightarrow> describe_groups E t gs c' s')"

definition open_tid :: "('n, 'w) env \<Rightarrow> i32 \<Rightarrow> 'n state \<Rightarrow> 'w os \<Rightarrow> 'n state \<times> 'w os" where
  "open_tid E t st s =
     (if map_of (groups st) t \<noteq> None then (st, s)
      else case open_groups E t (event_configs st) s of (tid_groups, s1) \<Rightarrow>
        (case describe_groups E t tid_groups (csv st) s1 of (c, s2) \<Rightarrow>
           (st\<lparr>csv := c, groups := AList.update t tid_groups (groups st)\<rparr>, s2)))"

section \<open>Flushing\<close>

fun write_events ::
    "('n, 'w) env \<Rightarrow> u64 \<Rightarrow> event_info list \<Rightarrow> csv_writer \<Rightarrow> 'w os \<Rightarrow> csv_writer \<times> 'w os" where
  "write_events E rid [] c s = (c, s)"
| "write_events E rid (e # es) c s =
     (case write_event (kern E) rid (ei_count e) (ei_id e) c s of
        (Inl err, c', s') \<Rightarrow> write_events E rid es c' (eprintln (EventWriteError err) s')
      | (Inr _, c', s') \<Rightarrow> write_events E rid es c' s')"

text \<open>
  \<open>SystemTime::now().duration_since(UNIX_EPOCH).unwrap_or_default().as_nanos()\<close>: the clock gives
  signed nanoseconds since the epoch, and a time before it counts as zero.
\<close>

definition timestamp :: "('n, 'w) env \<Rightarrow> 'w os \<Rightarrow> nat \<times> 'w os" where
  "timestamp E s = (case sys_now (kern E) s of (t, s') \<Rightarrow> (nat t, s'))"

definition write_sample ::
    "('n, 'w) env \<Rightarrow> u64 \<Rightarrow> nat \<Rightarrow> group_info \<Rightarrow> event_info list \<Rightarrow> csv_writer \<Rightarrow> 'w os \<Rightarrow> csv_writer \<times> 'w os" where
  "write_sample E rid ts info events c s =
     (case write_read (kern E) rid ts (gi_time_running info) (gi_time_enabled info) c s of
        (Inl e, c1, s1) \<Rightarrow> write_events E rid events c1 (eprintln (ReadWriteError e) s1)
      | (Inr _, c1, s1) \<Rightarrow> write_events E rid events c1 s1)"

fun flush_groups ::
    "('n, 'w) env \<Rightarrow> 'n perf_stat_group list \<Rightarrow> i32 \<Rightarrow> perf_group_reader \<Rightarrow> csv_writer \<Rightarrow> u64 \<Rightarrow> 'w os \<Rightarrow>
       unit outcome \<times> perf_group_reader \<times> csv_writer \<times> u64 \<times> 'w os" where
  "flush_groups E [] t rd c rid s = (Return (), rd, c, rid, s)"
| "flush_groups E (g # gs) t rd c rid s =
     (case timestamp E s of (ts, s1) \<Rightarrow>
        (case read_group (kern E) (casts E) g rd s1 of
           (Panic m, rd', s2) \<Rightarrow> (Panic m, rd', c, rid + 1, s2)
         | (Undefined, rd', s2) \<Rightarrow> (Undefined, rd', c, rid + 1, s2)
         | (Return (Inl e), rd', s2) \<Rightarrow> flush_groups E gs t rd' c (rid + 1) (eprintln (GroupReadError t e) s2)
         | (Return (Inr (info, events)), rd', s2) \<Rightarrow>
             (case write_sample E rid ts info events c s2 of (c', s3) \<Rightarrow>
                flush_groups E gs t rd' c' (rid + 1) s3)))"

definition flush_into ::
    "('n, 'w) env \<Rightarrow> 'n perf_stat_group list \<Rightarrow> i32 \<Rightarrow> 'n state \<Rightarrow> 'w os \<Rightarrow> unit outcome \<times> 'n state \<times> 'w os" where
  "flush_into E gs t st s =
     (case flush_groups E gs t (reader st) (csv st) (read_id st) s of (out, rd, c, rid, s') \<Rightarrow>
        (out, st\<lparr>reader := rd, csv := c, read_id := rid\<rparr>, s'))"

text \<open>Dropping a slice of groups drops each in order.\<close>

definition drop_groups :: "'w kernel \<Rightarrow> 'n perf_stat_group list \<Rightarrow> 'w os \<Rightarrow> 'w os" where
  "drop_groups K gs s = fold (\<lambda>g s. group_drop K g s) gs s"

text \<open>The removed groups are dropped at the end of the block, also when it unwinds.\<close>

definition close_tid ::
    "('n, 'w) env \<Rightarrow> i32 \<Rightarrow> 'n state \<Rightarrow> 'w os \<Rightarrow> unit outcome \<times> 'n state \<times> 'w os" where
  "close_tid E t st s =
     (case map_of (groups st) t of
        None \<Rightarrow> (Return (), st, s)
      | Some gs \<Rightarrow>
          (case flush_into E gs t (st\<lparr>groups := AList.delete t (groups st)\<rparr>) s of (out, st', s') \<Rightarrow>
             (out, st', drop_groups (kern E) gs s')))"

fun flush_tids ::
    "('n, 'w) env \<Rightarrow> i32 list \<Rightarrow> 'n state \<Rightarrow> 'w os \<Rightarrow> unit outcome \<times> 'n state \<times> 'w os" where
  "flush_tids E [] st s = (Return (), st, s)"
| "flush_tids E (t # ts) st s =
     (case flush_into E (case map_of (groups st) t of None \<Rightarrow> [] | Some gs \<Rightarrow> gs) t st s of
        (Return _, st', s') \<Rightarrow> flush_tids E ts st' s'
      | halted \<Rightarrow> halted)"

definition flush_all :: "('n, 'w) env \<Rightarrow> 'n state \<Rightarrow> 'w os \<Rightarrow> unit outcome \<times> 'n state \<times> 'w os" where
  "flush_all E st s = flush_tids E (map_order E (map fst (groups st))) st s"

section \<open>Making and dropping the state\<close>

definition state_new ::
    "'w kernel \<Rightarrow> 'n perf_config non_empty list \<Rightarrow> string \<Rightarrow> 'w os \<Rightarrow> 'n state outcome \<times> 'w os" where
  "state_new K configs folder s =
     (case csv_open K folder s of
        (Inl e, s') \<Rightarrow> (Panic ''Failed To Open CSV's in output Folder'', s')
      | (Inr c, s') \<Rightarrow>
          (Return \<lparr>event_configs = configs, groups = [], reader = reader_default, csv = c, read_id = 0\<rparr>, s'))"

text \<open>The fields in the order of their declaration; the map drops its values as it iterates.\<close>

definition state_drop :: "('n, 'w) env \<Rightarrow> 'n state \<Rightarrow> 'w os \<Rightarrow> 'w os" where
  "state_drop E st s =
     csv_drop (kern E) (csv st) (reader_drop (kern E) (reader st)
       (fold (\<lambda>t s. drop_groups (kern E) (the (map_of (groups st) t)) s)
          (map_order E (map fst (groups st))) s))"

section \<open>The handler of the queue (\<open>handlers.rs\<close>)\<close>

definition queue_handler ::
    "('n, 'w) env \<Rightarrow> mq_reader \<Rightarrow> 'n state \<Rightarrow> 'w os \<Rightarrow>
       (io_error + poll_action) outcome \<times> mq_reader \<times> 'n state \<times> 'w os" where
  "queue_handler E mq st s =
     (case message_read (kern E) mq s of
        (Panic m, s1) \<Rightarrow> (Panic m, mq, st, s1)
      | (Undefined, s1) \<Rightarrow> (Undefined, mq, st, s1)
      | (Return (Inl e), s1) \<Rightarrow> (Return (Inr Continue), mq, st, eprintln (MqueueReadError e) s1)
      | (Return (Inr raw), s1) \<Rightarrow>
          (case try_from raw of
             Inl e \<Rightarrow> (Return (Inr Continue), mq, st, eprintln (BadMessage e) s1)
           | Inr msg \<Rightarrow>
               (case flag msg of
                  AddProcess \<Rightarrow>
                    (case open_tid E (tid msg) st s1 of (st', s2) \<Rightarrow> (Return (Inr Continue), mq, st', s2))
                | RemoveProcess \<Rightarrow>
                    (case close_tid E (tid msg) st s1 of
                       (Return _, st', s2) \<Rightarrow> (Return (Inr Continue), mq, st', s2)
                     | (Panic m, st', s2) \<Rightarrow> (Panic m, mq, st', s2)
                     | (Undefined, st', s2) \<Rightarrow> (Undefined, mq, st', s2)))))"

section \<open>Descriptors held\<close>

text \<open>
  \<open>conserves a s b s'\<close>: between \<open>s\<close> and \<open>s'\<close> the counters opened, together with those held
  before (\<open>a\<close>), are those closed together with those held after (\<open>b\<close>).
\<close>

definition conserves :: "int multiset \<Rightarrow> 'w os \<Rightarrow> int multiset \<Rightarrow> 'w os \<Rightarrow> bool" where
  "conserves a s b s' \<longleftrightarrow> (\<exists>d. trace s' = trace s @ d \<and> fds_opened d + a = fds_closed d + b)"

lemma conserves_refl [simp]: "conserves a s a s"
  by (simp add: conserves_def)

lemma conserves_trans: "conserves a s1 b s2 \<Longrightarrow> conserves b s2 c s3 \<Longrightarrow> conserves a s1 c s3"
proof -
  assume "conserves a s1 b s2" "conserves b s2 c s3"
  then obtain d e where "trace s2 = trace s1 @ d" "fds_opened d + a = fds_closed d + b"
      "trace s3 = trace s2 @ e" "fds_opened e + b = fds_closed e + c" by (auto simp: conserves_def)
  moreover from calculation have "fds_opened (d @ e) + a = fds_closed (d @ e) + c"
    by (metis add.assoc add.commute fds_closed_simps(3) fds_opened_simps(3))
  ultimately show ?thesis unfolding conserves_def by (metis append_assoc)
qed

lemma conserves_add: "conserves a s b s' \<Longrightarrow> conserves (a + x) s (b + x) s'"
  by (auto simp: conserves_def add.assoc [symmetric])

text \<open>A step that opens no counter and closes nothing.\<close>

definition quiet :: "'w os \<Rightarrow> 'w os \<Rightarrow> bool" where
  "quiet s s' \<longleftrightarrow> (\<exists>d. trace s' = trace s @ d \<and> fds_opened d = {#} \<and> fds_closed d = {#})"

lemma quiet_refl [simp]: "quiet s s"
  by (simp add: quiet_def)

lemma quiet_trans: "quiet s1 s2 \<Longrightarrow> quiet s2 s3 \<Longrightarrow> quiet s1 s3"
  by (auto simp: quiet_def)

lemma quiet_conserves: "quiet s s' \<Longrightarrow> conserves a s a s'"
  by (auto simp: quiet_def conserves_def)

text \<open>A step that, besides, writes to no file: the texts of all files stay what they are.\<close>

definition inert_call :: "call \<Rightarrow> bool" where
  "inert_call c \<longleftrightarrow> opened_fd c = {#} \<and> closed_fd c = {#} \<and> (\<forall>fd. written_by fd c = [])"

definition inert :: "'w os \<Rightarrow> 'w os \<Rightarrow> bool" where
  "inert s s' \<longleftrightarrow> (\<exists>d. trace s' = trace s @ d \<and> list_all inert_call d)"

lemma inert_quiet: "inert s s' \<Longrightarrow> quiet s s'"
proof -
  assume "inert s s'"
  then obtain d where d: "trace s' = trace s @ d" "list_all inert_call d" by (auto simp: inert_def)
  from d(2) have "fds_opened d = {#} \<and> fds_closed d = {#}" by (induction d) (auto simp: inert_call_def)
  with d(1) show ?thesis by (auto simp: quiet_def)
qed

lemma inert_trans: "inert s1 s2 \<Longrightarrow> inert s2 s3 \<Longrightarrow> inert s1 s3"
  by (auto simp: inert_def)

lemma inert_eprintln [simp]: "inert s (eprintln d s)"
  by (simp add: inert_def inert_call_def)

lemma quiet_eprintln [simp]: "quiet s (eprintln d s)"
  by (rule inert_quiet) simp

lemma quiet_log: "quiet s1 s2 \<Longrightarrow> quiet (eprintln d s2) s3 \<Longrightarrow> quiet s1 s3"
  using quiet_trans quiet_eprintln by blast

lemma quiet_writes: "only_writes fd s s' \<Longrightarrow> quiet s s'"
proof -
  assume "only_writes fd s s'"
  then obtain d where d: "trace s' = trace s @ d" "\<forall>c \<in> set d. \<exists>bs. c = CFileWrite fd bs"
    by (auto simp: only_writes_def)
  from d(2) have "fds_opened d = {#} \<and> fds_closed d = {#}" by (induction d) auto
  with d(1) show ?thesis by (auto simp: quiet_def)
qed

lemma quiet_write_event: "write_event K r cnt i c s = (res, c', s') \<Longrightarrow> quiet s s'"
  by (auto simp: write_event_def split: prod.splits dest!: write_pieces_only intro: quiet_writes)

lemma quiet_write_read: "write_read K r t a b c s = (res, c', s') \<Longrightarrow> quiet s s'"
  by (auto simp: write_read_def split: prod.splits dest!: write_pieces_only intro: quiet_writes)

lemma quiet_write_desc: "write_desc K i n t c s = (res, c', s') \<Longrightarrow> quiet s s'"
  by (auto simp: write_desc_def split: prod.splits dest!: write_pieces_only intro: quiet_writes)

lemma inert_name_and_id: "name_and_id K ps s = (r, s') \<Longrightarrow> inert s s'"
  by (auto simp: name_and_id_def get_id_def inert_def inert_call_def split: prod.splits if_splits dest!: sys_ioctl_id_trace)

lemma inert_timestamp: "timestamp E s = (t, s') \<Longrightarrow> inert s s'"
  by (auto simp: timestamp_def inert_def inert_call_def split: prod.splits dest!: sys_now_trace)

lemma inert_ensure_sized: "ensure_sized K n rd s = (r, rd', s') \<Longrightarrow> inert s s'"
  by (auto simp: ensure_sized_def inert_def inert_call_def Let_def split: option.splits prod.splits if_splits
      dest!: sys_alloc_trace sys_realloc_trace)

lemma inert_group_read: "group_read K Z g a buf s = (r, buf', s') \<Longrightarrow> inert s s'"
  by (auto simp: group_read_def inert_def inert_call_def Let_def split: outcome.splits prod.splits dest!: sys_read_trace)

lemma inert_read_group:
  assumes "read_group K Z g rd s = (r, rd', s')" shows "inert s s'"
proof -
  obtain r1 rd1 s1 where sized: "ensure_sized K (group_len g) rd s = (r1, rd1, s1)" by (metis prod_cases3)
  note q1 = inert_ensure_sized [OF sized]
  show ?thesis
  proof (cases "\<exists>b. r1 = Return () \<and> rd1 = Some b")
    case False
    with assms sized q1 show ?thesis by (auto simp: read_group_def split: outcome.splits option.splits)
  next
    case True
    then obtain b where r1: "r1 = Return ()" "rd1 = Some b" by blast
    let ?n = "necessary_buffer_size (group_len g)"
    obtain out buf s2 where rd: "group_read K Z g (blk_addr b) (take ?n (blk_mem b)) s1 = (out, buf, s2)"
      by (metis prod_cases3)
    with assms sized r1 have "s' = s2" by (auto simp: read_group_def Let_def)
    with q1 inert_group_read [OF rd] show ?thesis by (auto intro: inert_trans)
  qed
qed

lemmas quiet_name_and_id = inert_quiet [OF inert_name_and_id]
lemmas quiet_timestamp = inert_quiet [OF inert_timestamp]
lemmas quiet_read_group = inert_quiet [OF inert_read_group]

lemma quiet_describe_group: "describe_group E t pss c s = (c', s') \<Longrightarrow> quiet s s'"
proof (induction E t pss c s rule: describe_group.induct)
  case (2 E t ps pss c s)
  then show ?case
    by (fastforce split: prod.splits sum.splits
        dest: quiet_name_and_id quiet_write_desc intro: quiet_trans quiet_eprintln)
qed simp

lemma quiet_describe_groups: "describe_groups E t gs c s = (c', s') \<Longrightarrow> quiet s s'"
proof (induction gs arbitrary: c s)
  case (Cons g gs)
  obtain c1 s1 where one: "describe_group E t (elems (pg_fds g)) c s = (c1, s1)" by force
  with Cons quiet_describe_group [OF one] show ?case by (auto intro: quiet_trans)
qed simp

lemma quiet_write_events: "write_events E rid es c s = (c', s') \<Longrightarrow> quiet s s'"
proof (induction es arbitrary: c s)
  case (Cons e es)
  obtain r c1 s1 where one: "write_event (kern E) rid (ei_count e) (ei_id e) c s = (r, c1, s1)"
    by (metis prod_cases3)
  with Cons quiet_write_event [OF one] show ?case
    by (cases r) (auto intro: quiet_trans quiet_log)
qed simp

lemma quiet_write_sample: "write_sample E rid ts info es c s = (c', s') \<Longrightarrow> quiet s s'"
  by (auto simp: write_sample_def split: prod.splits sum.splits
      dest!: quiet_write_read quiet_write_events intro: quiet_trans quiet_log)

lemma quiet_flush_groups: "flush_groups E gs t rd c rid s = (out, rd', c', rid', s') \<Longrightarrow> quiet s s'"
proof (induction gs arbitrary: rd c rid s)
  case (Cons g gs)
  obtain ts s1 where now: "timestamp E s = (ts, s1)" by force
  obtain r rd1 s2 where read: "read_group (kern E) (casts E) g rd s1 = (r, rd1, s2)" by (metis prod_cases3)
  have q: "quiet s s2" using quiet_trans quiet_timestamp [OF now] quiet_read_group [OF read] by blast
  show ?case
  proof (cases r)
    case (Return v)
    show ?thesis
    proof (cases v)
      case (Inl e)
      with Cons.prems Return now read
      have "flush_groups E gs t rd1 c (rid + 1) (eprintln (GroupReadError t e) s2) = (out, rd', c', rid', s')"
        by simp
      from quiet_log [OF q Cons.IH [OF this]] show ?thesis .
    next
      case (Inr w)
      obtain info events where w: "w = (info, events)" by force
      obtain c1 s3 where wr: "write_sample E rid ts info events c s2 = (c1, s3)" by force
      with Cons.prems Return Inr w now read
      have "flush_groups E gs t rd1 c1 (rid + 1) s3 = (out, rd', c', rid', s')" by simp
      from Cons.IH [OF this] q quiet_write_sample [OF wr] show ?thesis by (blast intro: quiet_trans)
    qed
  qed (use Cons.prems now read q in auto)
qed simp

lemma inert_message_read: "message_read K q s = (r, s') \<Longrightarrow> inert s s'"
  by (auto simp: message_read_def mq_read_def inert_def inert_call_def split: prod.splits if_splits outcome.splits
      dest!: sys_mq_receive_trace)

lemmas quiet_message_read = inert_quiet [OF inert_message_read]

section \<open>What the state holds\<close>

definition groups_fds :: "'n perf_stat_group list \<Rightarrow> int multiset" where
  "groups_fds gs = sum_list (map group_fds gs)"

definition state_fds :: "'n state \<Rightarrow> int multiset" where
  "state_fds st = sum_list (map (\<lambda>e. groups_fds (snd e)) (groups st))"

definition monitored :: "'n state \<Rightarrow> i32 set" where
  "monitored st = fst ` set (groups st)"

definition distinct_tids :: "'n state \<Rightarrow> bool" where
  "distinct_tids st \<longleftrightarrow> distinct (map fst (groups st))"

lemma groups_fds_simps [simp]:
  "groups_fds [] = {#}" "groups_fds (g # gs) = group_fds g + groups_fds gs"
  by (simp_all add: groups_fds_def)

lemma map_of_None_monitored: "map_of (groups st) t = None \<longleftrightarrow> t \<notin> monitored st"
  by (simp add: monitored_def map_of_eq_None_iff)

lemma update_new_key: "t \<notin> fst ` set al \<Longrightarrow> AList.update t v al = al @ [(t, v)]"
  by (induction al) auto

lemma delete_dom: "fst ` set (AList.delete t al) = fst ` set al - {t}"
  by (metis AList.delete_keys list.set_map set_removeAll)

lemma delete_fds:
  "distinct (map fst al) \<Longrightarrow> map_of al t = Some gs \<Longrightarrow>
     sum_list (map (\<lambda>e. groups_fds (snd e)) al)
       = groups_fds gs + sum_list (map (\<lambda>e. groups_fds (snd e)) (AList.delete t al))"
proof (induction al)
  case (Cons e al)
  obtain t' gs' where e: "e = (t', gs')" by force
  show ?case
  proof (cases "t' = t")
    case True
    with Cons.prems e have "t \<notin> fst ` set al" by auto
    then have "AList.delete t al = al" by simp
    with True Cons.prems e show ?thesis by simp
  next
    case False
    with Cons e show ?thesis by (simp add: add.left_commute)
  qed
qed simp

section \<open>Conservation of descriptors\<close>

lemma open_groups_conserves: "open_groups E t configs s = (gs, s') \<Longrightarrow> conserves {#} s (groups_fds gs) s'"
proof (induction configs arbitrary: s gs)
  case (Cons config configs)
  obtain r s1 where new: "group_new (kern E) (elems config) (sint t) s = (r, s1)" by force
  have one: "conserves {#} s (case r of Inl _ \<Rightarrow> {#} | Inr g \<Rightarrow> group_fds g) s1"
    using group_new_balance [where K = "kern E" and configs = "elems config" and pid = "sint t" and s = s] new by (auto simp: conserves_def)
  show ?case
  proof (cases r)
    case (Inl e)
    with Cons.prems new have rest: "open_groups E t configs (eprintln (OpenEventsFailed t e) s1) = (gs, s')"
      by simp
    from one Inl have "conserves {#} s {#} (eprintln (OpenEventsFailed t e) s1)"
      using conserves_trans quiet_conserves [OF quiet_eprintln] by fastforce
    then show ?thesis using Cons.IH [OF rest] by (rule conserves_trans)
  next
    case (Inr g)
    obtain gs1 where rest: "open_groups E t configs s1 = (gs1, s')" and gs: "gs = g # gs1"
      using Cons.prems new Inr by (auto split: prod.splits)
    from conserves_add [OF Cons.IH [OF rest], of "group_fds g"]
    have "conserves (group_fds g) s1 (groups_fds gs) s'" using gs by (simp add: add.commute)
    with one Inr show ?thesis by (auto intro: conserves_trans)
  qed
qed simp

lemma drop_groups_trace:
  "\<exists>d. trace (drop_groups K gs s) = trace s @ d \<and> fds_opened d = {#} \<and> fds_closed d = groups_fds gs"
proof (induction gs arbitrary: s)
  case (Cons g gs)
  from Cons [of "group_drop K g s"] obtain d where
    "trace (drop_groups K gs (group_drop K g s)) = trace (group_drop K g s) @ d"
    "fds_opened d = {#}" "fds_closed d = groups_fds gs" by blast
  then show ?case
    by (intro exI [of _ "map (\<lambda>ps. CClose (ps_fd ps)) (elems (pg_fds g)) @ d"])
      (simp add: drop_groups_def group_drop_def close_all_trace group_fds_def)
qed (simp add: drop_groups_def)

lemma drop_groups_conserves: "conserves (groups_fds gs + a) s a (drop_groups K gs s)"
  using drop_groups_trace [of K gs s] by (auto simp: conserves_def)

lemma open_tid_conserves:
  assumes "open_tid E t st s = (st', s')"
  shows "conserves (state_fds st) s (state_fds st') s'"
proof (cases "map_of (groups st) t")
  case None
  obtain gs s1 where op: "open_groups E t (event_configs st) s = (gs, s1)" by force
  obtain c s2 where de: "describe_groups E t gs (csv st) s1 = (c, s2)" by force
  from assms None op de have st': "st' = st\<lparr>csv := c, groups := AList.update t gs (groups st)\<rparr>" "s' = s2"
    by (auto simp: open_tid_def)
  have "t \<notin> fst ` set (groups st)" using None by (simp add: map_of_eq_None_iff)
  then have "state_fds st' = state_fds st + groups_fds gs"
    by (simp add: st' state_fds_def update_new_key)
  moreover have "conserves {#} s (groups_fds gs) s2"
    using conserves_trans [OF open_groups_conserves [OF op] quiet_conserves [OF quiet_describe_groups [OF de]]] .
  ultimately show ?thesis using conserves_add [of "{#}" s "groups_fds gs" s2 "state_fds st"] st'
    by (simp add: add.commute)
qed (use assms in \<open>auto simp: open_tid_def\<close>)

lemma flush_into_quiet:
  assumes "flush_into E gs t st s = (out, st', s')"
  shows "quiet s s'" "groups st' = groups st" "event_configs st' = event_configs st"
  using assms quiet_flush_groups [of E gs t "reader st" "csv st" "read_id st" s]
  by (auto simp: flush_into_def split: prod.splits)

lemma close_tid_conserves:
  assumes "distinct_tids st" "close_tid E t st s = (out, st', s')"
  shows "conserves (state_fds st) s (state_fds st') s'"
proof (cases "map_of (groups st) t")
  case (Some gs)
  obtain o1 st1 s1 where fl: "flush_into E gs t (st\<lparr>groups := AList.delete t (groups st)\<rparr>) s = (o1, st1, s1)"
    by (metis prod_cases3)
  from assms(2) Some fl have res: "st' = st1" "s' = drop_groups (kern E) gs s1" by (auto simp: close_tid_def)
  from flush_into_quiet [OF fl] have st1: "groups st1 = AList.delete t (groups st)" by simp
  have "state_fds st = groups_fds gs + state_fds st'"
    using delete_fds [OF assms(1) [unfolded distinct_tids_def] Some] by (simp add: state_fds_def res st1)
  moreover have "conserves (groups_fds gs + state_fds st') s (state_fds st') s'"
    using conserves_trans [OF quiet_conserves [OF flush_into_quiet(1) [OF fl]] drop_groups_conserves] res by metis
  ultimately show ?thesis by simp
qed (use assms in \<open>auto simp: close_tid_def\<close>)

lemma flush_tids_quiet:
  "flush_tids E ts st s = (out, st', s') \<Longrightarrow>
     quiet s s' \<and> groups st' = groups st \<and> event_configs st' = event_configs st"
proof (induction ts arbitrary: st s)
  case (Cons t ts)
  obtain o1 st1 s1 where fl: "flush_into E (case map_of (groups st) t of None \<Rightarrow> [] | Some gs \<Rightarrow> gs) t st s
      = (o1, st1, s1)" by (metis prod_cases3)
  note one = flush_into_quiet [OF fl]
  show ?case
  proof (cases o1)
    case (Return u)
    with Cons.prems fl have "flush_tids E ts st1 s1 = (out, st', s')" by simp
    from Cons.IH [OF this] one show ?thesis by (auto intro: quiet_trans)
  qed (use Cons.prems fl one in auto)
qed simp

lemma flush_all_quiet:
  "flush_all E st s = (out, st', s') \<Longrightarrow>
     quiet s s' \<and> groups st' = groups st \<and> event_configs st' = event_configs st"
  by (simp add: flush_all_def flush_tids_quiet)

lemma open_tid_monitored:
  assumes "open_tid E t st s = (st', s')"
  shows "monitored st' = insert t (monitored st)" "distinct_tids st \<Longrightarrow> distinct_tids st'"
    "event_configs st' = event_configs st"
  using assms
  by (auto simp: open_tid_def monitored_def distinct_tids_def dom_update distinct_update
      map_of_eq_None_iff update_new_key split: if_splits prod.splits dest: map_of_SomeD)

lemma close_tid_monitored:
  assumes "close_tid E t st s = (out, st', s')"
  shows "monitored st' = monitored st - {t}" "distinct_tids st \<Longrightarrow> distinct_tids st'"
    "event_configs st' = event_configs st"
proof -
  have st': "groups st' = AList.delete t (groups st) \<and> event_configs st' = event_configs st"
  proof (cases "map_of (groups st) t")
    case None
    with assms show ?thesis by (simp add: close_tid_def map_of_eq_None_iff)
  next
    case (Some gs)
    obtain o1 st1 s1 where fl: "flush_into E gs t (st\<lparr>groups := AList.delete t (groups st)\<rparr>) s = (o1, st1, s1)"
      by (metis prod_cases3)
    with assms Some flush_into_quiet [OF fl] show ?thesis by (simp add: close_tid_def)
  qed
  then show "monitored st' = monitored st - {t}" "event_configs st' = event_configs st"
    by (simp_all add: monitored_def delete_dom)
  show "distinct_tids st'" if "distinct_tids st"
    using that st' by (simp add: distinct_tids_def distinct_delete)
qed

section \<open>The handler of the queue\<close>

text \<open>The abstract monitor: the set of threads it watches.\<close>

definition spec_handle :: "mq_error + message \<Rightarrow> i32 set \<Rightarrow> i32 set" where
  "spec_handle received watched =
     (case received of
        Inl e \<Rightarrow> watched
      | Inr raw \<Rightarrow>
          (case try_from raw of
             Inl e \<Rightarrow> watched
           | Inr m \<Rightarrow> (case flag m of AddProcess \<Rightarrow> insert (tid m) watched
                                  | RemoveProcess \<Rightarrow> watched - {tid m})))"

lemma queue_handler_step:
  assumes h: "queue_handler E mq st s = (out, mq', st', s')"
  shows "mq' = mq \<and> (\<forall>x. out = Return x \<longrightarrow> x = Inr Continue)
    \<and> event_configs st' = event_configs st \<and> (distinct_tids st \<longrightarrow> distinct_tids st')
    \<and> (distinct_tids st \<longrightarrow> conserves (state_fds st) s (state_fds st') s')
    \<and> (case fst (message_read (kern E) mq s) of
         Return received \<Rightarrow> monitored st' = spec_handle received (monitored st)
       | _ \<Rightarrow> monitored st' = monitored st)"
proof -
  obtain r s1 where read: "message_read (kern E) mq s = (r, s1)" by force
  note q = quiet_conserves [OF quiet_message_read [OF read]]
  have log: "conserves a s a (eprintln d s1)" for a d
    by (rule conserves_trans [OF q quiet_conserves [OF quiet_eprintln]])
  show ?thesis
  proof (cases "\<exists>m raw. r = Return (Inr raw) \<and> try_from raw = Inr m")
    case False
    with h read q log show ?thesis
      by (auto simp: queue_handler_def spec_handle_def split: outcome.splits sum.splits)
  next
    case True
    then obtain m raw where m: "r = Return (Inr raw)" "try_from raw = Inr m" by blast
    show ?thesis
    proof (cases "flag m")
      case AddProcess
      obtain st1 s2 where op: "open_tid E (tid m) st s1 = (st1, s2)" by force
      with h read m AddProcess have "out = Return (Inr Continue)" "mq' = mq" "st' = st1" "s' = s2"
        by (auto simp: queue_handler_def)
      with open_tid_monitored [OF op] conserves_trans [OF q open_tid_conserves [OF op]] read m AddProcess
      show ?thesis by (simp add: spec_handle_def)
    next
      case RemoveProcess
      obtain o1 st1 s2 where cl: "close_tid E (tid m) st s1 = (o1, st1, s2)" by (metis prod_cases3)
      with h read m RemoveProcess have "mq' = mq" "st' = st1" "s' = s2" "\<forall>x. out = Return x \<longrightarrow> x = Inr Continue"
        by (auto simp: queue_handler_def split: outcome.splits)
      with close_tid_monitored [OF cl] conserves_trans [OF q close_tid_conserves [OF _ cl]] read m RemoveProcess
      show ?thesis by (simp add: spec_handle_def)
    qed
  qed
qed

text \<open>
  \<^bold>\<open>C11.\<close> The handler refines the abstract monitor, on any kernel: the set of watched threads
  after a message is that of the specification (a thread is added, removed, or for a queue error
  or an unknown flag nothing changes), and whatever the message, the handler never stops the
  loop, removes its source or returns an error: if it returns, it says \<open>Continue\<close>.
\<close>

theorem queue_handler_refines_watch_set:
  "case queue_handler E mq st s of (out, mq', st', s') \<Rightarrow>
     (case out of Return x \<Rightarrow> x = Inr Continue | _ \<Rightarrow> True)
   \<and> monitored st' =
       (case fst (message_read (kern E) mq s) of
          Return received \<Rightarrow> spec_handle received (monitored st) | _ \<Rightarrow> monitored st)"
proof -
  obtain out mq' st' s' where h: "queue_handler E mq st s = (out, mq', st', s')" by (metis prod_cases4)
  from queue_handler_step [OF h] h show ?thesis by (auto split: outcome.splits)
qed

text \<open>
  \<^bold>\<open>C19.\<close> The handler leaks no descriptor and closes none twice: from any state with distinct
  threads, the counters it opens, together with those the state held, are those it closes
  together with those the state holds afterwards, whichever calls fail or panic on the way.
\<close>

theorem queue_handler_conserves_descriptors:
  assumes "distinct_tids st"
  shows "case queue_handler E mq st s of (out, mq', st', s') \<Rightarrow>
     distinct_tids st'
   \<and> (\<exists>d. trace s' = trace s @ d \<and> fds_opened d + state_fds st = fds_closed d + state_fds st')"
proof -
  obtain out mq' st' s' where h: "queue_handler E mq st s = (out, mq', st', s')" by (metis prod_cases4)
  from queue_handler_step [OF h] h assms show ?thesis by (simp add: conserves_def)
qed

definition no_state :: "'n state" where
  "no_state = \<lparr>event_configs = [], groups = [], reader = reader_new, csv = three_files, read_id = 0\<rparr>"

definition idle_env :: "(string, unit) env" where
  "idle_env = \<lparr>kern = idle_kernel, casts = sized_casts, name_str = (\<lambda>n. n), map_order = (\<lambda>ks. ks)\<rparr>"

theorem queue_handler_conserves_descriptors_witness:
  "case queue_handler idle_env \<lparr>mq_fd = 6, mq_name = MQ_NAME\<rparr> no_state (boot ()) of (out, mq', st', s') \<Rightarrow>
     \<exists>d. trace s' = trace (boot ()) @ d \<and> fds_opened d = fds_closed d + state_fds st'"
  using queue_handler_conserves_descriptors [where st = no_state and E = idle_env and
      mq = "\<lparr>mq_fd = 6, mq_name = MQ_NAME\<rparr>" and s = "boot ()"]
  by (auto simp: distinct_tids_def no_state_def state_fds_def)

text \<open>
  Announcing a thread twice is harmless:
  the second time nothing is called and nothing changes. The thread is watched after the first.
\<close>

theorem open_tid_idempotent:
  "case open_tid E t st s of (st', s') \<Rightarrow> t \<in> monitored st' \<and> open_tid E t st' s' = (st', s')"
proof -
  obtain st' s' where op: "open_tid E t st s = (st', s')" by force
  have "t \<in> monitored st'" using open_tid_monitored(1) [OF op] by simp
  then have "map_of (groups st') t \<noteq> None" using map_of_None_monitored by blast
  then have "open_tid E t st' s' = (st', s')" by (simp add: open_tid_def)
  with op \<open>t \<in> monitored st'\<close> show ?thesis by simp
qed

section \<open>A flush returns\<close>

text \<open>Reads that deliver a whole sample or fail, as the counters of a healthy group do.\<close>

definition whole_reads :: "'w kernel \<Rightarrow> bool" where
  "whole_reads K \<longleftrightarrow> (\<forall>fd n w. case k_read K fd n w of (r, bs, w') \<Rightarrow> r < 0 \<or> length bs = n)"

definition healthy_group :: "'n perf_stat_group \<Rightarrow> bool" where
  "healthy_group g \<longleftrightarrow> elems (pg_fds g) \<noteq> [] \<and> countable_group (group_len g)"

definition healthy :: "'n state \<Rightarrow> bool" where
  "healthy st \<longleftrightarrow> reader_aligned (reader st)
     \<and> (\<forall>e \<in> set (groups st). \<forall>g \<in> set (snd e). healthy_group g)"

lemma read_group_returns:
  assumes "allocator_laws K" "whole_reads K" "reader_aligned rd" "healthy_group g"
    and "read_group K Z g rd s = (out, rd', s')"
  shows "returns out \<and> reader_aligned rd'"
proof -
  let ?n = "header_size + group_len g * entry_size"
  have cnt: "countable_group (group_len g)" and ne: "elems (pg_fds g) \<noteq> []"
    using assms(4) by (auto simp: healthy_group_def)
  obtain b s1 where sized: "ensure_sized K (group_len g) rd s = (Return (), Some b, s1)" "8 dvd blk_addr b"
      "?n \<le> length (blk_mem b)"
    using ensure_sized_buffer [OF assms(1,3) cnt, of s] by auto
  obtain ret bs s2 where call: "sys_read K (ps_fd (hd (elems (pg_fds g)))) ?n s1 = (ret, bs, s2)"
    by (metis prod_cases3)
  have whole: "ret < 0 \<or> length bs = ?n"
    using call assms(2) by (fastforce simp: sys_read_def whole_reads_def split: prod.splits)
  obtain out1 buf where rd: "group_read K Z g (blk_addr b) (take ?n (blk_mem b)) s1 = (out1, buf, s2)"
    using call sized(3) by (simp add: group_read_def leader_exists [OF ne] Let_def)
  have "returns out1"
    using rd call sized(3) whole
    by (auto simp: group_read_def leader_exists [OF ne] Let_def fill_exact split: if_splits sum.splits)
  with rd sized assms(5) show ?thesis
    by (auto simp: read_group_def necessary_buffer_size_exact [OF cnt] Let_def reader_aligned_def returns_iff
        split: sum.splits prod.splits)
qed

lemma flush_groups_returns:
  assumes "allocator_laws (kern E)" "whole_reads (kern E)"
  shows "flush_groups E gs t rd c rid s = (out, rd', c', rid', s') \<Longrightarrow> reader_aligned rd \<Longrightarrow>
    \<forall>g \<in> set gs. healthy_group g \<Longrightarrow>
    out = Return () \<and> reader_aligned rd' \<and> rid' = rid + of_nat (length gs)"
proof (induction gs arbitrary: rd c rid s)
  case (Cons g gs)
  obtain ts s1 where now: "timestamp E s = (ts, s1)" by force
  obtain r rd1 s2 where read: "read_group (kern E) (casts E) g rd s1 = (r, rd1, s2)" by (metis prod_cases3)
  have rd1: "returns r" "reader_aligned rd1"
    using read_group_returns [OF assms Cons.prems(2) _ read] Cons.prems(3) by auto
  then obtain v where v: "r = Return v" by (auto simp: returns_iff)
  have "\<exists>c1 s3. flush_groups E gs t rd1 c1 (rid + 1) s3 = (out, rd', c', rid', s')"
    using Cons.prems(1) now read v by (auto split: sum.splits prod.splits)
  then obtain c1 s3 where "flush_groups E gs t rd1 c1 (rid + 1) s3 = (out, rd', c', rid', s')" by blast
  from Cons.IH [OF this rd1(2)] Cons.prems(3) show ?case by simp
qed simp

lemma flush_into_returns:
  assumes "allocator_laws (kern E)" "whole_reads (kern E)" "reader_aligned (reader st)"
    and "\<forall>g \<in> set gs. healthy_group g" "flush_into E gs t st s = (out, st', s')"
  shows "out = Return () \<and> reader_aligned (reader st') \<and> read_id st' = read_id st + of_nat (length gs)"
  using assms(5) flush_groups_returns [OF assms(1,2) _ assms(3,4)]
  by (fastforce simp: flush_into_def split: prod.splits)

section \<open>Flushing everything\<close>

definition group_count :: "'n state \<Rightarrow> nat" where
  "group_count st = sum_list (map (\<lambda>e. length (snd e)) (groups st))"

lemma flush_tids_returns:
  assumes "allocator_laws (kern E)" "whole_reads (kern E)"
  shows "flush_tids E ts st s = (out, st', s') \<Longrightarrow> healthy st \<Longrightarrow>
    out = Return () \<and> healthy st' \<and> read_id st' = read_id st
      + of_nat (sum_list (map (\<lambda>t. length (case map_of (groups st) t of None \<Rightarrow> [] | Some gs \<Rightarrow> gs)) ts))"
proof (induction ts arbitrary: st s)
  case (Cons t ts)
  let ?gs = "case map_of (groups st) t of None \<Rightarrow> [] | Some gs \<Rightarrow> gs"
  obtain o1 st1 s1 where fl: "flush_into E ?gs t st s = (o1, st1, s1)" by (metis prod_cases3)
  have gs: "\<forall>g \<in> set ?gs. healthy_group g"
  proof (cases "map_of (groups st) t")
    case (Some gs)
    with map_of_SomeD [OF Some] Cons.prems(2) show ?thesis by (force simp: healthy_def)
  qed simp
  have one: "o1 = Return ()" "reader_aligned (reader st1)" "read_id st1 = read_id st + of_nat (length ?gs)"
    using flush_into_returns [OF assms _ gs fl] Cons.prems(2) by (auto simp: healthy_def)
  have same: "groups st1 = groups st" by (rule flush_into_quiet(2) [OF fl])
  with one Cons.prems(2) have "healthy st1" by (simp add: healthy_def)
  moreover have "flush_tids E ts st1 s1 = (out, st', s')" using Cons.prems(1) fl one by simp
  ultimately show ?case using Cons.IH [of st1 s1] one same by (simp add: add.assoc)
qed simp

lemma sum_over_keys:
  "distinct (map fst al) \<Longrightarrow>
     sum_list (map (\<lambda>t. length (case map_of al t of None \<Rightarrow> [] | Some gs \<Rightarrow> gs)) (map fst al))
       = sum_list (map (\<lambda>e. length (snd e)) al)"
proof -
  assume d: "distinct (map fst al)"
  then have "map (\<lambda>e. length (case map_of al (fst e) of None \<Rightarrow> [] | Some gs \<Rightarrow> gs)) al = map (\<lambda>e. length (snd e)) al"
    by (intro map_cong) (auto simp: map_of_is_SomeI)
  then show ?thesis by (simp only: map_map comp_def)
qed

text \<open>
  \<^bold>\<open>C15.\<close> A flush samples every group: with a working allocator and reads that deliver a whole
  sample or fail, \<open>flush_all\<close> returns, in whatever order the hash map iterates, and has used one
  read id for each group of each watched thread; the watched threads and their groups are
  unchanged.
\<close>

theorem flush_all_samples_every_group:
  assumes "allocator_laws (kern E)" "whole_reads (kern E)" "map_order_laws E"
    and "healthy st" "distinct_tids st"
  shows "case flush_all E st s of (out, st', s') \<Rightarrow>
    out = Return () \<and> groups st' = groups st \<and> healthy st'
    \<and> read_id st' = read_id st + of_nat (group_count st)"
proof -
  obtain out st' s' where fl: "flush_all E st s = (out, st', s')" by (metis prod_cases3)
  let ?f = "\<lambda>t. length (case map_of (groups st) t of None \<Rightarrow> [] | Some gs \<Rightarrow> gs)"
  let ?ks = "map fst (groups st)"
  have "mset (map_order E ?ks) = mset ?ks" using assms(3) unfolding map_order_laws_def by blast
  then have "mset (map ?f (map_order E ?ks)) = mset (map ?f ?ks)" by (simp only: mset_map)
  then have "sum_list (map ?f (map_order E ?ks)) = sum_list (map ?f ?ks)"
    by (metis sum_mset_sum_list)
  also have "\<dots> = group_count st"
    using sum_over_keys [OF assms(5) [unfolded distinct_tids_def]] by (simp add: group_count_def)
  finally have total: "sum_list (map ?f (map_order E ?ks)) = group_count st" .
  from flush_tids_returns [OF assms(1,2) fl [unfolded flush_all_def] assms(4)] flush_all_quiet [OF fl] fl total
  show ?thesis by simp
qed

definition one_thread :: "string state" where
  "one_thread = no_state\<lparr>groups := [(42, [\<lparr>pg_fds = NonEmpty [\<lparr>ps_fd = 7, ps_name = ''cycles''\<rparr>]\<rparr>])]\<rparr>"

lemma idle_env_laws:
  "allocator_laws (kern idle_env)" "whole_reads (kern idle_env)" "map_order_laws idle_env"
  by (simp_all add: idle_env_def idle_allocator whole_reads_def map_order_laws_def) (simp add: idle_kernel_def)

theorem flush_all_samples_every_group_witness:
  "case flush_all idle_env one_thread (boot ()) of (out, st', s') \<Rightarrow> out = Return () \<and> read_id st' = 1"
proof -
  have "healthy one_thread" "distinct_tids one_thread" "group_count one_thread = 1" "read_id one_thread = 0"
    by (simp_all add: one_thread_def no_state_def healthy_def healthy_group_def distinct_tids_def reader_new_def
        reader_aligned_def countable_group_def group_len_def header_size_def entry_size_def group_count_def)
  with flush_all_samples_every_group [OF idle_env_laws, of one_thread "boot ()"] show ?thesis
    by (auto split: prod.splits)
qed

section \<open>The rows of the files\<close>

definition writes_succeed :: "'w kernel \<Rightarrow> bool" where
  "writes_succeed K \<longleftrightarrow> (\<forall>fd bs w. fst (snd (k_file_write K fd bs w)) = None)"

lemma sys_file_write_succeeds:
  "writes_succeed K \<Longrightarrow> sys_file_write K fd bs s = (n, e, s') \<Longrightarrow> e = None"
proof -
  assume w: "writes_succeed K" and call: "sys_file_write K fd bs s = (n, e, s')"
  obtain n1 e1 w1 where k: "k_file_write K fd bs (world s) = (n1, e1, w1)" by (metis prod_cases3)
  with w have "e1 = None" by (metis fst_conv snd_conv writes_succeed_def)
  with k call show "e = None" by (simp add: sys_file_write_def)
qed

lemma bw_write_all_succeeds:
  assumes "writes_succeed K" "bw_write_all K bs w s = (r, w', s')"
  shows "r = Inr ()"
proof -
  have store: "bw_store K bs v t = (q, v', t') \<Longrightarrow> q = Inr ()" for v t q v' t'
    by (auto simp: bw_store_def split: if_splits prod.splits option.splits
        dest: sys_file_write_succeeds [OF assms(1)])
  have flush: "flush_buf K v t = (q, v', t') \<Longrightarrow> q = Inr ()" for v t q v' t'
    by (auto simp: flush_buf_def split: if_splits prod.splits option.splits
        dest: sys_file_write_succeeds [OF assms(1)])
  obtain q v t where f: "flush_buf K w s = (q, v, t)" by (metis prod_cases3)
  with flush have "q = Inr ()" by blast
  with f assms(2) store show ?thesis by (auto simp: bw_write_all_def Let_def split: if_splits)
qed

lemma write_pieces_succeeds:
  "writes_succeed K \<Longrightarrow> write_pieces (bw_write_all K) ps w s = (r, w', s') \<Longrightarrow> r = Inr ()"
proof (induction ps arbitrary: w s)
  case (Cons p ps)
  obtain q v t where one: "bw_write_all K p w s = (q, v, t)" by (metis prod_cases3)
  with bw_write_all_succeeds [OF Cons.prems(1) one] Cons show ?case by auto
qed simp

text \<open>The texts of the three files have grown by exactly these rows.\<close>

definition logged :: "csv_writer \<Rightarrow> 'w os \<Rightarrow> csv_row list \<Rightarrow> csv_writer \<Rightarrow> 'w os \<Rightarrow> bool" where
  "logged c s rows c' s' \<longleftrightarrow> csv_fds c' = csv_fds c
     \<and> event_text c' s' = event_text c s @ concat (map event_line rows)
     \<and> read_text c' s' = read_text c s @ concat (map read_line rows)
     \<and> desc_text c' s' = desc_text c s @ concat (map desc_line rows)"

lemma logged_trans: "logged c s rows c1 s1 \<Longrightarrow> logged c1 s1 rows1 c2 s2 \<Longrightarrow> logged c s (rows @ rows1) c2 s2"
  by (simp add: logged_def)

lemma logged_fds: "logged c s rows c' s' \<Longrightarrow> csv_fds c' = csv_fds c"
  by (simp add: logged_def)

lemma logged_still: "\<forall>fd. file_text fd (trace s') = file_text fd (trace s) \<Longrightarrow> logged c s [] c s'"
  by (simp add: logged_def event_text_def read_text_def desc_text_def bw_text_def)

lemma inert_still: "inert s s' \<Longrightarrow> file_text fd (trace s') = file_text fd (trace s)"
proof -
  assume "inert s s'"
  then obtain d where d: "trace s' = trace s @ d" "list_all inert_call d" by (auto simp: inert_def)
  from d(2) have "file_text fd d = []" by (induction d) (auto simp: inert_call_def)
  with d(1) show ?thesis by simp
qed

lemma inert_logged: "inert s s' \<Longrightarrow> logged c s [] c s'"
  by (simp add: logged_still inert_still)

lemma write_row_logged:
  assumes "writes_succeed K" "distinct (csv_fds c)" "write_row K row c s = (r, c', s')"
  shows "r = Inr () \<and> logged c s [row] c' s'"
proof -
  have "r = Inr ()"
    using assms(3) write_pieces_succeeds [OF assms(1)]
    by (cases row) (auto simp: write_event_def write_read_def write_desc_def split: prod.splits)
  with write_row_text [of K row c s c' s'] assms show ?thesis by (simp add: logged_def)
qed

lemmas write_event_logged = write_row_logged [where row = "EventRow rid cnt i" for rid cnt i, simplified]
lemmas write_read_logged = write_row_logged [where row = "ReadRow rid t a b" for rid t a b, simplified]
lemmas write_desc_logged = write_row_logged [where row = "DescRow i name t" for i name t, simplified]

text \<open>
  One attempt to sample a group: nothing, or a time, the group's times and its counts. The rows
  of a sequence of attempts, numbered from a read id on.
\<close>

type_synonym attempt = "(nat \<times> group_info \<times> event_info list) option"

definition attempt_rows :: "u64 \<Rightarrow> attempt \<Rightarrow> csv_row list" where
  "attempt_rows rid a =
     (case a of
        None \<Rightarrow> []
      | Some (ts, info, events) \<Rightarrow>
          ReadRow rid ts (gi_time_running info) (gi_time_enabled info)
            # map (\<lambda>e. EventRow rid (ei_count e) (ei_id e)) events)"

fun sample_rows :: "u64 \<Rightarrow> attempt list \<Rightarrow> csv_row list" where
  "sample_rows rid [] = []"
| "sample_rows rid (a # as) = attempt_rows rid a @ sample_rows (rid + 1) as"

lemma sample_rows_append:
  "sample_rows rid (as @ bs) = sample_rows rid as @ sample_rows (rid + of_nat (length as)) bs"
  by (induction as arbitrary: rid) (simp_all add: add.assoc)

lemma write_events_logged:
  assumes "writes_succeed (kern E)"
  shows "write_events E rid es c s = (c', s') \<Longrightarrow> distinct (csv_fds c) \<Longrightarrow>
    logged c s (map (\<lambda>e. EventRow rid (ei_count e) (ei_id e)) es) c' s'"
proof (induction es arbitrary: c s)
  case Nil
  then show ?case by (simp add: logged_def)
next
  case (Cons e es)
  obtain r c1 s1 where w: "write_event (kern E) rid (ei_count e) (ei_id e) c s = (r, c1, s1)"
    by (metis prod_cases3)
  note one = write_event_logged [OF assms Cons.prems(2) w]
  with Cons.prems w have rest: "write_events E rid es c1 s1 = (c', s')" by simp
  from one Cons.prems(2) have "distinct (csv_fds c1)" by (auto dest: logged_fds)
  from logged_trans [OF conjunct2 [OF one] Cons.IH [OF rest this]] show ?case by simp
qed

lemma write_sample_logged:
  assumes "writes_succeed (kern E)" "write_sample E rid ts info es c s = (c', s')" "distinct (csv_fds c)"
  shows "logged c s (attempt_rows rid (Some (ts, info, es))) c' s'"
proof -
  obtain r c1 s1 where w: "write_read (kern E) rid ts (gi_time_running info) (gi_time_enabled info) c s = (r, c1, s1)"
    by (metis prod_cases3)
  note one = write_read_logged [OF assms(1,3) w]
  with assms(2) w have rest: "write_events E rid es c1 s1 = (c', s')" by (simp add: write_sample_def)
  from one assms(3) have "distinct (csv_fds c1)" by (auto dest: logged_fds)
  from logged_trans [OF conjunct2 [OF one] write_events_logged [OF assms(1) rest this]] show ?thesis
    by (simp add: attempt_rows_def)
qed

lemma flush_groups_logged:
  assumes "writes_succeed (kern E)"
  shows "flush_groups E gs t rd c rid s = (out, rd', c', rid', s') \<Longrightarrow> distinct (csv_fds c) \<Longrightarrow>
    \<exists>as. logged c s (sample_rows rid as) c' s' \<and> rid' = rid + of_nat (length as)"
proof (induction gs arbitrary: rd c rid s)
  case Nil
  then show ?case by (auto simp: logged_def intro!: exI [of _ "[]"])
next
  case (Cons g gs)
  obtain ts s1 where now: "timestamp E s = (ts, s1)" by force
  obtain r rd1 s2 where read: "read_group (kern E) (casts E) g rd s1 = (r, rd1, s2)" by (metis prod_cases3)
  have in2: "inert s s2" using inert_trans inert_timestamp [OF now] inert_read_group [OF read] by blast
  show ?case
  proof (cases "\<exists>v. r = Return v")
    case False
    with Cons.prems(1) now read have "c' = c" "s' = s2" "rid' = rid + 1"
      by (auto split: outcome.splits)
    with inert_logged [OF in2] show ?thesis
      by (intro exI [of _ "[None]"]) (simp add: attempt_rows_def)
  next
    case True
    then obtain v where r: "r = Return v" by blast
    have "\<exists>a c1 s3. logged c s (attempt_rows rid a) c1 s3
        \<and> flush_groups E gs t rd1 c1 (rid + 1) s3 = (out, rd', c', rid', s')"
    proof (cases v)
      case (Inl e)
      have "inert s (eprintln (GroupReadError t e) s2)" using inert_trans [OF in2 inert_eprintln] .
      from inert_logged [OF this] Cons.prems(1) now read r Inl show ?thesis
        by (intro exI [of _ None]) (auto simp: attempt_rows_def)
    next
      case (Inr w)
      obtain info events where w: "w = (info, events)" by force
      obtain c1 s3 where wr: "write_sample E rid ts info events c s2 = (c1, s3)" by force
      from logged_trans [OF inert_logged [OF in2] write_sample_logged [OF assms wr Cons.prems(2)]]
        Cons.prems(1) now read r Inr w wr
      show ?thesis by (intro exI [of _ "Some (ts, info, events)"]) auto
    qed
    then obtain a c1 s3 where step: "logged c s (attempt_rows rid a) c1 s3"
      "flush_groups E gs t rd1 c1 (rid + 1) s3 = (out, rd', c', rid', s')" by blast
    have "distinct (csv_fds c1)" using Cons.prems(2) logged_fds [OF step(1)] by simp
    from Cons.IH [OF step(2) this] obtain as where
      "logged c1 s3 (sample_rows (rid + 1) as) c' s'" "rid' = rid + 1 + of_nat (length as)" by blast
    with logged_trans [OF step(1)] show ?thesis by (intro exI [of _ "a # as"]) (simp add: add.assoc)
  qed
qed

section \<open>The ledger\<close>

text \<open>Opening and dropping groups writes to no file.\<close>

lemma file_text_closes: "file_text fd (map (\<lambda>ps. CClose (ps_fd ps)) pss) = []"
  by (induction pss) auto

lemma open_rest_still:
  "open_rest K pid l acc configs s = (r, s') \<Longrightarrow> file_text fd (trace s') = file_text fd (trace s)"
proof (induction configs arbitrary: acc s)
  case (Cons c configs)
  obtain r1 s1 where call: "perf_event_open K (pc_attr c) pid (-1) l PERF_FLAG_FD_CLOEXEC s = (r1, s1)"
    by force
  then have "file_text fd (trace s1) = file_text fd (trace s)"
    by (rule perf_event_open_trace) simp
  with Cons call show ?case by (cases r1) (auto simp: close_all_trace file_text_closes)
qed simp

lemma group_new_still:
  assumes "group_new K configs pid s = (r, s')"
  shows "file_text fd (trace s') = file_text fd (trace s)"
proof (cases configs)
  case Nil
  with assms show ?thesis by (simp add: group_new_def)
next
  case (Cons c configs')
  obtain r1 s1 where call: "perf_event_open K ((pc_attr c)\<lparr>attr_read_format := GROUP_READ_FORMAT\<rparr>)
      pid (-1) (-1) PERF_FLAG_FD_CLOEXEC s = (r1, s1)" by force
  then have one: "file_text fd (trace s1) = file_text fd (trace s)"
    by (rule perf_event_open_trace) simp
  show ?thesis
  proof (cases r1)
    case (Inl e)
    with assms Cons call one show ?thesis by (simp add: group_new_def)
  next
    case (Inr first)
    obtain r2 s2 where rest: "open_rest K pid first [\<lparr>ps_fd = first, ps_name = pc_name c\<rparr>] configs' s1 = (r2, s2)"
      by force
    with assms Cons call Inr have "s' = s2"
      by (auto simp: group_new_def split: sum.splits option.splits)
    with open_rest_still [OF rest] one show ?thesis by simp
  qed
qed

lemma open_groups_still:
  "open_groups E t configs s = (gs, s') \<Longrightarrow> file_text fd (trace s') = file_text fd (trace s)"
proof (induction configs arbitrary: s gs)
  case (Cons config configs)
  obtain r s1 where new: "group_new (kern E) (elems config) (sint t) s = (r, s1)" by force
  with Cons group_new_still [OF new] show ?case
    by (cases r) (auto split: prod.splits)
qed simp

lemma drop_groups_still: "file_text fd (trace (drop_groups K gs s)) = file_text fd (trace s)"
proof (induction gs arbitrary: s)
  case (Cons g gs)
  from Cons [of "group_drop K g s"] show ?case
    by (simp add: drop_groups_def group_drop_def close_all_trace file_text_closes)
qed (simp add: drop_groups_def)

definition desc_rows :: "(u64 \<times> string \<times> i32) list \<Rightarrow> csv_row list" where
  "desc_rows ds = map (\<lambda>(i, name, t). DescRow i name t) ds"

lemma describe_group_logged:
  assumes "writes_succeed (kern E)"
  shows "describe_group E t pss c s = (c', s') \<Longrightarrow> distinct (csv_fds c) \<Longrightarrow>
    \<exists>ds. logged c s (desc_rows ds) c' s'"
proof (induction pss arbitrary: c s)
  case Nil
  then show ?case by (auto simp: logged_def desc_rows_def intro!: exI [of _ "[]"])
next
  case (Cons ps pss)
  obtain r s1 where id: "name_and_id (kern E) ps s = (r, s1)" by force
  note still = inert_logged [OF inert_name_and_id [OF id]]
  show ?case
  proof (cases r)
    case (Inl e)
    with Cons.prems id have "describe_group E t pss c s1 = (c', s')" by simp
    from Cons.IH [OF this Cons.prems(2)] logged_trans [OF still] show ?thesis by fastforce
  next
    case (Inr ni)
    obtain name i where ni: "ni = (name, i)" by force
    obtain q c1 s2 where w: "write_desc (kern E) i (name_str E name) t c s1 = (q, c1, s2)" by (metis prod_cases3)
    note one = write_desc_logged [OF assms Cons.prems(2) w]
    with Cons.prems id Inr ni w have rest: "describe_group E t pss c1 s2 = (c', s')" by simp
    from one Cons.prems(2) have "distinct (csv_fds c1)" by (auto dest: logged_fds)
    from Cons.IH [OF rest this] obtain ds where "logged c1 s2 (desc_rows ds) c' s'" by blast
    from logged_trans [OF still logged_trans [OF conjunct2 [OF one] this]] show ?thesis
      by (intro exI [of _ "(i, name_str E name, t) # ds"]) (simp add: desc_rows_def)
  qed
qed

lemma describe_groups_logged:
  assumes "writes_succeed (kern E)"
  shows "describe_groups E t gs c s = (c', s') \<Longrightarrow> distinct (csv_fds c) \<Longrightarrow>
    \<exists>ds. logged c s (desc_rows ds) c' s'"
proof (induction gs arbitrary: c s)
  case Nil
  then show ?case by (auto simp: logged_def desc_rows_def intro!: exI [of _ "[]"])
next
  case (Cons g gs)
  obtain c1 s1 where one: "describe_group E t (elems (pg_fds g)) c s = (c1, s1)" by force
  with Cons.prems have rest: "describe_groups E t gs c1 s1 = (c', s')" by simp
  obtain d1 where d1: "logged c s (desc_rows d1) c1 s1"
    using describe_group_logged [OF assms one Cons.prems(2)] by blast
  then have "distinct (csv_fds c1)" using Cons.prems(2) logged_fds by metis
  from Cons.IH [OF rest this] obtain ds where "logged c1 s1 (desc_rows ds) c' s'" by blast
  from logged_trans [OF d1 this] show ?case by (intro exI [of _ "d1 @ ds"]) (simp add: desc_rows_def)
qed

text \<open>
  The ledger of a state: from the texts \<open>b\<close> the files began with, the event and read files hold
  exactly the rows of a sequence of attempts numbered from 0, which the state's read id counts,
  and the description file holds description rows. That needs no more than writes that succeed, and
  does not say which samples; that they are those the kernel delivered is said by the record of
  the theory \<open>Recording\<close>, under the laws of sampling.
\<close>

definition ledger :: "string \<times> string \<times> string \<Rightarrow> 'n state \<Rightarrow> 'w os \<Rightarrow> bool" where
  "ledger b st s \<longleftrightarrow> (case b of (be, br, bd) \<Rightarrow>
     distinct (csv_fds (csv st))
   \<and> (\<exists>as ds. event_text (csv st) s = be @ concat (map event_line (sample_rows 0 as))
        \<and> read_text (csv st) s = br @ concat (map read_line (sample_rows 0 as))
        \<and> desc_text (csv st) s = bd @ concat (map desc_line (desc_rows ds))
        \<and> read_id st = of_nat (length as)))"

lemma sample_rows_desc [simp]: "concat (map desc_line (sample_rows rid as)) = []"
proof (induction as arbitrary: rid)
  case (Cons a as)
  have "concat (map desc_line (attempt_rows rid a)) = []"
    by (auto simp: attempt_rows_def split: option.splits)
  with Cons show ?case by (simp del: concat_eq_Nil_conv)
qed simp

lemma desc_rows_lines [simp]:
  "concat (map event_line (desc_rows ds)) = []" "concat (map read_line (desc_rows ds)) = []"
  by (auto simp: desc_rows_def)

lemma ledger_samples:
  fixes st st' :: "'n state" and s s' :: "'w os"
  assumes "ledger b st s" "logged (csv st) s (sample_rows (read_id st) as) c s'"
    "read_id st' = read_id st + of_nat (length as)" "csv st' = c"
  shows "ledger b st' s'"
proof -
  obtain be br bd where b: "b = (be, br, bd)" by (metis prod_cases3)
  from assms(1) b obtain as0 ds where l: "distinct (csv_fds (csv st))"
      "event_text (csv st) s = be @ concat (map event_line (sample_rows 0 as0))"
      "read_text (csv st) s = br @ concat (map read_line (sample_rows 0 as0))"
      "desc_text (csv st) s = bd @ concat (map desc_line (desc_rows ds))" "read_id st = of_nat (length as0)"
    by (auto simp: ledger_def)
  have "sample_rows 0 (as0 @ as) = sample_rows 0 as0 @ sample_rows (read_id st) as"
    using l(5) by (simp add: sample_rows_append)
  with l assms(2-4) b sample_rows_desc [of "read_id st" as] show ?thesis
    by (auto simp: ledger_def logged_def simp del: sample_rows_desc intro!: exI [of _ "as0 @ as"] exI [of _ ds])
qed

lemma ledger_descs:
  fixes st st' :: "'n state" and s s' :: "'w os"
  assumes "ledger b st s" "logged (csv st) s (desc_rows ds) c s'" "read_id st' = read_id st" "csv st' = c"
  shows "ledger b st' s'"
proof -
  obtain be br bd where b: "b = (be, br, bd)" by (metis prod_cases3)
  from assms(1) b obtain as ds0 where l: "distinct (csv_fds (csv st))"
      "event_text (csv st) s = be @ concat (map event_line (sample_rows 0 as))"
      "read_text (csv st) s = br @ concat (map read_line (sample_rows 0 as))"
      "desc_text (csv st) s = bd @ concat (map desc_line (desc_rows ds0))" "read_id st = of_nat (length as)"
    by (auto simp: ledger_def)
  with assms(2-4) b desc_rows_lines [of ds] show ?thesis
    by (auto simp: ledger_def logged_def desc_rows_def simp del: desc_rows_lines
        intro!: exI [of _ as] exI [of _ "ds0 @ ds"])
qed

lemma ledger_still:
  fixes st st' :: "'n state" and s s' :: "'w os"
  assumes "ledger b st s" "\<forall>fd. file_text fd (trace s') = file_text fd (trace s)"
    "read_id st' = read_id st" "csv st' = csv st"
  shows "ledger b st' s'"
  using ledger_descs [of b st s "[]"] logged_still [OF assms(2)] assms by (auto simp: desc_rows_def)

lemma ledger_inert: "ledger b st s \<Longrightarrow> inert s s' \<Longrightarrow> ledger b st s'"
  by (rule ledger_still) (auto simp: inert_still)

lemma flush_into_ledger:
  assumes "writes_succeed (kern E)" "ledger b st s" "flush_into E gs t st s = (out, st', s')"
  shows "ledger b st' s'"
proof -
  obtain rd c rid s1 where fl: "flush_groups E gs t (reader st) (csv st) (read_id st) s = (out, rd, c, rid, s1)"
      and st': "st' = st\<lparr>reader := rd, csv := c, read_id := rid\<rparr>" "s' = s1"
    using assms(3) by (auto simp: flush_into_def split: prod.splits)
  have "distinct (csv_fds (csv st))" using assms(2) by (auto simp: ledger_def split: prod.splits)
  from flush_groups_logged [OF assms(1) fl this] obtain as where
    "logged (csv st) s (sample_rows (read_id st) as) c s1" "rid = read_id st + of_nat (length as)" by blast
  with ledger_samples [OF assms(2)] st' show ?thesis by auto
qed

lemma flush_tids_ledger:
  assumes "writes_succeed (kern E)"
  shows "flush_tids E ts st s = (out, st', s') \<Longrightarrow> ledger b st s \<Longrightarrow> ledger b st' s'"
proof (induction ts arbitrary: st s)
  case (Cons t ts)
  obtain o1 st1 s1 where fl: "flush_into E (case map_of (groups st) t of None \<Rightarrow> [] | Some gs \<Rightarrow> gs) t st s
      = (o1, st1, s1)" by (metis prod_cases3)
  note one = flush_into_ledger [OF assms Cons.prems(2) fl]
  with Cons fl show ?case by (cases o1) auto
qed simp

lemma flush_all_ledger:
  "writes_succeed (kern E) \<Longrightarrow> flush_all E st s = (out, st', s') \<Longrightarrow> ledger b st s \<Longrightarrow> ledger b st' s'"
  unfolding flush_all_def by (rule flush_tids_ledger)

lemma open_tid_ledger:
  assumes "writes_succeed (kern E)" "ledger b st s" "open_tid E t st s = (st', s')"
  shows "ledger b st' s'"
proof (cases "map_of (groups st) t")
  case None
  obtain gs s1 where op: "open_groups E t (event_configs st) s = (gs, s1)" by force
  obtain c s2 where de: "describe_groups E t gs (csv st) s1 = (c, s2)" by force
  from assms(3) None op de have st': "st' = st\<lparr>csv := c, groups := AList.update t gs (groups st)\<rparr>" "s' = s2"
    by (auto simp: open_tid_def)
  have l1: "ledger b st s1" by (rule ledger_still [OF assms(2)]) (simp_all add: open_groups_still [OF op])
  then have "distinct (csv_fds (csv st))" by (auto simp: ledger_def split: prod.splits)
  from describe_groups_logged [OF assms(1) de this] obtain ds where
    "logged (csv st) s1 (desc_rows ds) c s2" by blast
  from ledger_descs [OF l1 this] st' show ?thesis by simp
qed (use assms in \<open>auto simp: open_tid_def\<close>)

lemma close_tid_ledger:
  assumes "writes_succeed (kern E)" "ledger b st s" "close_tid E t st s = (out, st', s')"
  shows "ledger b st' s'"
proof (cases "map_of (groups st) t")
  case (Some gs)
  obtain o1 st1 s1 where fl: "flush_into E gs t (st\<lparr>groups := AList.delete t (groups st)\<rparr>) s = (o1, st1, s1)"
    by (metis prod_cases3)
  have "ledger b (st\<lparr>groups := AList.delete t (groups st)\<rparr>) s"
    using assms(2) by (simp add: ledger_def)
  from flush_into_ledger [OF assms(1) this fl] have "ledger b st1 s1" .
  then have "ledger b st1 (drop_groups (kern E) gs s1)"
    by (rule ledger_still) (simp_all add: drop_groups_still)
  with assms(3) Some fl show ?thesis by (simp add: close_tid_def)
qed (use assms in \<open>auto simp: close_tid_def\<close>)

lemma queue_handler_ledger:
  assumes "writes_succeed (kern E)" "ledger b st s"
  shows "case queue_handler E mq st s of (out, mq', st', s') \<Rightarrow> ledger b st' s'"
proof -
  obtain r s1 where read: "message_read (kern E) mq s = (r, s1)" by force
  have l1: "ledger b st s1" by (rule ledger_inert [OF assms(2) inert_message_read [OF read]])
  have log: "ledger b st (eprintln d s1)" for d by (rule ledger_inert [OF l1 inert_eprintln])
  show ?thesis
    using read l1 log open_tid_ledger [OF assms(1) l1] close_tid_ledger [OF assms(1) l1]
    by (auto simp: queue_handler_def split: outcome.splits sum.splits prod.splits message_flag.splits)
qed

section \<open>The read id is a key\<close>

fun row_read_id :: "csv_row \<Rightarrow> u64 list" where
  "row_read_id (ReadRow r t a b) = [r]"
| "row_read_id _ = []"

fun row_event_ref :: "csv_row \<Rightarrow> u64 list" where
  "row_event_ref (EventRow r cnt i) = [r]"
| "row_event_ref _ = []"

definition read_ids :: "csv_row list \<Rightarrow> u64 list" where
  "read_ids rows = concat (map row_read_id rows)"

definition event_refs :: "csv_row list \<Rightarrow> u64 list" where
  "event_refs rows = concat (map row_event_ref rows)"

lemma attempt_ids:
  "read_ids (attempt_rows rid a) = (if a = None then [] else [rid])"
  "set (event_refs (attempt_rows rid a)) \<subseteq> set (read_ids (attempt_rows rid a))"
  by (auto simp: attempt_rows_def read_ids_def event_refs_def split: option.splits)

lemma sample_refs: "set (event_refs (sample_rows rid as)) \<subseteq> set (read_ids (sample_rows rid as))"
proof (induction as arbitrary: rid)
  case (Cons a as)
  from Cons [of "rid + 1"] attempt_ids(2) [of rid a] show ?case
    by (auto simp: event_refs_def read_ids_def)
qed (simp add: event_refs_def read_ids_def)

lemma sample_read_ids:
  "read_ids (sample_rows rid as) = map (\<lambda>k. rid + of_nat k) (filter (\<lambda>k. as ! k \<noteq> None) [0..<length as])"
proof (induction as arbitrary: rid)
  case (Cons a as)
  have up: "[0..<length (a # as)] = 0 # map Suc [0..<length as]"
    by (simp add: map_Suc_upt upt_conv_Cons del: upt_Suc)
  have "read_ids (sample_rows rid (a # as)) = read_ids (attempt_rows rid a) @ read_ids (sample_rows (rid + 1) as)"
    by (simp add: read_ids_def)
  also have "\<dots> = map (\<lambda>k. rid + of_nat k) (filter (\<lambda>k. (a # as) ! k \<noteq> None) [0..<length (a # as)])"
    unfolding up Cons attempt_ids(1) by (simp add: filter_map comp_def add.assoc)
  finally show ?case .
qed (simp add: read_ids_def)

lemma sample_read_ids_distinct: "length as \<le> 2 ^ 64 \<Longrightarrow> distinct (read_ids (sample_rows rid as))"
proof -
  assume len: "length as \<le> 2 ^ 64"
  have "j = k" if "j < length as" "k < length as" "(of_nat j :: u64) = of_nat k" for j k
  proof -
    have "unat (of_nat j :: u64) = unat (of_nat k :: u64)" using that(3) by simp
    with that(1,2) len show ?thesis by (simp add: unat_of_nat)
  qed
  then show ?thesis unfolding sample_read_ids distinct_map by (auto simp: inj_on_def)
qed

section \<open>The descriptors of the files\<close>

text \<open>No operation exchanges a file: the writer keeps its three descriptors.\<close>

lemma write_event_fds: "write_event K r cnt i c s = (res, c', s') \<Longrightarrow> csv_fds c' = csv_fds c"
  by (auto simp: write_event_def csv_fds_def split: prod.splits dest: write_pieces_only)

lemma write_read_fds: "write_read K r t a b c s = (res, c', s') \<Longrightarrow> csv_fds c' = csv_fds c"
  by (auto simp: write_read_def csv_fds_def split: prod.splits dest: write_pieces_only)

lemma write_desc_fds: "write_desc K i n t c s = (res, c', s') \<Longrightarrow> csv_fds c' = csv_fds c"
  by (auto simp: write_desc_def csv_fds_def split: prod.splits dest: write_pieces_only)

lemma describe_group_fds: "describe_group E t pss c s = (c', s') \<Longrightarrow> csv_fds c' = csv_fds c"
proof (induction E t pss c s rule: describe_group.induct)
  case (2 E t ps pss c s)
  then show ?case by (fastforce split: prod.splits sum.splits dest: write_desc_fds)
qed simp

lemma describe_groups_fds: "describe_groups E t gs c s = (c', s') \<Longrightarrow> csv_fds c' = csv_fds c"
  by (induction gs arbitrary: c s) (auto split: prod.splits dest: describe_group_fds)

lemma write_events_fds: "write_events E rid es c s = (c', s') \<Longrightarrow> csv_fds c' = csv_fds c"
  by (induction es arbitrary: c s) (auto split: prod.splits sum.splits dest!: write_event_fds)

lemma write_sample_fds: "write_sample E rid ts info es c s = (c', s') \<Longrightarrow> csv_fds c' = csv_fds c"
  by (auto simp: write_sample_def split: prod.splits sum.splits dest!: write_read_fds write_events_fds)

lemma flush_groups_fds: "flush_groups E gs t rd c rid s = (out, rd', c', rid', s') \<Longrightarrow> csv_fds c' = csv_fds c"
proof (induction gs arbitrary: rd c rid s)
  case (Cons g gs)
  then show ?case
    by (fastforce split: prod.splits outcome.splits sum.splits dest: write_sample_fds)
qed simp

lemma flush_into_fds: "flush_into E gs t st s = (out, st', s') \<Longrightarrow> csv_fds (csv st') = csv_fds (csv st)"
  by (auto simp: flush_into_def split: prod.splits dest: flush_groups_fds)

lemma flush_tids_fds: "flush_tids E ts st s = (out, st', s') \<Longrightarrow> csv_fds (csv st') = csv_fds (csv st)"
proof (induction ts arbitrary: st s)
  case (Cons t ts)
  obtain o1 st1 s1 where fl: "flush_into E (case map_of (groups st) t of None \<Rightarrow> [] | Some gs \<Rightarrow> gs) t st s
      = (o1, st1, s1)" by (metis prod_cases3)
  with Cons flush_into_fds [OF fl] show ?case by (cases o1) auto
qed simp

lemma flush_all_fds: "flush_all E st s = (out, st', s') \<Longrightarrow> csv_fds (csv st') = csv_fds (csv st)"
  unfolding flush_all_def by (rule flush_tids_fds)

lemma queue_handler_fds:
  assumes "queue_handler E mq st s = (out, mq', st', s')"
  shows "csv_fds (csv st') = csv_fds (csv st)"
proof -
  have op: "open_tid E t st r = (st1, r') \<Longrightarrow> csv_fds (csv st1) = csv_fds (csv st)" for t r st1 r'
    by (auto simp: open_tid_def split: if_splits prod.splits dest: describe_groups_fds)
  have cl: "close_tid E t st r = (o1, st1, r') \<Longrightarrow> csv_fds (csv st1) = csv_fds (csv st)" for t r o1 st1 r'
    by (auto simp: close_tid_def split: option.splits prod.splits dest!: flush_into_fds)
  show ?thesis
    using assms op cl
    by (auto simp: queue_handler_def split: outcome.splits sum.splits prod.splits message_flag.splits)
qed

section \<open>Making and dropping the state\<close>

lemma state_new_trace:
  assumes "state_new K configs folder s = (r, s')"
  shows "case r of
      Return st \<Rightarrow> groups st = [] \<and> read_id st = 0
        \<and> (\<exists>e q d. csv_fds (csv st) = [e, q, d]
           \<and> (\<exists>p1 p2 p3. trace s' = trace s @ [CFileOpen p1 e, CFileOpen p2 q, CFileOpen p3 d])
           \<and> 0 \<le> e \<and> 0 \<le> q \<and> 0 \<le> d
           \<and> event_text (csv st) s' = file_text e (trace s) @ event_header @ newline
           \<and> read_text (csv st) s' = file_text q (trace s) @ read_header @ newline
           \<and> desc_text (csv st) s' = file_text d (trace s) @ desc_header @ newline)
    | Panic m \<Rightarrow> conserves {#} s {#} s'
    | Undefined \<Rightarrow> False"
proof -
  obtain r1 s1 where c: "csv_open K folder s = (r1, s1)" by force
  note tr = csv_open_trace [where K = K and folder = folder and s = s, unfolded c]
  show ?thesis
  proof (cases r1)
    case (Inl e)
    with tr assms c show ?thesis by (auto simp: state_new_def conserves_def)
  next
    case (Inr w)
    with tr assms c show ?thesis
      by (auto simp: state_new_def csv_fds_def event_text_def read_text_def desc_text_def bw_text_def)
  qed
qed

lemma reader_drop_inert: "inert s (reader_drop K rd s)"
  by (auto simp: reader_drop_def inert_def inert_call_def split: option.splits)

lemma drop_tids_conserves:
  "distinct ts \<Longrightarrow> set ts \<subseteq> fst ` set al \<Longrightarrow>
     conserves (sum_list (map (\<lambda>t. groups_fds (the (map_of al t))) ts)) s {#}
       (fold (\<lambda>t s. drop_groups K (the (map_of al t)) s) ts s)"
proof (induction ts arbitrary: s)
  case (Cons t ts)
  let ?gs = "the (map_of al t)"
  from Cons have "conserves (sum_list (map (\<lambda>t. groups_fds (the (map_of al t))) ts)) (drop_groups K ?gs s) {#}
      (fold (\<lambda>t s. drop_groups K (the (map_of al t)) s) ts (drop_groups K ?gs s))" by simp
  from conserves_trans [OF drop_groups_conserves this] show ?case by simp
qed simp

lemma drop_tids_still:
  "file_text fd (trace (fold (\<lambda>t s. drop_groups K (f t) s) ts s)) = file_text fd (trace s)"
  by (induction ts arbitrary: s) (simp_all add: drop_groups_still)

lemma sum_over_tids:
  "distinct (map fst al) \<Longrightarrow>
     sum_list (map (\<lambda>t. groups_fds (the (map_of al t))) (map fst al)) = sum_list (map (\<lambda>e. groups_fds (snd e)) al)"
proof -
  assume "distinct (map fst al)"
  then have "map (\<lambda>e. groups_fds (the (map_of al (fst e)))) al = map (\<lambda>e. groups_fds (snd e)) al"
    by (intro map_cong) auto
  then show ?thesis by (simp only: map_map comp_def)
qed

lemma csv_drop_conserves: "conserves (mset (csv_fds c)) s {#} (csv_drop K c s)"
proof -
  have one: "conserves {#bw_fd w#} t {#} (bw_drop K w t)" for w and t :: "'a os"
  proof -
    obtain r w1 t1 where f: "flush_buf K w t = (r, w1, t1)" by (metis prod_cases3)
    have "conserves {#bw_fd w#} t1 {#} (sys_close K (bw_fd w) t1)" by (simp add: conserves_def)
    from conserves_trans [OF quiet_conserves [OF quiet_writes [OF flush_buf_text(3) [OF f]]] this]
    show ?thesis using f flush_buf_text(2) [OF f] by (simp add: bw_drop_def)
  qed
  let ?e = "cw_event c" and ?r = "cw_read c" and ?d = "cw_desc c"
  have e: "conserves ({#bw_fd ?e#} + {#bw_fd ?r, bw_fd ?d#}) s ({#bw_fd ?r#} + {#bw_fd ?d#}) (bw_drop K ?e s)"
    using conserves_add [OF one, where x = "{#bw_fd ?r, bw_fd ?d#}", of ?e] by (simp add: add_mset_commute)
  have r: "conserves ({#bw_fd ?r#} + {#bw_fd ?d#}) t {#bw_fd ?d#} (bw_drop K ?r t)" for t
    using conserves_add [OF one, where x = "{#bw_fd ?d#}", of ?r] by simp
  have "mset (csv_fds c) = {#bw_fd ?e#} + {#bw_fd ?r, bw_fd ?d#}" by (simp add: csv_fds_def)
  with conserves_trans [OF conserves_trans [OF e r] one] show ?thesis by (simp add: csv_drop_def)
qed

lemma state_drop_conserves:
  assumes "map_order_laws E" "distinct_tids st"
  shows "conserves (state_fds st + mset (csv_fds (csv st))) s {#} (state_drop E st s)"
proof -
  let ?ks = "map fst (groups st)" and ?F = "mset (csv_fds (csv st))"
  let ?o = "map_order E ?ks"
  let ?s1 = "fold (\<lambda>t s. drop_groups (kern E) (the (map_of (groups st) t)) s) ?o s"
  have o: "mset ?o = mset ?ks" using assms(1) unfolding map_order_laws_def by blast
  then have d: "distinct ?o" "set ?o \<subseteq> fst ` set (groups st)"
    using assms(2) mset_eq_imp_distinct_iff [OF o] mset_eq_setD [OF o] by (auto simp: distinct_tids_def)
  have "sum_list (map (\<lambda>t. groups_fds (the (map_of (groups st) t))) ?o) = state_fds st"
  proof -
    let ?f = "\<lambda>t. groups_fds (the (map_of (groups st) t))"
    have "mset (map ?f ?o) = mset (map ?f ?ks)" using o by (simp only: mset_map)
    then have "sum_list (map ?f ?o) = sum_list (map ?f ?ks)" by (metis sum_mset_sum_list)
    with sum_over_tids [OF assms(2) [unfolded distinct_tids_def]] show ?thesis by (simp add: state_fds_def)
  qed
  with drop_tids_conserves [OF d] have "conserves (state_fds st) s {#} ?s1" by metis
  from conserves_add [OF this] have "conserves (state_fds st + ?F) s ?F ?s1" by simp
  from conserves_trans [OF this conserves_trans [OF quiet_conserves [OF inert_quiet [OF reader_drop_inert]] csv_drop_conserves]]
  show ?thesis by (simp add: state_drop_def)
qed

end
