(* ===== verification/Threadstat_Main.thy ===== *)
theory Threadstat_Main
  imports Monitor_State Signals Timer_Fd
begin

text \<open>
  The program (\<open>threadstat-rust/src/main.rs\<close>): the set-up, the three sources of the event loop,
  and the tear-down. Each value that \<open>main\<close> owns opens a scope, a definition that makes the
  value, runs the rest and then drops the value, so that the drops are in the reverse order of
  the declarations and also happen when the rest panics and unwinds. The command line is the
  input; \<open>None\<close> is a run whose event loop never ends.
\<close>

section \<open>The flush period\<close>

text \<open>
  \<open>Duration::from_secs_f64(1.0 / f64::from(frequency))\<close>, with both roundings of the code: the
  division rounds to the nearest double (ties to even), and the conversion multiplies that double
  by \<open>10^9\<close> exactly and rounds to the nearest nanosecond (ties to even). The double is the
  quotient of an integer by the power of two \<open>2 ^ (53 + ilog2 f)\<close>.
\<close>

definition half_even :: "nat \<Rightarrow> nat \<Rightarrow> nat" where
  "half_even a b =
     (let q = a div b; r = a mod b in
      if 2 * r < b then q else if b < 2 * r then q + 1 else if even q then q else q + 1)"

fun ilog2 :: "nat \<Rightarrow> nat" where
  "ilog2 n = (if n \<le> 1 then 0 else 1 + ilog2 (n div 2))"

declare ilog2.simps [simp del]

definition recip_mantissa :: "nat \<Rightarrow> nat" where
  "recip_mantissa f = half_even (2 ^ (53 + ilog2 f)) f"

definition period_nanos :: "nat \<Rightarrow> nat" where
  "period_nanos f = half_even (recip_mantissa f * 1000000000) (2 ^ (53 + ilog2 f))"

definition period_of :: "u32 \<Rightarrow> duration" where
  "period_of frequency =
     (let ns = period_nanos (unat frequency) in
      \<lparr>as_secs = of_nat (ns div 1000000000), subsec_nanos = of_nat (ns mod 1000000000)\<rparr>)"

section \<open>The sources and their handlers\<close>

datatype pollable = PSignal signal_fd | PQueue mq_reader | PTimer timer_fd

fun pollable_fd :: "pollable \<Rightarrow> int" where
  "pollable_fd (PSignal sfd) = signal_pollable_fd sfd"
| "pollable_fd (PQueue q) = mq_pollable_fd q"
| "pollable_fd (PTimer t) = timer_pollable_fd t"

definition signal_handler ::
    "('n, 'w) env \<Rightarrow> signal_fd \<Rightarrow> 'n state \<Rightarrow> 'w os \<Rightarrow>
       (io_error + poll_action) outcome \<times> signal_fd \<times> 'n state \<times> 'w os" where
  "signal_handler E sfd st s =
     (case signal_read (kern E) sfd s of
        (Return (Inr info), s') \<Rightarrow> (Return (Inr Stop), sfd, st, s')
      | (Return (Inl e), s') \<Rightarrow> (Panic ''failed to read signalfd'', sfd, st, s')
      | (Panic m, s') \<Rightarrow> (Panic m, sfd, st, s')
      | (Undefined, s') \<Rightarrow> (Undefined, sfd, st, s'))"

definition timer_handler ::
    "('n, 'w) env \<Rightarrow> timer_fd \<Rightarrow> 'n state \<Rightarrow> 'w os \<Rightarrow>
       (io_error + poll_action) outcome \<times> timer_fd \<times> 'n state \<times> 'w os" where
  "timer_handler E timer st s =
     (case timer_read (kern E) timer s of
        (Inl e, s1) \<Rightarrow> (Return (Inl e), timer, st, s1)
      | (Inr expirations, s1) \<Rightarrow>
          (let s2 = if expirations \<noteq> 1 then eprintln (FlushFellBehind expirations) s1 else s1 in
           case flush_all E st s2 of
             (Return _, st', s') \<Rightarrow> (Return (Inr Continue), timer, st', s')
           | (Panic m, st', s') \<Rightarrow> (Panic m, timer, st', s')
           | (Undefined, st', s') \<Rightarrow> (Undefined, timer, st', s')))"

text \<open>The handler of a source at the type of all sources; each is registered with its own value.\<close>

definition source_handler :: "('n, 'w) env \<Rightarrow> (pollable, 'n state, 'w) handler" where
  "source_handler E p st s =
     (case p of
        PSignal sfd \<Rightarrow> (case signal_handler E sfd st s of (out, r, st', s') \<Rightarrow> (out, PSignal r, st', s'))
      | PQueue q \<Rightarrow> (case queue_handler E q st s of (out, r, st', s') \<Rightarrow> (out, PQueue r, st', s'))
      | PTimer t \<Rightarrow> (case timer_handler E t st s of (out, r, st', s') \<Rightarrow> (out, PTimer r, st', s')))"

section \<open>The scopes of \<open>main\<close>\<close>

text \<open>What \<open>main\<close> is given: the environment, the interner, the slab, the text of a duration.\<close>

record ('n, 'e, 'w, 'sl) host =
  h_env :: "('n, 'w) env"
  h_intern :: "('n, 'e) interner"
  h_slab :: "(pollable, 'n state, 'w, 'sl) slab"
  h_show_duration :: "duration \<Rightarrow> string"

record base_args =
  events :: "string list"
  output_folder :: string

record args = base_args +
  frequency :: u32

fun register_all ::
    "('n, 'e, 'w, 'sl) host \<Rightarrow> pollable list \<Rightarrow> 'sl poller \<Rightarrow> 'w os \<Rightarrow> unit outcome \<times> 'sl poller \<times> 'w os" where
  "register_all H [] p s = (Return (), p, s)"
| "register_all H (src # srcs) p s =
     (case register_mut (kern (h_env H)) (h_slab H) pollable_fd src (source_handler (h_env H)) p s of
        (Return _, p', s') \<Rightarrow> register_all H srcs p' s'
      | halted \<Rightarrow> halted)"

text \<open>The poller: register the sources, run, and flush once more when the loop has stopped.\<close>

definition loop_result :: "(io_error + unit) outcome \<Rightarrow> unit outcome" where
  "loop_result out =
     (case out of
        Return (Inr _) \<Rightarrow> Return ()
      | Return (Inl e) \<Rightarrow> Panic ''poll error''
      | Panic m \<Rightarrow> Panic m
      | Undefined \<Rightarrow> Undefined)"

definition after_loop ::
    "('n, 'w) env \<Rightarrow> (io_error + unit) outcome \<Rightarrow> 'n state \<Rightarrow> 'w os \<Rightarrow> unit outcome \<times> 'n state \<times> 'w os" where
  "after_loop E out st s =
     (case loop_result out of
        Return _ \<Rightarrow> flush_all E st (println ''Finished the polling loop'' s)
      | Panic m \<Rightarrow> (Panic m, st, s)
      | Undefined \<Rightarrow> (Undefined, st, s))"

definition poller_drop :: "'w kernel \<Rightarrow> 'sl poller \<Rightarrow> 'w os \<Rightarrow> 'w os" where
  "poller_drop K p s = sys_close K (poller_fd p) s"

definition poll_scope ::
    "('n, 'e, 'w, 'sl) host \<Rightarrow> pollable list \<Rightarrow> 'n state \<Rightarrow> 'w os \<Rightarrow> (unit outcome \<times> 'n state \<times> 'w os) option" where
  "poll_scope H srcs st s =
     (let E = h_env H; K = kern E in
      case poller_new K (h_slab H) s of
        (Panic m, s1) \<Rightarrow> Some (Panic m, st, s1)
      | (Undefined, s1) \<Rightarrow> Some (Undefined, st, s1)
      | (Return p0, s1) \<Rightarrow>
          (case register_all H srcs p0 s1 of
             (Panic m, p, s2) \<Rightarrow> Some (Panic m, st, poller_drop K p s2)
           | (Undefined, p, s2) \<Rightarrow> Some (Undefined, st, poller_drop K p s2)
           | (Return _, p, s2) \<Rightarrow>
               (case run K (h_slab H) p st s2 of
                  None \<Rightarrow> None
                | Some (out, p', st', s3) \<Rightarrow>
                    (case after_loop E out st' s3 of (out', st'', s4) \<Rightarrow>
                       Some (out', st'', poller_drop K p' s4)))))"

text \<open>The flush timer, if there is one.\<close>

definition timer_setup ::
    "'w kernel \<Rightarrow> (duration \<Rightarrow> string) \<Rightarrow> u32 \<Rightarrow> 'w os \<Rightarrow> timer_fd option outcome \<times> 'w os" where
  "timer_setup K show_dur freq s =
     (if freq = 0 then (Return None, s)
      else case timer_new K Monotonic s of
          (Inl e, s1) \<Rightarrow> (Panic ''failed to create timerfd'', s1)
        | (Inr timer, s1) \<Rightarrow>
            (case arm_periodic K (period_of freq) timer s1 of
               (Inl e, s2) \<Rightarrow> (Panic ''failed to arm the flush timer'', sys_close K (timer_raw timer) s2)
             | (Inr _, s2) \<Rightarrow> (Return (Some timer), println (''Flushing every '' @ show_dur (period_of freq)) s2)))"

definition timer_drop :: "'w kernel \<Rightarrow> timer_fd option \<Rightarrow> 'w os \<Rightarrow> 'w os" where
  "timer_drop K timer s = (case timer of None \<Rightarrow> s | Some t \<Rightarrow> sys_close K (timer_raw t) s)"

definition timer_scope ::
    "('n, 'e, 'w, 'sl) host \<Rightarrow> args \<Rightarrow> signal_fd \<Rightarrow> mq_reader \<Rightarrow> 'n state \<Rightarrow> 'w os \<Rightarrow>
       (unit outcome \<times> 'n state \<times> 'w os) option" where
  "timer_scope H a sfd mq st s =
     (let K = kern (h_env H) in
      case timer_setup K (h_show_duration H) (frequency a) s of
        (Panic m, s1) \<Rightarrow> Some (Panic m, st, s1)
      | (Undefined, s1) \<Rightarrow> Some (Undefined, st, s1)
      | (Return timer, s1) \<Rightarrow>
          map_option (\<lambda>(out, st', s'). (out, st', timer_drop K timer s'))
            (poll_scope H ([PSignal sfd, PQueue mq] @ (case timer of None \<Rightarrow> [] | Some t \<Rightarrow> [PTimer t])) st
               (println ''Setup Signal Handling'' s1)))"

definition signal_scope ::
    "('n, 'e, 'w, 'sl) host \<Rightarrow> args \<Rightarrow> mq_reader \<Rightarrow> 'n state \<Rightarrow> 'w os \<Rightarrow>
       (unit outcome \<times> 'n state \<times> 'w os) option" where
  "signal_scope H a mq st s =
     (let K = kern (h_env H); close_signals = [SIGINT] in
      case Signals.block K close_signals s of
        (Inl e, s1) \<Rightarrow> Some (Panic ''failed to block SIGINT'', st, s1)
      | (Inr _, s1) \<Rightarrow>
          (case signal_fd_new K close_signals s1 of
             (Inl e, s2) \<Rightarrow> Some (Panic ''failed to create signalfd'', st, s2)
           | (Inr sfd, s2) \<Rightarrow>
               map_option (\<lambda>(out, st', s'). (out, st', sys_close K (signal_raw sfd) s'))
                 (timer_scope H a sfd mq st s2)))"

definition state_scope ::
    "('n, 'e, 'w, 'sl) host \<Rightarrow> args \<Rightarrow> mq_reader \<Rightarrow> 'w os \<Rightarrow> (unit outcome \<times> 'w os) option" where
  "state_scope H a mq s =
     (let E = h_env H; K = kern E in
      case parse_event_groups K (h_intern H) (join_with CHR '','' (events a)) s of
        (Panic m, s1) \<Rightarrow> Some (Panic m, s1)
      | (Undefined, s1) \<Rightarrow> Some (Undefined, s1)
      | (Return (Inl e), s1) \<Rightarrow> Some (Panic ''Failed to parse events'', s1)
      | (Return (Inr configs), s1) \<Rightarrow>
          (case state_new K configs (output_folder a) s1 of
             (Panic m, s2) \<Rightarrow> Some (Panic m, s2)
           | (Undefined, s2) \<Rightarrow> Some (Undefined, s2)
           | (Return st, s2) \<Rightarrow>
               map_option (\<lambda>(out, st', s'). (out, state_drop E st' s')) (signal_scope H a mq st s2)))"

definition main_body ::
    "('n, 'e, 'w, 'sl) host \<Rightarrow> args \<Rightarrow> 'w os \<Rightarrow> (unit outcome \<times> 'w os) option" where
  "main_body H a s =
     (let K = kern (h_env H) in
      case mq_new K message_size MQ_NAME (println ''Parsed Args'' s) of
        (Inl e, s1) \<Rightarrow> Some (Panic ''failed to open mqueue'', s1)
      | (Inr mq, s1) \<Rightarrow>
          map_option (\<lambda>(out, s'). (out, mq_drop K mq s'))
            (state_scope H a mq (println ''Opened Message Queue'' s1)))"

section \<open>Invariants of the event loop\<close>

text \<open>
  Two invariants of the loop's context, each an instance of the interface \<open>context_invariant\<close> of
  the event loop: the descriptors held are accounted for, and the files follow the ledger.
\<close>

definition monitor_source :: "('n, 'w) env \<Rightarrow> (pollable, 'n state, 'w) source \<Rightarrow> bool" where
  "monitor_source E src \<longleftrightarrow> src_func src = source_handler E"

definition held :: "int multiset \<Rightarrow> 'w os \<Rightarrow> 'n state \<Rightarrow> 'w os \<Rightarrow> bool" where
  "held a s0 st s \<longleftrightarrow> distinct_tids st \<and> conserves a s0 (state_fds st) s"

definition accounted :: "'w kernel \<Rightarrow> string \<times> string \<times> string \<Rightarrow> 'n state \<Rightarrow> 'w os \<Rightarrow> bool" where
  "accounted K b st s \<longleftrightarrow> (writes_succeed K \<longrightarrow> ledger b st s)"

lemma inert_epoll_ctl: "sys_epoll_ctl K epfd op fd ev s = (r, s') \<Longrightarrow> inert s s'"
  by (auto simp: inert_def inert_call_def dest!: sys_epoll_ctl_trace)

lemma inert_epoll_wait: "sys_epoll_wait K epfd n t s = (r, evs, s') \<Longrightarrow> inert s s'"
  by (auto simp: inert_def inert_call_def dest!: sys_epoll_wait_trace)

lemma held_inert: "held a s0 st s \<Longrightarrow> inert s s' \<Longrightarrow> held a s0 st s'"
  using conserves_trans quiet_conserves inert_quiet by (fastforce simp: held_def)

lemma accounted_inert: "accounted K b st s \<Longrightarrow> inert s s' \<Longrightarrow> accounted K b st s'"
  by (auto simp: accounted_def intro: ledger_inert)

lemma inert_signal_read: "signal_read K sfd s = (r, s') \<Longrightarrow> inert s s'"
  by (auto simp: signal_read_def inert_def inert_call_def split: prod.splits if_splits outcome.splits
      dest!: sys_read_trace)

lemma inert_timer_read: "timer_read K t s = (r, s') \<Longrightarrow> inert s s'"
  by (auto simp: timer_read_def inert_def inert_call_def split: prod.splits if_splits dest!: sys_read_trace)

lemma inert_println [simp]: "inert s (println m s)"
  by (simp add: inert_def inert_call_def)

text \<open>The signal handler changes nothing; the timer's flushes.\<close>

lemma signal_handler_step:
  "signal_handler E sfd st s = (out, r, st', s') \<Longrightarrow> r = sfd \<and> st' = st \<and> inert s s'"
  by (auto simp: signal_handler_def split: prod.splits outcome.splits sum.splits dest: inert_signal_read)

lemma timer_handler_step:
  assumes "timer_handler E t st s = (out, r, st', s')"
  shows "r = t \<and> (\<exists>s1. inert s s1 \<and> (st' = st \<and> s' = s1 \<or> (\<exists>o1. flush_all E st s1 = (o1, st', s'))))"
proof -
  obtain r1 s1 where read: "timer_read (kern E) t s = (r1, s1)" by force
  note i1 = inert_timer_read [OF read]
  show ?thesis
  proof (cases r1)
    case (Inl e)
    with assms read i1 show ?thesis by (auto simp: timer_handler_def)
  next
    case (Inr n)
    let ?s2 = "if n \<noteq> 1 then eprintln (FlushFellBehind n) s1 else s1"
    have i2: "inert s ?s2" using i1 by (auto intro: inert_trans [OF i1 inert_eprintln])
    obtain o1 st1 s3 where fl: "flush_all E st ?s2 = (o1, st1, s3)" by (metis prod_cases3)
    with assms read Inr have "r = t" "st' = st1" "s' = s3"
      by (auto simp: timer_handler_def Let_def split: outcome.splits)
    with i2 fl show ?thesis by blast
  qed
qed

lemma source_handler_held:
  assumes "held a s0 st s" "source_handler E p st s = (out, p', st', s')"
  shows "held a s0 st' s'"
proof (cases p)
  case (PSignal sfd)
  with assms(2) have "st' = st \<and> inert s s'"
    by (auto simp: source_handler_def split: prod.splits dest: signal_handler_step)
  with held_inert [OF assms(1)] show ?thesis by blast
next
  case (PQueue q)
  then obtain r where "queue_handler E q st s = (out, r, st', s')"
    using assms(2) by (auto simp: source_handler_def split: prod.splits)
  from queue_handler_step [OF this] assms(1) conserves_trans show ?thesis by (auto simp: held_def)
next
  case (PTimer t)
  then obtain r where "timer_handler E t st s = (out, r, st', s')"
    using assms(2) by (auto simp: source_handler_def split: prod.splits)
  from timer_handler_step [OF this] obtain s1 where s1: "inert s s1"
    "st' = st \<and> s' = s1 \<or> (\<exists>o1. flush_all E st s1 = (o1, st', s'))" by blast
  note h1 = held_inert [OF assms(1) s1(1)]
  from s1(2) show ?thesis
  proof
    assume "\<exists>o1. flush_all E st s1 = (o1, st', s')"
    then obtain o1 where "flush_all E st s1 = (o1, st', s')" ..
    from flush_all_quiet [OF this] have "groups st' = groups st" "quiet s1 s'" by auto
    with h1 conserves_trans [OF _ quiet_conserves] show ?thesis
      by (auto simp: held_def distinct_tids_def state_fds_def)
  qed (use h1 in simp)
qed

lemma source_handler_accounted:
  assumes "accounted (kern E) b st s" "source_handler E p st s = (out, p', st', s')"
  shows "accounted (kern E) b st' s'"
  unfolding accounted_def
proof
  assume w: "writes_succeed (kern E)"
  with assms(1) have l: "ledger b st s" by (simp add: accounted_def)
  show "ledger b st' s'"
  proof (cases p)
    case (PSignal sfd)
    with assms(2) have "st' = st \<and> inert s s'"
      by (auto simp: source_handler_def split: prod.splits dest: signal_handler_step)
    with ledger_inert [OF l] show ?thesis by blast
  next
    case (PQueue q)
    then obtain r where "queue_handler E q st s = (out, r, st', s')"
      using assms(2) by (auto simp: source_handler_def split: prod.splits)
    with queue_handler_ledger [OF w l, of q] show ?thesis by simp
  next
    case (PTimer t)
    then obtain r where "timer_handler E t st s = (out, r, st', s')"
      using assms(2) by (auto simp: source_handler_def split: prod.splits)
    from timer_handler_step [OF this] obtain s1 where "inert s s1"
      "st' = st \<and> s' = s1 \<or> (\<exists>o1. flush_all E st s1 = (o1, st', s'))" by blast
    with flush_all_ledger [OF w] ledger_inert [OF l] show ?thesis by blast
  qed
qed

interpretation held: context_invariant "kern E" "held a s0" "monitor_source E"
  for E :: "('n, 'w) env" and a :: "int multiset" and s0 :: "'w os"
proof
  fix src src' :: "(pollable, 'n state, 'w) source" and c c' :: "'n state" and s s' :: "'w os" and out
  assume "monitor_source E src" "held a s0 c s" "call_func src c s = (out, src', c', s')"
  then show "monitor_source E src' \<and> held a s0 c' s'"
    by (auto simp: monitor_source_def call_func_def split: prod.splits intro: source_handler_held)
qed (blast intro: held_inert inert_epoll_ctl inert_epoll_wait)+

interpretation files: context_invariant "kern E" "accounted (kern E) b" "monitor_source E"
  for E :: "('n, 'w) env" and b :: "string \<times> string \<times> string"
proof
  fix src src' :: "(pollable, 'n state, 'w) source" and c c' :: "'n state" and s s' :: "'w os" and out
  assume "monitor_source E src" "accounted (kern E) b c s" "call_func src c s = (out, src', c', s')"
  then show "monitor_source E src' \<and> accounted (kern E) b c' s'"
    by (auto simp: monitor_source_def call_func_def split: prod.splits intro: source_handler_accounted)
qed (blast intro: accounted_inert inert_epoll_ctl inert_epoll_wait)+

section \<open>The parser opens nothing\<close>

lemma inert_pfm_force: "pfm_force K s = (r, s') \<Longrightarrow> inert s s'"
  by (auto simp: pfm_force_def inert_def inert_call_def Let_def split: option.splits prod.splits
      dest!: sys_pfm_initialize_trace)

lemma inert_from_pfm_string:
  assumes "from_pfm_string K e n s = (r, s')" shows "inert s s'"
proof -
  obtain c s1 where f: "pfm_force K s = (c, s1)" by force
  note i1 = inert_pfm_force [OF f]
  show ?thesis
  proof (cases c)
    case (Inl err)
    with assms f i1 show ?thesis by (simp add: from_pfm_string_def)
  next
    case (Inr u)
    obtain ret rv s2 where enc: "sys_pfm_encode K e PFM_PLM zeroed_attr s1 = (ret, rv, s2)"
      by (metis prod_cases3)
    then have "inert s1 s2" by (auto simp: inert_def inert_call_def dest!: sys_pfm_encode_trace)
    moreover have "s' = s2"
      using assms f Inr enc by (auto simp: from_pfm_string_def get_perf_attr_array_def split: if_splits)
    ultimately show ?thesis using i1 inert_trans by blast
  qed
qed

lemma inert_collect_group: "collect_group K I es s = (r, s') \<Longrightarrow> inert s s'"
proof (induction es arbitrary: s r s')
  case Nil
  then show ?case by (simp add: inert_def)
next
  case (Cons e es)
  show ?case
  proof (cases "in_try_new I e")
    case (Inl err)
    with Cons.prems show ?thesis by (simp add: inert_def)
  next
    case (Inr n)
    obtain q s1 where one: "from_pfm_string K (in_cstr I n) n s = (q, s1)" by force
    note i1 = inert_from_pfm_string [OF one]
    obtain q2 s2 where rest: "collect_group K I es s1 = (q2, s2)" by force
    have "s' = s1 \<or> s' = s2" using Cons.prems Inr one rest by (auto split: sum.splits)
    with i1 Cons.IH [OF rest] inert_trans show ?thesis by blast
  qed
qed

lemma inert_parse_bracket: "parse_bracket K I names gs s = (r, s') \<Longrightarrow> inert s s'"
  by (auto simp: parse_bracket_def split: prod.splits sum.splits option.splits dest: inert_collect_group)

lemma inert_parse_bare: "parse_bare K I name gs s = (r, s') \<Longrightarrow> inert s s'"
  by (auto simp: parse_bare_def split: if_splits outcome.splits prod.splits sum.splits dest: inert_from_pfm_string)
    (simp_all add: inert_def)

lemma inert_refl [simp]: "inert s s"
  by (simp add: inert_def)

lemma inert_parse_loop: "inert os (snd (parse_loop K I s i gs os))"
proof -
  have "inert os (snd (parse_loop K I s i gs os)) \<and> True"
    by (rule parse_loop_invariant [where P = "inert os" and Q = "\<lambda>_. True"])
      (auto dest: inert_parse_bracket inert_parse_bare intro: inert_trans)
  then show ?thesis ..
qed

lemma inert_parse: "parse_event_groups K I str s = (r, s') \<Longrightarrow> inert s s'"
  using inert_parse_loop [where os = s and K = K and I = I and s = str and i = 0 and gs = "[]"]
  by (simp add: parse_event_groups_def)

section \<open>The scopes keep the books\<close>

lemma source_handler_fds:
  assumes "source_handler E p st s = (out, p', st', s')"
  shows "csv_fds (csv st') = csv_fds (csv st)"
proof (cases p)
  case (PTimer t)
  then obtain r where "timer_handler E t st s = (out, r, st', s')"
    using assms by (auto simp: source_handler_def split: prod.splits)
  from timer_handler_step [OF this] flush_all_fds show ?thesis by blast
qed (use assms in \<open>auto simp: source_handler_def split: prod.splits dest: queue_handler_fds signal_handler_step\<close>)

interpretation file_fds: context_invariant "kern E" "\<lambda>st s. csv_fds (csv st) = F" "monitor_source E"
  for E :: "('n, 'w) env" and F :: "int list"
proof
  fix src src' :: "(pollable, 'n state, 'w) source" and c c' :: "'n state" and s s' :: "'w os" and out
  assume "monitor_source E src" "csv_fds (csv c) = F" "call_func src c s = (out, src', c', s')"
  then show "monitor_source E src' \<and> csv_fds (csv c') = F"
    by (auto simp: monitor_source_def call_func_def split: prod.splits dest: source_handler_fds)
qed simp_all

text \<open>What each scope guarantees to the one around it.\<close>

definition scope_ok :: "('n, 'w) env \<Rightarrow> 'n state \<Rightarrow> 'w os \<Rightarrow> 'n state \<Rightarrow> 'w os \<Rightarrow> bool" where
  "scope_ok E st s st' s' \<longleftrightarrow> distinct_tids st' \<and> csv_fds (csv st') = csv_fds (csv st)
     \<and> conserves (state_fds st) s (state_fds st') s'
     \<and> (\<forall>b. accounted (kern E) b st s \<longrightarrow> accounted (kern E) b st' s')"

lemma scope_trans: "scope_ok E st s st1 s1 \<Longrightarrow> scope_ok E st1 s1 st2 s2 \<Longrightarrow> scope_ok E st s st2 s2"
  using conserves_trans by (fastforce simp: scope_ok_def)

lemma scope_inert: "distinct_tids st \<Longrightarrow> inert s s' \<Longrightarrow> scope_ok E st s st s'"
  by (auto simp: scope_ok_def intro: quiet_conserves inert_quiet accounted_inert)

lemma scope_distinct: "scope_ok E st s st' s' \<Longrightarrow> distinct_tids st'"
  by (simp add: scope_ok_def)

text \<open>One call that opens a descriptor, and the close that ends the scope.\<close>

definition opens :: "int \<Rightarrow> 'w os \<Rightarrow> 'w os \<Rightarrow> bool" where
  "opens fd s s' \<longleftrightarrow> (\<exists>c. trace s' = trace s @ [c] \<and> opened_fd c = {#fd#} \<and> closed_fd c = {#}
     \<and> (\<forall>f. written_by f c = []))"

lemma opens_conserves: "opens fd s s' \<Longrightarrow> conserves a s (a + {#fd#}) s'"
  by (auto simp: opens_def conserves_def)

lemma opens_still: "opens fd s s' \<Longrightarrow> file_text f (trace s') = file_text f (trace s)"
  by (auto simp: opens_def)

lemma close_still: "file_text f (trace (sys_close K fd s)) = file_text f (trace s)"
  by simp

lemma close_conserves: "conserves (a + {#fd#}) s a (sys_close K fd s)"
  by (auto simp: conserves_def)

lemma scope_bracket:
  assumes "opens fd s s1" "scope_ok E st s1 st' s2"
  shows "scope_ok E st s st' (sys_close K fd s2)"
proof -
  have c: "conserves (state_fds st) s1 (state_fds st') s2" using assms(2) by (simp add: scope_ok_def)
  have "conserves (state_fds st) s (state_fds st') (sys_close K fd s2)"
    using conserves_trans [OF opens_conserves [OF assms(1)] conserves_trans [OF conserves_add [OF c] close_conserves]] .
  moreover have "accounted (kern E) b st' (sys_close K fd s2)" if "accounted (kern E) b st s" for b
  proof -
    have "accounted (kern E) b st s1"
      using that opens_still [OF assms(1)] by (auto simp: accounted_def intro: ledger_still)
    then have "accounted (kern E) b st' s2" using assms(2) unfolding scope_ok_def by blast
    then show ?thesis by (auto simp: accounted_def intro: ledger_still simp del: sys_unit_traces simp: close_still)
  qed
  ultimately show ?thesis using assms(2) by (simp add: scope_ok_def)
qed

lemma scope_flush_all:
  assumes "distinct_tids st" "flush_all E st s = (out, st', s')"
  shows "scope_ok E st s st' s'"
proof -
  from flush_all_quiet [OF assms(2)] have "groups st' = groups st" "quiet s s'" by auto
  with assms flush_all_fds [OF assms(2)] flush_all_ledger [OF _ assms(2)] show ?thesis
    by (auto simp: scope_ok_def distinct_tids_def state_fds_def accounted_def intro: quiet_conserves)
qed

lemma register_all_keeps:
  assumes "slab_laws (h_slab H)"
  shows "register_all H srcs p s = (out, p', s') \<Longrightarrow> held.all_good (h_env H) (h_slab H) p \<Longrightarrow>
    inert s s' \<and> poller_fd p' = poller_fd p \<and> held.all_good (h_env H) (h_slab H) p'"
proof (induction srcs arbitrary: p s)
  case (Cons src srcs)
  let ?E = "h_env H" and ?S = "h_slab H"
  obtain o1 p1 s1 where reg: "register_mut (kern ?E) ?S pollable_fd src (source_handler ?E) p s = (o1, p1, s1)"
    by (metis prod_cases3)
  obtain key sl where ins: "sl_insert ?S \<lparr>src_fd = pollable_fd src, src_r = src, src_func = source_handler ?E\<rparr>
      (sources p) = (key, sl)" by force
  have p1: "p1 = p\<lparr>sources := sl\<rparr>" and i1: "inert s s1"
    using reg ins by (auto simp: register_mut_def Let_def split: if_splits prod.splits intro: inert_epoll_ctl)
  have "sl_get ?S sl = (sl_get ?S (sources p))(key \<mapsto>
      \<lparr>src_fd = pollable_fd src, src_r = src, src_func = source_handler ?E\<rparr>)"
    using slab_insert [OF assms ins] by simp
  with Cons.prems(2) p1 have g1: "held.all_good ?E ?S p1"
    unfolding held.all_good_def by (auto simp: monitor_source_def)
  show ?case
  proof (cases o1)
    case (Return u)
    with Cons.prems(1) reg have "register_all H srcs p1 s1 = (out, p', s')" by simp
    from Cons.IH [OF this g1] i1 inert_trans p1 show ?thesis by fastforce
  qed (use Cons.prems reg i1 g1 p1 in auto)
qed simp

lemma run_scope:
  assumes "slab_laws S" "held.all_good E S p" "distinct_tids st" "run (kern E) S p st s = Some (out, p', st', s')"
  shows "scope_ok E st s st' s'"
proof -
  have "held (state_fds st) s st s" using assms(3) by (simp add: held_def)
  then have h: "held (state_fds st) s st' s'"
    using held.run_keeps [OF assms(1,4,2)] by blast
  have f: "accounted (kern E) b st' s'" if "accounted (kern E) b st s" for b
    using files.run_keeps [OF assms(1,4,2) that] by blast
  have "csv_fds (csv st') = csv_fds (csv st)"
    using file_fds.run_keeps [OF assms(1,4,2) refl] by blast
  with h f show ?thesis by (simp add: scope_ok_def held_def)
qed

lemma after_loop_scope:
  assumes "distinct_tids st" "after_loop E out st s = (out', st', s')"
  shows "scope_ok E st s st' s'"
proof (cases "loop_result out")
  case (Return u)
  with assms(2) have fl: "flush_all E st (println ''Finished the polling loop'' s) = (out', st', s')"
    by (simp add: after_loop_def)
  from scope_trans [OF scope_inert [OF assms(1) inert_println] scope_flush_all [OF assms(1) fl]] show ?thesis .
qed (use assms scope_inert [OF assms(1) inert_refl] in \<open>auto simp: after_loop_def\<close>)

lemma poll_scope_ok:
  assumes laws: "slab_laws (h_slab H)" and d: "distinct_tids st" and sc: "poll_scope H srcs st s = Some (out, st', s')"
  shows "scope_ok (h_env H) st s st' s'"
proof -
  let ?E = "h_env H" let ?K = "kern ?E"
  obtain r s1 where call: "sys_epoll_create1 ?K EPOLL_CLOEXEC s = (r, s1)" by force
  note tr = sys_epoll_create1_trace [OF call]
  show ?thesis
  proof (cases "r = -1")
    case True
    then have "inert s s1" using tr by (auto simp: inert_def inert_call_def)
    with scope_inert [OF d] sc True call show ?thesis
      by (auto simp: poll_scope_def poller_new_def epoll_create_def Let_def)
  next
    case False
    let ?p0 = "\<lparr>poller_fd = r, sources = sl_new (h_slab H)\<rparr>"
    have op: "opens r s s1" using tr False by (auto simp: opens_def)
    have g0: "held.all_good ?E (h_slab H) ?p0" by (simp add: held.all_good_def slab_new [OF laws])
    obtain o1 p s2 where reg: "register_all H srcs ?p0 s1 = (o1, p, s2)" by (metis prod_cases3)
    from register_all_keeps [OF laws reg g0]
    have p: "inert s1 s2" "poller_fd p = r" "held.all_good ?E (h_slab H) p" by auto
    note s12 = scope_inert [OF d p(1), of ?E]
    have new: "poller_new ?K (h_slab H) s = (Return ?p0, s1)"
      using call False by (simp add: poller_new_def epoll_create_def)
    show ?thesis
    proof (cases o1)
      case (Return u)
      obtain o2 p' st1 s3 where run: "run ?K (h_slab H) p st s2 = Some (o2, p', st1, s3)"
        using sc new reg Return by (auto simp: poll_scope_def Let_def split: option.splits)
      obtain o3 st2 s4 where al: "after_loop ?E o2 st1 s3 = (o3, st2, s4)" by (metis prod_cases3)
      have "poller_fd p' = r" using run_fd [OF run] p(2) by simp
      with sc new reg Return run al have "st' = st2" "s' = sys_close ?K r s4"
        by (auto simp: poll_scope_def Let_def poller_drop_def)
      moreover have "scope_ok ?E st s1 st2 s4"
        using scope_trans [OF s12] run_scope [OF laws p(3) d run] after_loop_scope [OF _ al] scope_trans scope_distinct
        by metis
      ultimately show ?thesis using scope_bracket [OF op] by simp
    qed (use sc new reg p scope_bracket [OF op s12] in \<open>auto simp: poll_scope_def Let_def poller_drop_def\<close>)
  qed
qed

section \<open>The remaining scopes\<close>

lemma settime_inert: "settime K spec t s = (r, s') \<Longrightarrow> inert s s'"
  by (auto simp: settime_def inert_def inert_call_def split: prod.splits dest!: sys_timerfd_settime_trace)

lemma arm_periodic_inert: "arm_periodic K d t s = (r, s') \<Longrightarrow> inert s s'"
  by (auto simp: arm_periodic_def split: if_splits sum.splits dest: settime_inert)

lemma timer_setup_cases:
  assumes "timer_setup K show_dur freq s = (r, s')"
  shows "case r of
      Return None \<Rightarrow> s' = s
    | Return (Some t) \<Rightarrow> \<exists>s1. opens (timer_raw t) s s1 \<and> inert s1 s'
    | Panic m \<Rightarrow> inert s s' \<or> (\<exists>fd s1 s2. opens fd s s1 \<and> inert s1 s2 \<and> s' = sys_close K fd s2)
    | Undefined \<Rightarrow> False"
proof (cases "freq = 0")
  case True
  with assms show ?thesis by (auto simp: timer_setup_def)
next
  case False
  obtain rv s1 where call: "sys_timerfd_create K (clock_id Monotonic) TFD_CLOEXEC s = (rv, s1)" by force
  note tr = sys_timerfd_create_trace [OF call]
  show ?thesis
  proof (cases "rv = -1")
    case True
    then have "inert s s1" using tr by (auto simp: inert_def inert_call_def)
    with assms False True call show ?thesis by (auto simp: timer_setup_def timer_new_def)
  next
    case ok: False
    have op: "opens rv s s1" using tr ok by (auto simp: opens_def)
    let ?t = "\<lparr>timer_raw = rv\<rparr>"
    obtain q s2 where arm: "arm_periodic K (period_of freq) ?t s1 = (q, s2)" by force
    note i2 = arm_periodic_inert [OF arm]
    show ?thesis
    proof (cases q)
      case (Inl e)
      with assms False ok call arm have "r = Panic ''failed to arm the flush timer''" "s' = sys_close K rv s2"
        by (auto simp: timer_setup_def timer_new_def)
      with op i2 show ?thesis by auto
    next
      case (Inr u)
      with assms False ok call arm
      have "r = Return (Some ?t)" "s' = println (''Flushing every '' @ show_dur (period_of freq)) s2"
        by (auto simp: timer_setup_def timer_new_def)
      with op inert_trans [OF i2 inert_println] show ?thesis by auto
    qed
  qed
qed

lemma timer_scope_ok:
  assumes laws: "slab_laws (h_slab H)" and d: "distinct_tids st"
    and sc: "timer_scope H a sfd mq st s = Some (out, st', s')"
  shows "scope_ok (h_env H) st s st' s'"
proof -
  let ?E = "h_env H" let ?K = "kern ?E"
  obtain r s1 where set: "timer_setup ?K (h_show_duration H) (frequency a) s = (r, s1)" by force
  note cs = timer_setup_cases [OF set]
  show ?thesis
  proof (cases r)
    case (Return timer)
    let ?srcs = "[PSignal sfd, PQueue mq] @ (case timer of None \<Rightarrow> [] | Some t \<Rightarrow> [PTimer t])"
    obtain s2 where inner: "poll_scope H ?srcs st (println ''Setup Signal Handling'' s1) = Some (out, st', s2)"
        and s': "s' = timer_drop ?K timer s2"
      using sc set Return by (auto simp: timer_scope_def Let_def)
    note ok = scope_trans [OF scope_inert [OF d inert_println] poll_scope_ok [OF laws d inner]]
    show ?thesis
    proof (cases timer)
      case None
      with ok cs Return s' show ?thesis by (simp add: timer_drop_def)
    next
      case (Some t)
      with cs Return obtain s0 where s0: "opens (timer_raw t) s s0" "inert s0 s1" by auto
      from scope_bracket [OF s0(1) scope_trans [OF scope_inert [OF d s0(2)] ok]] Some s' show ?thesis
        by (simp add: timer_drop_def)
    qed
  next
    case (Panic m)
    with sc set have res: "st' = st" "s' = s1" by (auto simp: timer_scope_def Let_def)
    from cs Panic consider "inert s s1"
      | fd sa sb where "opens fd s sa" "inert sa sb" "s1 = sys_close ?K fd sb" by auto
    then show ?thesis
    proof cases
      case 1
      with res scope_inert [OF d] show ?thesis by simp
    next
      case (2 fd sa sb)
      from scope_bracket [OF 2(1) scope_inert [OF d 2(2)]] res 2(3) show ?thesis by simp
    qed
  qed (use cs in simp)
qed

lemma add_signals_trace: "add_signals K sset sigs s = (r, s') \<Longrightarrow> trace s' = trace s"
proof (induction sigs arbitrary: sset s)
  case (Cons i sigs)
  obtain q m s1 where one: "sys_sigaddset K sset (signo i) s = (q, m, s1)" by (metis prod_cases3)
  then have "trace s1 = trace s" by (auto simp: sys_sigaddset_def split: prod.splits)
  with Cons one show ?case by (auto split: if_splits)
qed simp

lemma get_mask_inert: "get_mask K sigs s = (r, s') \<Longrightarrow> inert s s'"
proof -
  assume g: "get_mask K sigs s = (r, s')"
  obtain q m s1 where one: "sys_sigemptyset K s = (q, m, s1)" by (metis prod_cases3)
  then have "trace s1 = trace s" by (auto simp: sys_sigemptyset_def split: prod.splits)
  with g one have "trace s' = trace s" by (auto simp: get_mask_def split: if_splits dest: add_signals_trace)
  then show "inert s s'" by (simp add: inert_def)
qed

lemma block_inert:
  assumes "Signals.block K sigs s = (r, s')" shows "inert s s'"
proof -
  obtain q s1 where m: "get_mask K sigs s = (q, s1)" by force
  note i1 = get_mask_inert [OF m]
  show ?thesis
  proof (cases q)
    case (Inr sset)
    obtain res s2 where call: "sys_sigprocmask K SIG_BLOCK sset s1 = (res, s2)" by force
    then have "inert s1 s2" by (auto simp: inert_def inert_call_def dest: sys_sigprocmask_trace)
    with inert_trans [OF i1 this] assms m Inr call show ?thesis by (auto simp: Signals.block_def)
  qed (use assms m i1 in \<open>auto simp: Signals.block_def\<close>)
qed

lemma signal_fd_new_cases:
  assumes "signal_fd_new K sigs s = (r, s')"
  shows "case r of Inl e \<Rightarrow> inert s s' | Inr sfd \<Rightarrow> \<exists>s1. inert s s1 \<and> opens (signal_raw sfd) s1 s'"
proof -
  obtain q s1 where m: "get_mask K sigs s = (q, s1)" by force
  note i1 = get_mask_inert [OF m]
  show ?thesis
  proof (cases q)
    case (Inr sset)
    obtain rv s2 where call: "sys_signalfd K (-1) sset SFD_CLOEXEC s1 = (rv, s2)" by force
    note tr = sys_signalfd_trace [OF call]
    show ?thesis
    proof (cases "rv = -1")
      case True
      then have "inert s1 s2" using tr by (auto simp: inert_def inert_call_def)
      with inert_trans [OF i1 this] assms m Inr call True show ?thesis by (auto simp: signal_fd_new_def)
    next
      case False
      then have "opens rv s1 s2" using tr by (auto simp: opens_def)
      with i1 assms m Inr call False show ?thesis by (auto simp: signal_fd_new_def)
    qed
  qed (use assms m i1 in \<open>auto simp: signal_fd_new_def\<close>)
qed

lemma signal_scope_ok:
  assumes laws: "slab_laws (h_slab H)" and d: "distinct_tids st"
    and sc: "signal_scope H a mq st s = Some (out, st', s')"
  shows "scope_ok (h_env H) st s st' s'"
proof -
  let ?E = "h_env H" let ?K = "kern ?E"
  obtain r1 s1 where bl: "Signals.block ?K [SIGINT] s = (r1, s1)" by force
  note ok1 = scope_inert [OF d block_inert [OF bl]]
  show ?thesis
  proof (cases r1)
    case (Inl e)
    with sc bl ok1 show ?thesis by (simp add: signal_scope_def Let_def)
  next
    case (Inr u)
    obtain r2 s2 where new: "signal_fd_new ?K [SIGINT] s1 = (r2, s2)" by force
    note cs = signal_fd_new_cases [OF new]
    show ?thesis
    proof (cases r2)
      case (Inl e)
      with cs scope_trans [OF ok1 scope_inert [OF d]] sc bl Inr new show ?thesis
        by (auto simp: signal_scope_def Let_def)
    next
      case sfd: (Inr sfd)
      with cs obtain sm where sm: "inert s1 sm" "opens (signal_raw sfd) sm s2" by auto
      obtain s3 where inner: "timer_scope H a sfd mq st s2 = Some (out, st', s3)"
          and s': "s' = sys_close ?K (signal_raw sfd) s3"
        using sc bl Inr new sfd by (auto simp: signal_scope_def Let_def)
      from scope_bracket [OF sm(2) timer_scope_ok [OF laws d inner]] s'
      show ?thesis using scope_trans [OF ok1 scope_trans [OF scope_inert [OF d sm(1)]]] by simp
    qed
  qed
qed

lemma conserves_empty: "conserves {#} s {#} s' \<longleftrightarrow> (\<exists>d. trace s' = trace s @ d \<and> fds_opened d = fds_closed d)"
  by (simp add: conserves_def)

lemma state_scope_conserves:
  assumes laws: "slab_laws (h_slab H)" "map_order_laws (h_env H)"
    and sc: "state_scope H a mq s = Some (out, s')"
  shows "conserves {#} s {#} s'"
proof -
  let ?E = "h_env H" let ?K = "kern ?E"
  obtain r1 s1 where parse: "parse_event_groups ?K (h_intern H) (join_with CHR '','' (events a)) s = (r1, s1)"
    by force
  note c1 = quiet_conserves [OF inert_quiet [OF inert_parse [OF parse]]]
  show ?thesis
  proof (cases "\<exists>configs. r1 = Return (Inr configs)")
    case False
    with sc parse c1 show ?thesis
      by (auto simp: state_scope_def Let_def split: outcome.splits sum.splits)
  next
    case True
    then obtain configs where r1: "r1 = Return (Inr configs)" by blast
    obtain r2 s2 where new: "state_new ?K configs (output_folder a) s1 = (r2, s2)" by force
    note tr = state_new_trace [OF new]
    show ?thesis
    proof (cases r2)
      case (Return st)
      with tr have d: "distinct_tids st" and none: "state_fds st = {#}"
        by (auto simp: distinct_tids_def state_fds_def)
      have c2: "conserves {#} s1 (mset (csv_fds (csv st))) s2"
        using tr Return by (auto simp: conserves_def)
      obtain st' s3 where inner: "signal_scope H a mq st s2 = Some (out, st', s3)" and s': "s' = state_drop ?E st' s3"
        using sc parse r1 new Return by (auto simp: state_scope_def Let_def)
      note ok = signal_scope_ok [OF laws(1) d inner]
      then have c3: "conserves {#} s2 (state_fds st') s3" and d': "distinct_tids st'"
          and same: "csv_fds (csv st') = csv_fds (csv st)"
        using none by (auto simp: scope_ok_def)
      from conserves_add [OF c3, of "mset (csv_fds (csv st))"] same
      have c4: "conserves (mset (csv_fds (csv st))) s2 (state_fds st' + mset (csv_fds (csv st'))) s3" by simp
      show ?thesis
        unfolding s'
        by (rule conserves_trans [OF conserves_trans [OF c1 c2] conserves_trans [OF c4 state_drop_conserves [OF laws(2) d']]])
    next
      case (Panic m)
      with tr sc parse r1 new conserves_trans [OF c1] show ?thesis by (auto simp: state_scope_def Let_def)
    qed (use tr in simp)
  qed
qed

lemma mq_open_queue_cases:
  assumes "mq_open_queue K n path m s = (r, s')"
  shows "(\<forall>fd. file_text fd (trace s') = file_text fd (trace s))
    \<and> (case r of Inl e \<Rightarrow> inert s s' | Inr fd \<Rightarrow> conserves {#} s {#fd#} s')"
proof -
  obtain prev ret u where t: "trace s' = trace s @ [CUmask 0 prev,
      CMqOpen path MQ_OPEN_FLAGS MQ_MODE \<lparr>mq_flags = 0, mq_maxmsg = m, mq_msgsize = int n, mq_curmsgs = 0\<rparr> ret,
      CUmask prev u]" "r = (if ret = -1 then Inl (last_os_error K s') else Inr ret)"
    using mq_open_queue_trace [OF assms] by blast
  then show ?thesis by (auto simp: inert_def inert_call_def conserves_def)
qed

lemma mq_new_cases:
  assumes "mq_new K n path s = (r, s')"
  shows "(\<forall>fd. file_text fd (trace s') = file_text fd (trace s))
    \<and> (case r of Inl e \<Rightarrow> inert s s' | Inr mq \<Rightarrow> conserves {#} s {#mq_fd mq#} s')"
proof -
  obtain r1 s1 where one: "mq_open_queue K n path DESIRED_MAXMSG s = (r1, s1)" by force
  note c1 = mq_open_queue_cases [OF one]
  show ?thesis
  proof (cases "\<exists>e. r1 = Inl e \<and> kind e = InvalidInput")
    case False
    with assms one c1 show ?thesis by (auto simp: mq_new_def split: sum.splits)
  next
    case True
    then obtain e where e: "r1 = Inl e" "kind e = InvalidInput" by blast
    with c1 have i1: "inert s s1" by simp
    obtain limit s2 where lim: "kernel_maxmsg_limit K s1 = (limit, s2)" by force
    then have i2: "inert s1 s2"
      by (auto simp: kernel_maxmsg_limit_def inert_def inert_call_def split: prod.splits dest!: sys_read_file_trace)
    obtain r2 s3 where two: "mq_open_queue K n path limit s2 = (r2, s3)" by force
    note c2 = mq_open_queue_cases [OF two] and i12 = inert_trans [OF i1 i2]
    have "s' = s3" "r = (case r2 of Inl e \<Rightarrow> Inl e | Inr fd \<Rightarrow> Inr \<lparr>mq_fd = fd, mq_name = path\<rparr>)"
      using assms one e lim two by (auto simp: mq_new_def split: sum.splits)
    with c2 inert_still [OF i12] inert_trans [OF i12] conserves_trans [OF quiet_conserves [OF inert_quiet [OF i12]]]
    show ?thesis by (auto split: sum.splits)
  qed
qed

section \<open>The program as a whole\<close>

text \<open>
  \<^bold>\<open>C2.\<close> No descriptor outlives the program or is closed twice: on every run of \<open>main\<close> that ends,
  whether it returns, fails to start, stops with an error of the loop or panics anywhere and
  unwinds, the descriptors opened (queue, files, signalfd, timerfd, epoll and every counter of
  every thread) are, as a multiset, exactly the descriptors closed.
\<close>

theorem main_closes_what_it_opens:
  assumes "slab_laws (h_slab H)" "map_order_laws (h_env H)" "main_body H a s = Some (out, s')"
  shows "\<exists>d. trace s' = trace s @ d \<and> fds_opened d = fds_closed d"
proof -
  let ?K = "kern (h_env H)"
  let ?s0 = "println ''Parsed Args'' s"
  obtain r s1 where new: "mq_new ?K message_size MQ_NAME ?s0 = (r, s1)" by force
  note c0 = quiet_conserves [OF inert_quiet [OF inert_println]]
  note c1 = mq_new_cases [OF new]
  show ?thesis
  proof (cases r)
    case (Inl e)
    with assms(3) new have "s' = s1" by (simp add: main_body_def Let_def)
    with c1 Inl conserves_trans [OF c0 quiet_conserves [OF inert_quiet]] show ?thesis
      unfolding conserves_empty [symmetric] by auto
  next
    case (Inr mq)
    obtain s2 where inner: "state_scope H a mq (println ''Opened Message Queue'' s1) = Some (out, s2)"
        and s': "s' = mq_drop ?K mq s2"
      using assms(3) new Inr by (auto simp: main_body_def Let_def)
    from c1 Inr have "conserves {#} ?s0 {#mq_fd mq#} s1" by simp
    from conserves_trans [OF conserves_trans [OF c0 this] c0]
    have c2: "conserves {#} s {#mq_fd mq#} (println ''Opened Message Queue'' s1)" .
    have c3: "conserves {#mq_fd mq#} (println ''Opened Message Queue'' s1) {#mq_fd mq#} s2"
      using conserves_add [OF state_scope_conserves [OF assms(1,2) inner], of "{#mq_fd mq#}"] by simp
    have "conserves {#mq_fd mq#} s2 {#} s'" by (simp add: s' mq_drop_def conserves_def)
    from conserves_trans [OF conserves_trans [OF c2 c3] this] show ?thesis unfolding conserves_empty .
  qed
qed

section \<open>The files of a run\<close>

text \<open>Opening a file gives a descriptor that is not open yet.\<close>

definition file_laws :: "'w kernel \<Rightarrow> ('w \<Rightarrow> int set) \<Rightarrow> bool" where
  "file_laws K live \<longleftrightarrow> (\<forall>path w r w'. k_file_open K path w = (r, w') \<longrightarrow> 0 \<le> r \<longrightarrow>
     r \<notin> live w \<and> live w' = insert r (live w))"

lemma open_file_live:
  assumes "file_laws K live" "open_file K path s = (Inr fd, s')"
  shows "fd \<notin> live (world s) \<and> live (world s') = insert fd (live (world s))"
proof -
  obtain r w where k: "k_file_open K path (world s) = (r, w)" by force
  with assms(2) have "r = fd" "0 \<le> r" "world s' = w"
    by (auto simp: open_file_def sys_file_open_def split: if_splits)
  with assms(1) k show ?thesis by (simp add: file_laws_def)
qed

lemma csv_open_distinct:
  assumes "file_laws K live" "csv_open K folder s = (Inr c, s')"
  shows "distinct (csv_fds c)"
proof -
  obtain r1 s1 where o1: "open_file K (path_join folder ''threadstat-event.csv'') s = (r1, s1)" by force
  obtain r2 s2 where o2: "open_file K (path_join folder ''threadstat-read.csv'') s1 = (r2, s2)" by force
  obtain r3 s3 where o3: "open_file K (path_join folder ''threadstat-event-description.csv'') s2 = (r3, s3)"
    by force
  note headers = write_header [OF headers_fit(1)] write_header [OF headers_fit(2)] write_header [OF headers_fit(3)]
  from assms(2) o1 o2 o3 obtain f1 f2 f3 where f: "r1 = Inr f1" "r2 = Inr f2" "r3 = Inr f3"
    by (auto simp: csv_open_def Let_def headers simp del: write_pieces.simps split: sum.splits)
  with assms(2) o1 o2 o3 have "csv_fds c = [f1, f2, f3]"
    by (auto simp: csv_open_def Let_def headers csv_fds_def simp del: write_pieces.simps)
  with open_file_live [OF assms(1) o1 [unfolded f]] open_file_live [OF assms(1) o2 [unfolded f]]
    open_file_live [OF assms(1) o3 [unfolded f]]
  show ?thesis by auto
qed

text \<open>
  What a reader of the three files finds: the headers, then the rows of a sequence of attempts
  numbered from 0, where event rows refer to read rows and (up to \<open>2 ^ 64\<close> attempts) read ids are
  unique.
\<close>

definition complete_files :: "string \<Rightarrow> call list \<Rightarrow> bool" where
  "complete_files folder cs \<longleftrightarrow>
     (\<exists>e q d as ds. CFileOpen (path_join folder ''threadstat-event.csv'') e \<in> set cs
        \<and> CFileOpen (path_join folder ''threadstat-read.csv'') q \<in> set cs
        \<and> CFileOpen (path_join folder ''threadstat-event-description.csv'') d \<in> set cs
        \<and> file_text e cs = event_header @ newline @ concat (map event_line (sample_rows 0 as))
        \<and> file_text q cs = read_header @ newline @ concat (map read_line (sample_rows 0 as))
        \<and> file_text d cs = desc_header @ newline @ concat (map desc_line (desc_rows ds))
        \<and> set (event_refs (sample_rows 0 as)) \<subseteq> set (read_ids (sample_rows 0 as))
        \<and> (length as \<le> 2 ^ 64 \<longrightarrow> distinct (read_ids (sample_rows 0 as))))"

lemma state_drop_texts:
  assumes "writes_succeed (kern E)" "distinct (csv_fds (csv st))"
  shows "file_text (bw_fd (cw_event (csv st))) (trace (state_drop E st s)) = event_text (csv st) s
    \<and> file_text (bw_fd (cw_read (csv st))) (trace (state_drop E st s)) = read_text (csv st) s
    \<and> file_text (bw_fd (cw_desc (csv st))) (trace (state_drop E st s)) = desc_text (csv st) s"
proof -
  let ?s1 = "reader_drop (kern E) (reader st) (fold (\<lambda>t s. drop_groups (kern E) (the (map_of (groups st) t)) s)
          (map_order E (map fst (groups st))) s)"
  have "file_text f (trace ?s1) = file_text f (trace s)" for f
    by (simp only: inert_still [OF reader_drop_inert] drop_tids_still)
  then have same: "bw_text w ?s1 = bw_text w s" for w by (simp add: bw_text_def)
  have "\<And>fd bs w. fst (snd (k_file_write (kern E) fd bs w)) = None" using assms(1) by (simp add: writes_succeed_def)
  from csv_drop_texts [OF assms(2) this, of ?s1] show ?thesis
    by (simp add: state_drop_def event_text_def read_text_def desc_text_def same)
qed

lemma trace_prefix_state_drop: "set (trace s) \<subseteq> set (trace (state_drop E st s))" if "map_order_laws E" "distinct_tids st"
  using state_drop_conserves [OF that, of s] by (auto simp: conserves_def)

lemma state_scope_files:
  assumes laws: "slab_laws (h_slab H)" "map_order_laws (h_env H)" "writes_succeed (kern (h_env H))"
      "file_laws (kern (h_env H)) live"
    and fresh: "\<forall>fd. file_text fd (trace s) = []"
    and sc: "state_scope H a mq s = Some (Return (), s')"
  shows "complete_files (output_folder a) (trace s')"
proof -
  let ?E = "h_env H" let ?K = "kern ?E"
  obtain r1 s1 where parse: "parse_event_groups ?K (h_intern H) (join_with CHR '','' (events a)) s = (r1, s1)"
    by force
  then obtain configs where r1: "r1 = Return (Inr configs)"
    using sc by (auto simp: state_scope_def Let_def split: outcome.splits sum.splits)
  obtain r2 s2 where new: "state_new ?K configs (output_folder a) s1 = (r2, s2)" by force
  then obtain st where r2: "r2 = Return st"
    using sc parse r1 by (auto simp: state_scope_def Let_def split: outcome.splits)
  obtain c where c: "csv_open ?K (output_folder a) s1 = (Inr c, s2)"
      and st: "st = \<lparr>event_configs = configs, groups = [], reader = reader_new, csv = c, read_id = 0\<rparr>"
    using new r2 by (auto simp: state_new_def split: prod.splits sum.splits)
  note dist = csv_open_distinct [OF laws(4) c]
  have fresh1: "file_text fd (trace s1) = []" for fd
    using inert_still [OF inert_parse [OF parse]] fresh by metis
  obtain e q d where opened: "trace s2 = trace s1 @ [CFileOpen (path_join (output_folder a) ''threadstat-event.csv'') e,
        CFileOpen (path_join (output_folder a) ''threadstat-read.csv'') q,
        CFileOpen (path_join (output_folder a) ''threadstat-event-description.csv'') d]"
      "c = \<lparr>cw_event = \<lparr>bw_fd = e, bw_buf = event_header @ newline\<rparr>,
            cw_read = \<lparr>bw_fd = q, bw_buf = read_header @ newline\<rparr>,
            cw_desc = \<lparr>bw_fd = d, bw_buf = desc_header @ newline\<rparr>\<rparr>"
    using csv_open_trace [where K = ?K and folder = "output_folder a" and s = s1] c by auto
  let ?b = "(event_header @ newline, read_header @ newline, desc_header @ newline)"
  have "ledger ?b st s2"
    using dist fresh1 opened st
    by (auto simp: ledger_def event_text_def read_text_def desc_text_def bw_text_def desc_rows_def
        intro!: exI [of _ "[]"])
  then have start: "accounted ?K ?b st s2" by (simp add: accounted_def)
  have d0: "distinct_tids st" by (simp add: st distinct_tids_def)
  obtain st' s3 where inner: "signal_scope H a mq st s2 = Some (Return (), st', s3)" and s': "s' = state_drop ?E st' s3"
    using sc parse r1 new r2 by (auto simp: state_scope_def Let_def)
  note ok = signal_scope_ok [OF laws(1) d0 inner]
  from ok start have "accounted ?K ?b st' s3" unfolding scope_ok_def by blast
  then have led: "ledger ?b st' s3" using laws(3) by (simp add: accounted_def)
  have fds: "csv_fds (csv st') = [e, q, d]" and d': "distinct_tids st'"
    using ok opened st by (auto simp: scope_ok_def csv_fds_def)
  have dist': "distinct (csv_fds (csv st'))" using led by (simp add: ledger_def)
  from led obtain as ds where rows:
      "event_text (csv st') s3 = event_header @ newline @ concat (map event_line (sample_rows 0 as))"
      "read_text (csv st') s3 = read_header @ newline @ concat (map read_line (sample_rows 0 as))"
      "desc_text (csv st') s3 = desc_header @ newline @ concat (map desc_line (desc_rows ds))"
    by (auto simp: ledger_def)
  have texts: "file_text e (trace s') = event_text (csv st') s3" "file_text q (trace s') = read_text (csv st') s3"
      "file_text d (trace s') = desc_text (csv st') s3"
    using state_drop_texts [OF laws(3) dist', of s3] fds s' by (auto simp: csv_fds_def)
  have "set (trace s2) \<subseteq> set (trace s3)" using ok by (auto simp: scope_ok_def conserves_def)
  then have "set (trace s2) \<subseteq> set (trace s')"
    using trace_prefix_state_drop [OF laws(2) d', of s3] s' by auto
  with opened(1) texts rows sample_refs [of 0 as] sample_read_ids_distinct [of as 0] show ?thesis
    unfolding complete_files_def
    by (intro exI [of _ e] exI [of _ q] exI [of _ d] exI [of _ as] exI [of _ ds]) auto
qed

text \<open>
  The files of a normal run are complete and consistent: when the kernel's writes succeed
  and a fresh descriptor is never one already open, a run that returns leaves the three files with
  their headers and, after them, exactly the rows of the samples taken, numbered consecutively
  from 0; every event row refers to a read row and read ids are unique. Nothing is left in a
  buffer, and no byte went to another file.
\<close>

theorem main_files_complete:
  assumes "slab_laws (h_slab H)" "map_order_laws (h_env H)" "writes_succeed (kern (h_env H))"
    and "file_laws (kern (h_env H)) live" "main_body H a (boot w) = Some (Return (), s')"
  shows "complete_files (output_folder a) (trace s')"
proof -
  let ?K = "kern (h_env H)"
  let ?s0 = "println ''Parsed Args'' (boot w)"
  obtain r s1 where new: "mq_new ?K message_size MQ_NAME ?s0 = (r, s1)" by force
  then obtain mq where r: "r = Inr mq" using assms(5) by (auto simp: main_body_def Let_def split: sum.splits)
  then obtain s2 where inner: "state_scope H a mq (println ''Opened Message Queue'' s1) = Some (Return (), s2)"
      and s': "s' = mq_drop ?K mq s2"
    using assms(5) new by (auto simp: main_body_def Let_def)
  have "\<forall>fd. file_text fd (trace (println ''Opened Message Queue'' s1)) = []"
    using mq_new_cases [OF new] by (simp add: boot_def)
  from state_scope_files [OF assms(1-4) this inner] have "complete_files (output_folder a) (trace s2)" .
  then show ?thesis by (fastforce simp: s' mq_drop_def complete_files_def)
qed

section \<open>A concrete run\<close>

text \<open>An environment in which SIGINT is pending from the start and descriptors are numbered.\<close>

definition stop_kernel :: "int kernel" where
  "stop_kernel = idle_kernel\<lparr>
     k_file_open := (\<lambda>path w. if 0 \<le> w then (w, w + 1) else (-1, w)),
     k_epoll_wait := (\<lambda>epfd n t w. (1, [\<lparr>ee_events = 1, ee_data = 0\<rparr>], w))\<rparr>"

definition stop_host ::
    "(string, unit, int, (nat \<times> (pollable, string state, int) source) list) host" where
  "stop_host = \<lparr>
     h_env = \<lparr>kern = stop_kernel, casts = sized_casts, name_str = (\<lambda>n. n), map_order = (\<lambda>ks. ks)\<rparr>,
     h_intern = plain_interner, h_slab = assoc_slab, h_show_duration = (\<lambda>d. ''0ns'')\<rparr>"

definition stop_args :: args where
  "stop_args = \<lparr>events = [''a''], output_folder = ''out'', frequency = 0\<rparr>"

lemma stop_laws:
  "slab_laws (h_slab stop_host)" "map_order_laws (h_env stop_host)" "writes_succeed (kern (h_env stop_host))"
  "file_laws (kern (h_env stop_host)) (\<lambda>w. {0..<w})"
  by (simp_all add: stop_host_def assoc_slab_laws map_order_laws_def writes_succeed_def file_laws_def
      stop_kernel_def idle_kernel_def) auto

lemma stop_parse:
  assumes "pfm_cell s = None"
  shows "\<exists>cfg s'. parse_event_groups stop_kernel plain_interner ''a'' s = (Return (Inr [new_single cfg]), s')
     \<and> world s' = world s"
proof -
  have t: "trim ''a'' = ''a''" by (rule trim_plain) (simp_all add: plain_char_def)
  show ?thesis
    by (simp add: parse_event_groups_def parse_loop.simps scan_while.simps is_separator_def
        is_ascii_whitespace_def is_name_char_def str_slice_def is_char_boundary_def continuation_def t
        parse_bare_def plain_interner_def Let_def from_pfm_string_def get_perf_attr_array_def os_simps
        stop_kernel_def idle_kernel_def pfm_force_def assms PFM_SUCCESS_def) blast
qed

lemma stop_signal_read:
  "\<exists>s'. signal_read stop_kernel sfd s = (Return (Inr (replicate siginfo_size 0)), s') \<and> world s' = world s"
proof -
  obtain r bs s' where call: "sys_read stop_kernel (signal_raw sfd) siginfo_size s = (r, bs, s')" by (metis prod_cases3)
  then have "r = int siginfo_size" "bs = replicate siginfo_size 0" "world s' = world s"
    by (auto simp: os_simps stop_kernel_def idle_kernel_def)
  with call assume_init_full [of "replicate siginfo_size 0" siginfo_size] show ?thesis by (simp add: signal_read_def)
qed

lemma stop_run:
  assumes "sl_get assoc_slab (sources p) 0 = Some \<lparr>src_fd = fd, src_r = PSignal sfd, src_func = source_handler (h_env stop_host)\<rparr>"
  shows "\<exists>p' s'. run stop_kernel assoc_slab p st s = Some (Return (Inr ()), p', st, s') \<and> world s' = world s"
proof -
  let ?ev = "\<lparr>ee_events = 1, ee_data = 0\<rparr> :: epoll_event"
  obtain s1 where w: "wait_ready stop_kernel (poller_fd p) zero_events s = Some (Inr (1, fill zero_events [?ev]), s1)"
      "world s1 = world s"
    by (simp add: wait_ready.simps os_simps stop_kernel_def)
  obtain s2 where rd: "signal_read stop_kernel sfd s1 = (Return (Inr (replicate siginfo_size 0)), s2)" "world s2 = world s1"
    using stop_signal_read by blast
  have take: "take 1 (fill zero_events [?ev]) = [?ev]" "fill zero_events [?ev] \<noteq> []"
    by (simp_all add: zero_events_def COUNT_def fill_def)
  have "\<exists>p'. handle_event stop_kernel assoc_slab ?ev p st s1 = (Return (Inr StopNow), p', st, s2)"
    using assms rd by (simp add: handle_event_def READABLE_def HANGUP_def EPOLLIN_def EPOLLERR_def EPOLLHUP_def
        call_func_def source_handler_def signal_handler_def stop_host_def resolve_action_def)
  then obtain p' where "handle_event stop_kernel assoc_slab ?ev p st s1 = (Return (Inr StopNow), p', st, s2)" ..
  then have "poll_once stop_kernel assoc_slab p st s = Some (Return (Inr Stop), p', st, s2)"
    using w(1) take by (simp add: poll_once_def)
  then have "run stop_kernel assoc_slab p st s = Some (Return (Inr ()), p', st, s2)"
    by (simp add: run_unfold run_result_def)
  with w rd show ?thesis by simp
qed

lemma stop_poll_scope:
  assumes "groups st = []"
  shows "\<exists>s'. poll_scope stop_host [PSignal sfd, PQueue mq] st s = Some (Return (), st, s')"
proof -
  let ?H = "stop_host" let ?K = "kern (h_env stop_host)"
  have K: "?K = stop_kernel" "h_slab ?H = assoc_slab" by (simp_all add: stop_host_def)
  obtain p0 :: "(nat \<times> (pollable, string state, int) source) list poller" and s1
    where new: "poller_new stop_kernel assoc_slab s = (Return p0, s1)" "sources p0 = []"
    by (simp add: poller_new_def epoll_create_def os_simps stop_kernel_def idle_kernel_def)
  have "\<exists>p s2. register_all ?H [PSignal sfd, PQueue mq] p0 s1 = (Return (), p, s2)
      \<and> map_of (sources p) 0 = Some \<lparr>src_fd = signal_raw sfd, src_r = PSignal sfd, src_func = source_handler (h_env ?H)\<rparr>"
    using new(2) by (simp add: register_mut_def K Let_def os_simps signal_pollable_fd_def stop_kernel_def
        idle_kernel_def)
  then obtain p s2 where reg: "register_all ?H [PSignal sfd, PQueue mq] p0 s1 = (Return (), p, s2)"
      "map_of (sources p) 0 = Some \<lparr>src_fd = signal_raw sfd, src_r = PSignal sfd, src_func = source_handler (h_env ?H)\<rparr>"
    by blast
  obtain p' s3 where run: "run stop_kernel assoc_slab p st s2 = Some (Return (Inr ()), p', st, s3)"
    using stop_run [of p "signal_raw sfd" sfd st s2] reg(2) by auto
  have "map_order (h_env stop_host) [] = []" by (simp add: stop_host_def)
  with assms have "after_loop (h_env ?H) (Return (Inr ())) st s3 = (Return (), st, println ''Finished the polling loop'' s3)"
    by (simp add: after_loop_def loop_result_def flush_all_def)
  with new reg(1) run show ?thesis by (simp add: poll_scope_def K)
qed

lemma stop_main: "\<exists>s'. main_body stop_host stop_args (boot 20) = Some (Return (), s')"
proof -
  have K: "kern (h_env stop_host) = stop_kernel" "h_intern stop_host = plain_interner" by (simp_all add: stop_host_def)
  obtain mq s1 where mq: "mq_new stop_kernel message_size MQ_NAME (println ''Parsed Args'' (boot 20)) = (Inr mq, s1)"
      "world s1 = 20" "pfm_cell s1 = None"
    by (simp add: mq_new_def mq_open_queue_def os_simps stop_kernel_def idle_kernel_def boot_def Let_def)
  let ?s1 = "println ''Opened Message Queue'' s1"
  have "world ?s1 = 20" "pfm_cell ?s1 = None" using mq by (simp_all add: println_def)
  with stop_parse [of ?s1] obtain cfg s2 where
    parse: "parse_event_groups stop_kernel plain_interner ''a'' ?s1 = (Return (Inr [new_single cfg]), s2)" "world s2 = 20"
    by auto
  note headers = write_header [OF headers_fit(1)] write_header [OF headers_fit(2)] write_header [OF headers_fit(3)]
  have "\<exists>c s3. csv_open stop_kernel ''out'' s2 = (Inr c, s3)"
    using parse(2) by (simp add: csv_open_def open_file_def path_join_def sys_file_open_def stop_kernel_def
        headers Let_def del: write_pieces.simps)
  then obtain c s3 where csv: "csv_open stop_kernel ''out'' s2 = (Inr c, s3)" by blast
  let ?st = "\<lparr>event_configs = [new_single cfg], groups = [], reader = reader_new, csv = c, read_id = 0\<rparr>"
  have state: "state_new stop_kernel [new_single cfg] ''out'' s2 = (Return ?st, s3)" using csv by (simp add: state_new_def)
  obtain s4 where bl: "Signals.block stop_kernel [SIGINT] s3 = (Inr (), s4)"
    by (simp add: Signals.block_def get_mask_def os_simps stop_kernel_def idle_kernel_def)
  obtain sfd s5 where sfd: "signal_fd_new stop_kernel [SIGINT] s4 = (Inr sfd, s5)"
    by (simp add: signal_fd_new_def get_mask_def os_simps stop_kernel_def idle_kernel_def)
  obtain s6 where poll: "poll_scope stop_host [PSignal sfd, PQueue mq] ?st (println ''Setup Signal Handling'' s5)
      = Some (Return (), ?st, s6)"
    using stop_poll_scope [of ?st sfd mq] by auto
  have "timer_scope stop_host stop_args sfd mq ?st s5 = Some (Return (), ?st, s6)"
    using poll by (simp add: timer_scope_def timer_setup_def stop_args_def timer_drop_def)
  then have "signal_scope stop_host stop_args mq ?st s3 = Some (Return (), ?st, sys_close stop_kernel (signal_raw sfd) s6)"
    using bl sfd by (simp add: signal_scope_def K)
  then show ?thesis
    using mq(1) parse(1) state by (simp add: main_body_def state_scope_def K stop_args_def)
qed

theorem main_closes_what_it_opens_witness:
  "\<exists>s' d. main_body stop_host stop_args (boot 20) = Some (Return (), s') \<and> trace s' = d
     \<and> fds_opened d = fds_closed d"
proof -
  obtain s' where run: "main_body stop_host stop_args (boot 20) = Some (Return (), s')" using stop_main by blast
  from main_closes_what_it_opens [OF stop_laws(1,2) run] run show ?thesis by (auto simp: boot_def)
qed

theorem main_files_complete_witness:
  "\<exists>s'. main_body stop_host stop_args (boot 20) = Some (Return (), s') \<and> complete_files ''out'' (trace s')"
proof -
  obtain s' where run: "main_body stop_host stop_args (boot 20) = Some (Return (), s')" using stop_main by blast
  from main_files_complete [OF stop_laws run] run show ?thesis by (auto simp: stop_args_def)
qed

section \<open>The flush period is exact\<close>

lemma half_even_nearest: "0 < b \<Longrightarrow> 2 * \<bar>int (half_even a b) * int b - int a\<bar> \<le> int b"
proof -
  assume b: "0 < b"
  define q r where "q = int (a div b)" "r = int (a mod b)"
  have a: "int a = q * int b + r" unfolding q_r_def by (metis div_mult_mod_eq of_nat_add of_nat_mult)
  have r: "0 \<le> r" "r < int b" using b by (auto simp: q_r_def)
  have step: "(q + 1) * int b = q * int b + int b" by (simp add: algebra_simps)
  consider "2 * r < int b" "int (half_even a b) = q" | "int b \<le> 2 * r" "int (half_even a b) = q + 1"
    | "int b = 2 * r" "int (half_even a b) = q"
    by (fastforce simp: half_even_def Let_def q_r_def split: if_splits)
  then show ?thesis using a r step by cases auto
qed

lemma ilog2_bounds: "0 < n \<Longrightarrow> 2 ^ ilog2 n \<le> n \<and> n < 2 ^ (ilog2 n + 1)"
proof (induction n rule: ilog2.induct)
  case (1 n)
  show ?case
  proof (cases "n \<le> 1")
    case True
    with 1(2) have "n = 1" by simp
    moreover have "ilog2 1 = 0" by (subst ilog2.simps) simp
    ultimately show ?thesis by simp
  next
    case False
    with 1 have "2 ^ ilog2 (n div 2) \<le> n div 2" "n div 2 < 2 ^ (ilog2 (n div 2) + 1)" by auto
    moreover have "2 * (n div 2) \<le> n" "n < 2 * (n div 2) + 2" by auto
    moreover have "ilog2 n = Suc (ilog2 (n div 2))" using False by (subst ilog2.simps) simp
    ultimately show ?thesis by simp
  qed
qed

lemma period_nanos_nearest:
  assumes "0 < f"
  shows "2 * \<bar>int (period_nanos f) * int f - 1000000000\<bar> \<le> int f"
proof -
  define S m n F where "S = (2 :: int) ^ (53 + ilog2 f)" "m = int (recip_mantissa f)"
    "n = int (period_nanos f)" "F = int f"
  note defs = S_m_n_F_def
  have h1: "2 * \<bar>m * F - S\<bar> \<le> F"
    using half_even_nearest [OF assms, of "2 ^ (53 + ilog2 f)"] by (simp add: defs recip_mantissa_def)
  have h2: "2 * \<bar>n * S - m * 1000000000\<bar> \<le> S"
    using half_even_nearest [of "2 ^ (53 + ilog2 f)" "recip_mantissa f * 1000000000"]
    by (simp add: defs period_nanos_def)
  have twice: "\<bar>2 * x\<bar> = 2 * \<bar>x\<bar>" for x :: int by simp
  note h1' = h1 [folded twice] and h2' = h2 [folded twice]
  have F: "0 < F" using assms by (simp add: defs)
  have "int f < 2 ^ (ilog2 f + 1)" using ilog2_bounds [OF assms] by (metis of_nat_less_iff of_nat_numeral of_nat_power)
  then have big: "F * 2 ^ 52 < S" by (simp add: defs power_add)
  have S: "0 < S" by (simp add: defs)
  have tri: "\<bar>F * x + 1000000000 * y\<bar> \<le> F * \<bar>x\<bar> + 1000000000 * \<bar>y\<bar>" for x y
    using F abs_triangle_ineq [of "F * x" "1000000000 * y"] by (simp add: abs_mult)
  have "2 * \<bar>n * F - 1000000000\<bar> * S = \<bar>F * (2 * (n * S - m * 1000000000)) + 1000000000 * (2 * (m * F - S))\<bar>"
  proof -
    have "2 * (n * F - 1000000000) * S = F * (2 * (n * S - m * 1000000000)) + 1000000000 * (2 * (m * F - S))"
      by (simp add: algebra_simps)
    moreover have "2 * \<bar>x\<bar> * S = \<bar>2 * x * S\<bar>" for x using S by (simp add: abs_mult)
    ultimately show ?thesis by metis
  qed
  also have "\<dots> \<le> F * \<bar>2 * (n * S - m * 1000000000)\<bar> + 1000000000 * \<bar>2 * (m * F - S)\<bar>"
    by (rule tri)
  also have "\<dots> \<le> F * S + 1000000000 * F"
    using h1' h2' F by (intro add_mono mult_left_mono) simp_all
  also have "\<dots> < (F + 1) * S"
    using big F by (simp add: algebra_simps)
  finally have "2 * \<bar>n * F - 1000000000\<bar> < F + 1" using S by (simp only: mult_less_cancel_right_pos)
  then show ?thesis by (simp add: defs)
qed

lemma period_nearest:
  assumes "0 < freq"
  shows "2 * \<bar>period_ns (period_of freq) * uint freq - 1000000000\<bar> \<le> uint freq
    \<and> duration_ok (period_of freq) \<and> uint (as_secs (period_of freq)) \<le> 1"
proof -
  let ?f = "unat freq" let ?ns = "period_nanos ?f"
  have f: "0 < ?f" using assms by (simp add: unat_gt_0)
  note near = period_nanos_nearest [OF f]
  have fu: "int ?f = uint freq" by simp
  have "2 * \<bar>t - c\<bar> \<le> F \<Longrightarrow> t \<le> c + F" for t c F :: int by arith
  from this [OF near] have le: "int ?ns * int ?f \<le> 1000000000 + int ?f" .
  have "?ns \<le> 1000000001"
  proof (rule ccontr)
    assume "\<not> ?ns \<le> 1000000001"
    then have "1000000002 * int ?f \<le> int ?ns * int ?f" using f by (intro mult_right_mono) auto
    with le f show False by linarith
  qed
  then have secs: "?ns div 1000000000 \<le> 1" by simp
  then have s: "uint (of_nat (?ns div 1000000000) :: u64) = int (?ns div 1000000000)"
    by (simp add: unsigned_of_nat take_bit_nat_eq_self)
  have n: "uint (of_nat (?ns mod 1000000000) :: u32) = int (?ns mod 1000000000)"
    by (simp add: unsigned_of_nat take_bit_nat_eq_self)
  have "period_ns (period_of freq) = int ?ns"
    unfolding period_ns_def period_of_def Let_def
    by (simp add: s n) (metis of_nat_add of_nat_mult of_nat_numeral div_mult_mod_eq)
  with near n s secs show ?thesis by (simp add: fu duration_ok_def period_of_def Let_def)
qed

text \<open>
  \<^bold>\<open>C32.\<close> The flush period is the best possible one: for every non-zero frequency, the period is
  a whole number of nanoseconds nearest to the exact quotient of one second, in spite of the two
  roundings in floating point on the way (twice the error, times the frequency, is at most the
  frequency), and it is stored in a valid duration of at most one second.
\<close>

theorem period_is_nearest:
  assumes "0 < freq"
  shows "2 * \<bar>period_ns (period_of freq) * uint freq - 1000000000\<bar> \<le> uint freq
    \<and> duration_ok (period_of freq) \<and> uint (as_secs (period_of freq)) \<le> 1"
  by (rule period_nearest [OF assms])

text \<open>At three flushes per second, the period is the rounding of a third of a second.\<close>

theorem period_is_nearest_witness:
  "2 * \<bar>period_ns (period_of 3) * 3 - 1000000000\<bar> \<le> (3 :: int) \<and> duration_ok (period_of 3)
    \<and> uint (as_secs (period_of 3)) \<le> 1"
  using period_is_nearest [of 3] by simp

lemma period_of_nonzero:
  assumes "0 < freq"
  shows "uint freq < 2000000000 \<Longrightarrow> 0 < period_ns (period_of freq)"
    and "2000000000 < uint freq \<Longrightarrow> period_ns (period_of freq) = 0"
proof -
  note near = period_nearest [OF assms]
  have nn: "0 \<le> period_ns (period_of freq)" by (simp add: period_ns_def)
  show "0 < period_ns (period_of freq)" if "uint freq < 2000000000"
  proof (rule ccontr)
    assume "\<not> ?thesis"
    with nn have "period_ns (period_of freq) = 0" by simp
    with near that show False by simp
  qed
  show "period_ns (period_of freq) = 0" if big: "2000000000 < uint freq"
  proof (rule ccontr)
    assume "\<not> ?thesis"
    with nn have "1 \<le> period_ns (period_of freq)" by simp
    then have "1 * uint freq \<le> period_ns (period_of freq) * uint freq" by (intro mult_right_mono) auto
    moreover have "2 * (x - c) \<le> F" if "2 * \<bar>x - c\<bar> \<le> F" for x c F :: int using that by arith
    from this [OF near [THEN conjunct1]]
    have "2 * (period_ns (period_of freq) * uint freq - 1000000000) \<le> uint freq" .
    moreover have "F \<le> x \<Longrightarrow> 2 * (x - 1000000000) \<le> F \<Longrightarrow> \<not> 2000000000 < F" for x F :: int by arith
    ultimately show False using big by (metis mult_1)
  qed
qed

lemma is_zero_period_ns: "is_zero d \<longleftrightarrow> period_ns d = 0"
proof -
  have "0 \<le> uint (as_secs d)" "0 \<le> uint (subsec_nanos d)" by simp_all
  then have "period_ns d = 0 \<longleftrightarrow> uint (as_secs d) = 0 \<and> uint (subsec_nanos d) = 0"
    unfolding period_ns_def by linarith
  then show ?thesis by (simp add: is_zero_def uint_0_iff)
qed

text \<open>
  \<^bold>\<open>C31.\<close> The range of the option \<open>--frequency\<close>. Below two thousand million flushes per second the
  timer is armed with exactly the nearest period, which is not zero, for its first expiry and for
  every later one; above, the period rounds to zero, arming refuses it without a call, and the
  program stops with a panic before the loop, with the timer closed.
\<close>

theorem timer_setup_range:
  assumes "freq \<noteq> 0" "sys_timerfd_create K 1 TFD_CLOEXEC s = (rv, s1)" "rv \<noteq> -1"
  shows "case timer_setup K show_dur freq s of (out, s') \<Rightarrow>
     (2000000000 < uint freq \<longrightarrow> out = Panic ''failed to arm the flush timer'' \<and> s' = sys_close K rv s1)
   \<and> (uint freq < 2000000000 \<longrightarrow>
        (\<exists>ts res more. ts \<noteq> ZERO \<and> timespec_ns ts = period_ns (period_of freq)
           \<and> trace s' = trace s1 @ [CTimerSettime rv \<lparr>it_interval = ts, it_value = ts\<rparr> res] @ more
           \<and> (if res = -1 then out = Panic ''failed to arm the flush timer''
              else out = Return (Some \<lparr>timer_raw = rv\<rparr>))))"
proof -
  have pos: "0 < freq" using assms(1) by (simp add: word_gt_0)
  have new: "timer_new K Monotonic s = (Inr \<lparr>timer_raw = rv\<rparr>, s1)" using assms by (simp add: timer_new_def)
  show ?thesis
  proof (cases "is_zero (period_of freq)")
    case True
    then have "\<not> uint freq < 2000000000" using period_of_nonzero(1) [OF pos] by (auto simp: is_zero_period_ns)
    with True new assms(1) show ?thesis by (simp add: timer_setup_def arm_periodic_def)
  next
    case False
    then have small: "\<not> 2000000000 < uint freq" using period_of_nonzero(2) [OF pos] by (auto simp: is_zero_period_ns)
    let ?ts = "\<lparr>tv_sec = uint (as_secs (period_of freq)), tv_nsec = uint (subsec_nanos (period_of freq))\<rparr>"
    have "uint (as_secs (period_of freq)) < 2 ^ 63" using period_nearest [OF pos] by simp
    then have ts: "to_timespec (period_of freq) = Inr ?ts" by (simp add: to_timespec_cases)
    have nz: "?ts \<noteq> ZERO" using to_timespec_nonzero [OF False ts] .
    have ns: "timespec_ns ?ts = period_ns (period_of freq)" by (simp add: timespec_ns_def period_ns_def)
    obtain r s2 where set: "settime K \<lparr>it_interval = ?ts, it_value = ?ts\<rparr> \<lparr>timer_raw = rv\<rparr> s1 = (r, s2)" by force
    with settime_trace obtain res where
      tr: "trace s2 = trace s1 @ [CTimerSettime rv \<lparr>it_interval = ?ts, it_value = ?ts\<rparr> res]"
        "r = (if res = -1 then Inl (last_os_error K s2) else Inr ())" by fastforce
    have arm: "arm_periodic K (period_of freq) \<lparr>timer_raw = rv\<rparr> s1 = (r, s2)"
      using False ts set by (simp add: arm_periodic_def)
    obtain out s' where out: "timer_setup K show_dur freq s = (out, s')" by force
    with arm new assms(1) tr have
      "(if res = -1 then out = Panic ''failed to arm the flush timer'' else out = Return (Some \<lparr>timer_raw = rv\<rparr>))
        \<and> (\<exists>more. trace s' = trace s2 @ more)"
      by (auto simp: timer_setup_def println_def log_call_def os_simps split: if_splits)
    then have "\<exists>res more. trace s' = trace s1 @ [CTimerSettime rv \<lparr>it_interval = ?ts, it_value = ?ts\<rparr> res] @ more
       \<and> (if res = -1 then out = Panic ''failed to arm the flush timer'' else out = Return (Some \<lparr>timer_raw = rv\<rparr>))"
      using tr(1) by auto
    then obtain res more where last: "trace s' = trace s1 @ [CTimerSettime rv \<lparr>it_interval = ?ts, it_value = ?ts\<rparr> res] @ more"
       "if res = -1 then out = Panic ''failed to arm the flush timer'' else out = Return (Some \<lparr>timer_raw = rv\<rparr>)"
      by blast
    show ?thesis unfolding out prod.case
      by (intro conjI impI, use small in blast, use small in blast)
        (intro exI [of _ ?ts] exI [of _ res] exI [of _ more] conjI nz ns last)
  qed
qed

text \<open>Ten flushes per second are armed; four thousand million are refused.\<close>

theorem timer_setup_range_witness:
  "(\<exists>ts res more. ts \<noteq> ZERO \<and> timespec_ns ts = period_ns (period_of 10)
     \<and> trace (snd (timer_setup idle_kernel (\<lambda>d. ''d'') 10 (boot ())))
        = [CTimerCreate 1 5, CTimerSettime 5 \<lparr>it_interval = ts, it_value = ts\<rparr> res] @ more)
   \<and> fst (timer_setup idle_kernel (\<lambda>d. ''d'') 4000000000 (boot ())) = Panic ''failed to arm the flush timer''"
proof -
  have call: "sys_timerfd_create idle_kernel 1 TFD_CLOEXEC (boot ())
      = (5, \<lparr>world = (), pfm_cell = None, trace = [CTimerCreate 1 5]\<rparr>)"
    by (simp add: os_simps idle_kernel_def boot_def log_call_def)
  show ?thesis
    using timer_setup_range [of 10, OF _ call, of "\<lambda>d. ''d''"]
      timer_setup_range [of 4000000000, OF _ call, of "\<lambda>d. ''d''"]
    by (auto simp: case_prod_beta)
qed

section \<open>The stop signal\<close>

lemma signal_event_stops:
  assumes "ee_events ev AND READABLE \<noteq> 0" "sl_get S (sources p) (unat (ee_data ev)) = Some src"
    and "src_func src = source_handler E" "src_r src = PSignal sfd"
    and "signal_read (kern E) sfd s = (Return (Inr info), s')"
  shows "\<exists>p'. handle_event (kern E) S ev p st s = (Return (Inr StopNow), p', st, s')"
proof -
  have "ee_events ev AND (READABLE OR HANGUP) \<noteq> 0"
    using assms(1) by (metis bit.conj_disj_distrib or_eq_0_iff)
  with assms(2-) show ?thesis
    by (simp add: handle_event_def call_func_def source_handler_def signal_handler_def resolve_action_def Let_def)
qed
text \<open>
  \<^bold>\<open>C10.\<close> SIGINT stops the monitor: whatever the earlier rounds did, in the first round that reports
  the signalfd, once the events before it in that round have been handled, \<open>run\<close> returns \<open>Ok\<close>;
  the state is the one those events left, no later event of the round is handled, and \<open>main\<close> goes
  on to its last flush in that state.
\<close>

theorem sigint_ends_the_loop:
  assumes rounds: "after_rounds (kern E) S n p st s = Some (p1, st1, s1)"
    and wait: "wait_ready (kern E) (poller_fd p1) zero_events s1 = Some (Inr (ready, evs), s2)"
      "ready \<le> length evs" "take ready evs = before @ ev # rest"
    and before: "dispatch (kern E) S before p1 st1 s2 = (Return (Inr NextEvent), p2, st2, s3)"
    and signal: "ee_events ev AND READABLE \<noteq> 0" "sl_get S (sources p2) (unat (ee_data ev)) = Some src"
      "src_func src = source_handler E" "src_r src = PSignal sfd"
      "signal_read (kern E) sfd s3 = (Return (Inr info), s4)"
  shows "\<exists>p'. run (kern E) S p st s = Some (Return (Inr ()), p', st2, s4)
    \<and> after_loop E (Return (Inr ())) st2 s4 = flush_all E st2 (println ''Finished the polling loop'' s4)"
proof -
  obtain p' where "handle_event (kern E) S ev p2 st2 s3 = (Return (Inr StopNow), p', st2, s4)"
    using signal_event_stops [OF signal] by blast
  from stop_event_ends_run [OF wait before this] run_after_rounds [OF rounds] show ?thesis
    by (simp add: after_loop_def loop_result_def)
qed

text \<open>A poller with the signalfd alone, on the kernel where SIGINT is pending.\<close>

definition signal_poller :: "(nat \<times> (pollable, string state, int) source) list poller" where
  "signal_poller = \<lparr>poller_fd = 3, sources = [(0, \<lparr>src_fd = 4, src_r = PSignal \<lparr>signal_raw = 4\<rparr>,
     src_func = source_handler (h_env stop_host)\<rparr>)]\<rparr>"

theorem sigint_ends_the_loop_witness:
  "\<exists>p' s'. run stop_kernel assoc_slab signal_poller no_state (boot 0) = Some (Return (Inr ()), p', no_state, s')"
proof -
  let ?ev = "\<lparr>ee_events = 1, ee_data = 0\<rparr> :: epoll_event"
  have K: "kern (h_env stop_host) = stop_kernel" by (simp add: stop_host_def)
  obtain s2 where wait: "wait_ready (kern (h_env stop_host)) (poller_fd signal_poller) zero_events (boot 0)
      = Some (Inr (1, fill zero_events [?ev]), s2)"
    by (simp add: K wait_ready.simps os_simps stop_kernel_def)
  obtain info s4 where read: "signal_read (kern (h_env stop_host)) \<lparr>signal_raw = 4\<rparr> s2 = (Return (Inr info), s4)"
    using stop_signal_read K by metis
  have "\<exists>p'. run (kern (h_env stop_host)) assoc_slab signal_poller no_state (boot 0)
        = Some (Return (Inr ()), p', no_state, s4)
    \<and> after_loop (h_env stop_host) (Return (Inr ())) no_state s4
        = flush_all (h_env stop_host) no_state (println ''Finished the polling loop'' s4)"
    by (rule sigint_ends_the_loop [where n = 0 and before = "[]" and rest = "[]" and ev = ?ev
        and ?p2.0 = signal_poller and src = "\<lparr>src_fd = 4, src_r = PSignal \<lparr>signal_raw = 4\<rparr>, src_func = source_handler (h_env stop_host)\<rparr>", OF _ wait _ _ _ _ _ _ _ read])
      (simp_all add: signal_poller_def zero_events_def COUNT_def fill_def READABLE_def EPOLLIN_def)
  then show ?thesis by (auto simp: K)
qed

end
