(* ===== verification/Defined_Behaviour.thy ===== *)
theory Defined_Behaviour
  imports Threadstat_Main
begin

text \<open>
  The absence of undefined behaviour. The code has four places where a length is not checked: the
  record of a signal, the message of the queue, the sample of a group and the first element of a
  \<open>NonEmpty\<close>. Where one of them is reached with too little, the model's outcome is \<open>Undefined\<close>. Here
  the invariant that excludes it is carried through the operations of the state, the handlers,
  the event loop (by the locale \<open>safe_context\<close>) and the scopes of \<open>main\<close>.
\<close>

section \<open>What the kernel must not do\<close>

text \<open>
  The only sources of undefined behaviour are unchecked lengths: a read or a message of the full
  length whose bytes were not all stored. (The interner never has undefined behaviour either.)
\<close>

definition whole_messages :: "'w kernel \<Rightarrow> bool" where
  "whole_messages K \<longleftrightarrow> (\<forall>fd n w. case k_mq_receive K fd n w of (r, bs, w') \<Rightarrow>
     r = -1 \<or> cast_unsigned r \<noteq> n \<or> length bs = n)"

definition interner_defined :: "('n, 'e) interner \<Rightarrow> bool" where
  "interner_defined I \<longleftrightarrow> (\<forall>s. in_new I s \<noteq> Undefined)"

text \<open>The invariant of the state: no group without a counter.\<close>

definition inhabited :: "'n perf_stat_group list \<Rightarrow> bool" where
  "inhabited gs \<longleftrightarrow> (\<forall>g \<in> set gs. elems (pg_fds g) \<noteq> [])"

definition all_inhabited :: "'n state \<Rightarrow> bool" where
  "all_inhabited st \<longleftrightarrow> (\<forall>e \<in> set (groups st). inhabited (snd e))"

section \<open>The operations of the state\<close>

lemma ensure_sized_enough:
  "ensure_sized K cnt rd s = (Return (), rd', s') \<Longrightarrow>
     \<exists>b. rd' = Some b \<and> necessary_buffer_size cnt \<le> length (blk_mem b)"
  by (auto simp: ensure_sized_def get_layout_from_count_def Let_def uninit_def
      split: option.splits if_splits prod.splits)

lemma group_read_defined:
  assumes "whole_reads K" "elems (pg_fds g) \<noteq> []" "group_read K Z g a buf s = (out, buf', s')"
  shows "out \<noteq> Undefined"
proof -
  obtain ret bs s1 where call: "sys_read K (ps_fd (hd (elems (pg_fds g)))) (length buf) s = (ret, bs, s1)"
    by (metis prod_cases3)
  have "ret < 0 \<or> length bs = length buf"
    using call assms(1) by (fastforce simp: sys_read_def whole_reads_def split: prod.splits)
  with call assms(3) show ?thesis
    by (auto simp: group_read_def leader_exists [OF assms(2)] fill_exact Let_def split: if_splits sum.splits)
qed

lemma read_group_defined:
  assumes "whole_reads K" "elems (pg_fds g) \<noteq> []" "read_group K Z g rd s = (out, rd', s')"
  shows "out \<noteq> Undefined"
proof -
  obtain o1 rd1 s1 where sized: "ensure_sized K (group_len g) rd s = (o1, rd1, s1)" by (metis prod_cases3)
  show ?thesis
  proof (cases o1)
    case (Return u)
    then obtain b where b: "rd1 = Some b" using ensure_sized_enough sized by fastforce
    obtain o2 buf s2 where rd: "group_read K Z g (blk_addr b) (take (necessary_buffer_size (group_len g)) (blk_mem b)) s1
        = (o2, buf, s2)" by (metis prod_cases3)
    from group_read_defined [OF assms(1,2) rd] assms(3) sized Return b rd show ?thesis
      by (auto simp: read_group_def Let_def split: outcome.splits sum.splits)
  next
    case (Panic m)
    with assms(3) sized show ?thesis by (auto simp: read_group_def)
  next
    case Undefined
    with sized show ?thesis by (auto simp: ensure_sized_def Let_def split: option.splits if_splits prod.splits)
  qed
qed

lemma flush_groups_defined:
  assumes "whole_reads (kern E)"
  shows "flush_groups E gs t rd c rid s = (out, rd', c', rid', s') \<Longrightarrow> inhabited gs \<Longrightarrow> out \<noteq> Undefined"
proof (induction gs arbitrary: rd c rid s)
  case (Cons g gs)
  obtain ts s1 where now: "timestamp E s = (ts, s1)" by force
  obtain r rd1 s2 where read: "read_group (kern E) (casts E) g rd s1 = (r, rd1, s2)" by (metis prod_cases3)
  have "r \<noteq> Undefined" using read_group_defined [OF assms _ read] Cons.prems(2) by (simp add: inhabited_def)
  with Cons now read show ?case
    by (auto simp: inhabited_def split: outcome.splits sum.splits prod.splits)
qed auto

lemma flush_into_defined:
  "whole_reads (kern E) \<Longrightarrow> inhabited gs \<Longrightarrow> flush_into E gs t st s = (out, st', s') \<Longrightarrow> out \<noteq> Undefined"
  using flush_groups_defined by (fastforce simp: flush_into_def split: prod.splits)

lemma flush_into_groups: "flush_into E gs t st s = (out, st', s') \<Longrightarrow> groups st' = groups st"
  by (auto simp: flush_into_def split: prod.splits)

lemma flush_tids_defined:
  assumes "whole_reads (kern E)"
  shows "flush_tids E ts st s = (out, st', s') \<Longrightarrow> all_inhabited st \<Longrightarrow> out \<noteq> Undefined \<and> groups st' = groups st"
proof (induction ts arbitrary: st s)
  case (Cons t ts)
  let ?gs = "case map_of (groups st) t of None \<Rightarrow> [] | Some gs \<Rightarrow> gs"
  have "inhabited ?gs"
  proof (cases "map_of (groups st) t")
    case (Some gs)
    with Cons.prems(2) map_of_SomeD [OF Some] show ?thesis by (auto simp: all_inhabited_def)
  qed (simp add: inhabited_def)
  obtain o1 st1 s1 where fl: "flush_into E ?gs t st s = (o1, st1, s1)" by (metis prod_cases3)
  note o1 = flush_into_defined [OF assms \<open>inhabited ?gs\<close> fl] and g1 = flush_into_groups [OF fl]
  have h1: "all_inhabited st1" using Cons.prems(2) g1 by (simp add: all_inhabited_def)
  show ?case
  proof (cases o1)
    case (Return u)
    with Cons.prems(1) fl have "flush_tids E ts st1 s1 = (out, st', s')" by simp
    from Cons.IH [OF this h1] g1 show ?thesis by simp
  qed (use Cons.prems fl o1 g1 in auto)
qed auto

lemma flush_all_defined:
  assumes "whole_reads (kern E)" "all_inhabited st" "flush_all E st s = (out, st', s')"
  shows "out \<noteq> Undefined \<and> all_inhabited st'"
  using flush_tids_defined [OF assms(1)] assms(2,3) by (fastforce simp: flush_all_def all_inhabited_def)

lemma group_new_inhabited: "group_new K cs pid s = (Inr g, s') \<Longrightarrow> elems (pg_fds g) \<noteq> []"
  by (auto simp: group_new_def from_iter_def Let_def split: list.splits prod.splits sum.splits if_splits)

lemma open_groups_inhabited: "open_groups E t cfgs s = (gs, s') \<Longrightarrow> inhabited gs"
proof (induction cfgs arbitrary: gs s)
  case (Cons cfg cfgs)
  then show ?case
    by (auto simp: inhabited_def split: prod.splits sum.splits dest: group_new_inhabited)
qed (simp add: inhabited_def)

lemma open_tid_inhabited:
  assumes "all_inhabited st" "open_tid E t st s = (st', s')"
  shows "all_inhabited st'"
proof (cases "map_of (groups st) t")
  case None
  obtain gs s1 where op: "open_groups E t (event_configs st) s = (gs, s1)" by force
  obtain c s2 where "describe_groups E t gs (csv st) s1 = (c, s2)" by force
  with None op assms(2) have "groups st' = AList.update t gs (groups st)" by (auto simp: open_tid_def)
  moreover have "set (AList.update t gs xs) \<subseteq> insert (t, gs) (set xs)" for xs :: "(i32 \<times> 'a perf_stat_group list) list"
    by (induction xs) auto
  ultimately show ?thesis
    using assms(1) open_groups_inhabited [OF op] by (fastforce simp: all_inhabited_def)
qed (use assms in \<open>auto simp: open_tid_def\<close>)

lemma close_tid_defined:
  assumes "whole_reads (kern E)" "all_inhabited st" "close_tid E t st s = (out, st', s')"
  shows "out \<noteq> Undefined \<and> all_inhabited st'"
proof (cases "map_of (groups st) t")
  case (Some gs)
  let ?st = "st\<lparr>groups := AList.delete t (groups st)\<rparr>"
  obtain o1 st1 s1 where fl: "flush_into E gs t ?st s = (o1, st1, s1)" by (metis prod_cases3)
  have "inhabited gs" using assms(2) map_of_SomeD [OF Some] by (fastforce simp: all_inhabited_def)
  moreover have "all_inhabited ?st"
    using assms(2) by (auto simp: all_inhabited_def AList.delete_eq)
  ultimately show ?thesis
    using flush_into_defined [OF assms(1) _ fl] flush_into_groups [OF fl] assms(3) Some fl
    by (auto simp: close_tid_def all_inhabited_def)
qed (use assms in \<open>auto simp: close_tid_def\<close>)

section \<open>The handlers\<close>

lemma message_read_defined:
  assumes "whole_messages K" "message_read K q s = (out, s')"
  shows "out \<noteq> Undefined"
proof -
  obtain ret bs s1 where call: "sys_mq_receive K (mq_fd q) message_size s = (ret, bs, s1)" by (metis prod_cases3)
  have "case k_mq_receive K (mq_fd q) message_size (world s) of (r, bs, w') \<Rightarrow>
      r = -1 \<or> cast_unsigned r \<noteq> message_size \<or> length bs = message_size"
    using assms(1) by (simp add: whole_messages_def)
  then have "ret = -1 \<or> cast_unsigned ret \<noteq> message_size \<or> length bs = message_size"
    using call by (auto simp: sys_mq_receive_def split: prod.splits)
  with call assms(2) show ?thesis
    by (auto simp: message_read_def mq_read_def assume_init_full split: if_splits)
qed

lemma signal_read_defined:
  assumes "whole_reads K" "signal_read K sfd s = (out, s')"
  shows "out \<noteq> Undefined"
proof -
  obtain ret bs s1 where call: "sys_read K (signal_raw sfd) siginfo_size s = (ret, bs, s1)" by (metis prod_cases3)
  have "ret < 0 \<or> length bs = siginfo_size"
    using call assms(1) by (fastforce simp: sys_read_def whole_reads_def split: prod.splits)
  with call assms(2) show ?thesis by (auto simp: signal_read_def assume_init_full split: if_splits)
qed

definition defined_laws :: "'w kernel \<Rightarrow> bool" where
  "defined_laws K \<longleftrightarrow> whole_reads K \<and> whole_messages K"

lemma queue_handler_defined:
  assumes "defined_laws (kern E)" "all_inhabited st" "queue_handler E mq st s = (out, mq', st', s')"
  shows "out \<noteq> Undefined \<and> all_inhabited st'"
proof -
  obtain r s1 where read: "message_read (kern E) mq s = (r, s1)" by force
  have r: "r \<noteq> Undefined" using message_read_defined [OF _ read] assms(1) by (simp add: defined_laws_def)
  from assms(1) have "whole_reads (kern E)" by (simp add: defined_laws_def)
  note close = close_tid_defined [OF this assms(2)] and opened = open_tid_inhabited [OF assms(2)]
  from assms(2,3) read r show ?thesis
    by (auto simp: queue_handler_def split: outcome.splits sum.splits message_flag.splits prod.splits
        dest: close opened)
qed

lemma source_handler_defined:
  assumes "defined_laws (kern E)" "all_inhabited st" "source_handler E p st s = (out, p', st', s')"
  shows "out \<noteq> Undefined \<and> all_inhabited st'"
proof (cases p)
  case (PSignal sfd)
  from assms(1) have w: "whole_reads (kern E)" by (simp add: defined_laws_def)
  from assms(2,3) PSignal show ?thesis
    by (auto simp: source_handler_def signal_handler_def split: prod.splits outcome.splits sum.splits
        dest: signal_read_defined [OF w])
next
  case (PQueue q)
  with assms(2,3) queue_handler_defined [OF assms(1,2)] show ?thesis
    by (auto simp: source_handler_def split: prod.splits)
next
  case (PTimer t)
  from assms(1) have w: "whole_reads (kern E)" by (simp add: defined_laws_def)
  from assms(2,3) PTimer flush_all_defined [OF w assms(2)] show ?thesis
    by (auto simp: source_handler_def timer_handler_def Let_def split: prod.splits outcome.splits sum.splits)
qed

interpretation defd: safe_context "kern E" "\<lambda>st s. defined_laws (kern E) \<and> all_inhabited st" "monitor_source E" UNIV
  for E :: "('n, 'w) env"
proof
  fix src src' :: "(pollable, 'n state, 'w) source" and c c' :: "'n state" and s s' :: "'w os" and out
  assume a: "monitor_source E src" "defined_laws (kern E) \<and> all_inhabited c" "call_func src c s = (out, src', c', s')"
  then obtain r where h: "source_handler E (src_r src) c s = (out, r, c', s')" "src' = src\<lparr>src_r := r\<rparr>"
    by (auto simp: monitor_source_def call_func_def split: prod.splits)
  note ok = source_handler_defined [OF _ _ h(1)]
  show "monitor_source E src' \<and> defined_laws (kern E) \<and> all_inhabited c'"
    using a ok h(2) by (simp add: monitor_source_def)
  show "safe UNIV out" using a ok by (simp add: safe_UNIV)
qed auto

section \<open>The program\<close>

lemma register_all_defined:
  "register_all H srcs p s = (out, p', s') \<Longrightarrow> out \<noteq> Undefined"
proof (induction srcs arbitrary: p s)
  case (Cons src srcs)
  obtain o1 p1 s1 where reg: "register_mut (kern (h_env H)) (h_slab H) pollable_fd src (source_handler (h_env H)) p s
      = (o1, p1, s1)" by (metis prod_cases3)
  then have "o1 \<noteq> Undefined" by (auto simp: register_mut_def Let_def split: prod.splits if_splits)
  with Cons reg show ?case by (auto split: outcome.splits)
qed auto

lemma poll_scope_defined:
  assumes laws: "slab_laws (h_slab H)" "defined_laws (kern (h_env H))" and st: "all_inhabited st"
    and sc: "poll_scope H srcs st s = Some (out, st', s')"
  shows "out \<noteq> Undefined"
proof -
  let ?E = "h_env H" let ?K = "kern ?E" let ?S = "h_slab H"
  obtain o0 s1 where new: "poller_new ?K ?S s = (o0, s1)" by force
  show ?thesis
  proof (cases o0)
    case (Return p0)
    then have g0: "held.all_good ?E ?S p0"
      using new by (auto simp: poller_new_def held.all_good_def slab_new [OF laws(1)] split: prod.splits sum.splits)
    obtain o1 p s2 where reg: "register_all H srcs p0 s1 = (o1, p, s2)" by (metis prod_cases3)
    have g: "held.all_good ?E ?S p" using register_all_keeps [OF laws(1) reg g0] by simp
    note o1 = register_all_defined [OF reg]
    show ?thesis
    proof (cases o1)
      case (Return u)
      obtain o2 p' st1 s3 where run: "run ?K ?S p st s2 = Some (o2, p', st1, s3)"
        using sc new \<open>o0 = Return p0\<close> reg Return by (auto simp: poll_scope_def Let_def split: option.splits)
      have inv: "defined_laws ?K \<and> all_inhabited st" using laws st by simp
      have o2: "o2 \<noteq> Undefined" using defd.run_safe [OF laws(1) run g inv] by (simp add: safe_UNIV)
      have st1: "all_inhabited st1" using defd.run_keeps [OF laws(1) run g inv] by simp
      obtain o3 st2 s4 where al: "after_loop ?E o2 st1 s3 = (o3, st2, s4)" by (metis prod_cases3)
      have w: "whole_reads ?K" using laws(2) by (simp add: defined_laws_def)
      have "o3 \<noteq> Undefined"
        using al o2 flush_all_defined [OF w st1]
        by (auto simp: after_loop_def loop_result_def split: outcome.splits sum.splits)
      with sc new \<open>o0 = Return p0\<close> reg Return run al show ?thesis by (auto simp: poll_scope_def Let_def)
    qed (use sc new \<open>o0 = Return p0\<close> reg o1 in \<open>auto simp: poll_scope_def Let_def\<close>)
  next
    case (Panic m)
    with sc new show ?thesis by (auto simp: poll_scope_def Let_def)
  next
    case Undefined
    with new show ?thesis by (auto simp: poller_new_def split: prod.splits sum.splits)
  qed
qed

lemma timer_scope_defined:
  assumes "slab_laws (h_slab H)" "defined_laws (kern (h_env H))" "all_inhabited st"
    and "timer_scope H a sfd mq st s = Some (out, st', s')"
  shows "out \<noteq> Undefined"
proof -
  obtain r s1 where set: "timer_setup (kern (h_env H)) (h_show_duration H) (frequency a) s = (r, s1)" by force
  then have "r \<noteq> Undefined" by (auto simp: timer_setup_def split: if_splits prod.splits sum.splits)
  with assms(4) set show ?thesis
    by (auto simp: timer_scope_def Let_def split: outcome.splits dest!: poll_scope_defined [OF assms(1-3)])
qed

lemma signal_scope_defined:
  assumes "slab_laws (h_slab H)" "defined_laws (kern (h_env H))" "all_inhabited st"
    and "signal_scope H a mq st s = Some (out, st', s')"
  shows "out \<noteq> Undefined"
  using assms(4)
  by (auto simp: signal_scope_def Let_def split: prod.splits sum.splits dest!: timer_scope_defined [OF assms(1-3)])

lemma parse_defined:
  assumes "interner_defined I" "parse_event_groups K I str s = (out, s')"
  shows "out \<noteq> Undefined"
proof -
  have "True \<and> fst (parse_loop K I str 0 [] s) \<noteq> Undefined"
    by (rule parse_loop_invariant [where P = "\<lambda>_. True" and Q = "\<lambda>out. out \<noteq> Undefined"])
      (use assms(1) in \<open>auto simp: parse_bracket_def parse_bare_def interner_defined_def
        split: prod.splits sum.splits option.splits if_splits outcome.splits\<close>)
  with assms(2) show ?thesis by (simp add: parse_event_groups_def)
qed

lemma state_scope_defined:
  assumes "slab_laws (h_slab H)" "defined_laws (kern (h_env H))" "interner_defined (h_intern H)"
    and "state_scope H a mq s = Some (out, s')"
  shows "out \<noteq> Undefined"
proof -
  let ?K = "kern (h_env H)"
  obtain r1 s1 where parse: "parse_event_groups ?K (h_intern H) (join_with CHR '','' (events a)) s = (r1, s1)" by force
  note r1 = parse_defined [OF assms(3) parse]
  show ?thesis
  proof (cases "\<exists>cfgs. r1 = Return (Inr cfgs)")
    case True
    then obtain cfgs where cfgs: "r1 = Return (Inr cfgs)" ..
    obtain r2 s2 where new: "state_new ?K cfgs (output_folder a) s1 = (r2, s2)" by force
    then have "r2 \<noteq> Undefined" "\<forall>st. r2 = Return st \<longrightarrow> all_inhabited st"
      by (auto simp: state_new_def all_inhabited_def split: prod.splits sum.splits)
    with assms(4) parse cfgs new show ?thesis
      by (auto simp: state_scope_def Let_def split: outcome.splits dest: signal_scope_defined [OF assms(1,2)])
  next
    case False
    with assms(4) parse r1 show ?thesis
      by (auto simp: state_scope_def Let_def split: outcome.splits sum.splits)
  qed
qed

text \<open>
  \<^bold>\<open>C3.\<close> The program has no undefined behaviour: on a kernel that delivers whole records (a
  read or a message of the full length has stored all its bytes), no run of \<open>main\<close>, with any
  arguments, schedule of events and failures of calls, uses memory that was not initialised or
  an element that is not there, in spite of its unchecked accesses.
\<close>

theorem main_never_undefined:
  assumes "slab_laws (h_slab H)" "whole_reads (kern (h_env H))" "whole_messages (kern (h_env H))"
    and "interner_defined (h_intern H)" "main_body H a s = Some (out, s')"
  shows "out \<noteq> Undefined"
proof -
  have "defined_laws (kern (h_env H))" using assms(2,3) by (simp add: defined_laws_def)
  note state = state_scope_defined [OF assms(1) this assms(4)]
  from assms(5) show ?thesis
    by (auto simp: main_body_def Let_def split: prod.splits sum.splits dest: state)
qed

theorem main_never_undefined_witness:
  "\<exists>s'. main_body stop_host stop_args (boot 20) = Some (Return (), s') \<and> Return () \<noteq> (Undefined :: unit outcome)"
proof -
  obtain s' where run: "main_body stop_host stop_args (boot 20) = Some (Return (), s')" using stop_main by blast
  have "Return () \<noteq> (Undefined :: unit outcome)"
    by (rule main_never_undefined [OF stop_laws(1) _ _ _ run])
      (simp_all add: stop_host_def stop_kernel_def idle_kernel_def whole_reads_def whole_messages_def
        interner_defined_def plain_interner_def)
  with run show ?thesis by blast
qed

end
