(* ===== verification/Serving.thy ===== *)
theory Serving
  imports Poll
begin

text \<open>
  The event loop together with the kernel's interest list: an extension of the contract between
  the loop and its handlers. If, besides keeping the invariant, no handler adds an entry to the
  interest list of this poller (entries may vanish, as when a descriptor is closed), then slab and
  interest list stay in agreement and the loop itself never panics: only what the handlers fail
  with can end it in a panic.
\<close>

section \<open>Agreement survives handlers that add nothing\<close>

lemma agrees_shrinks:
  assumes "agrees S interest p s" "interest (world s') (poller_fd p) \<subseteq>\<^sub>m interest (world s) (poller_fd p)"
  shows "agrees S interest p s'"
  using assms by (fastforce simp: agrees_def map_le_def dom_def)

locale serving_context = safe_context K I good M
  for K :: "'w kernel" and I :: "'c \<Rightarrow> 'w os \<Rightarrow> bool" and good :: "('p, 'c, 'w) source \<Rightarrow> bool" and M +
  fixes interest :: "'w interest" and epfd :: int
  assumes handler_adds_nothing:
      "good src \<Longrightarrow> I c s \<Longrightarrow> call_func src c s = (out, src', c', s') \<Longrightarrow>
         interest (world s') epfd \<subseteq>\<^sub>m interest (world s) epfd"
begin

definition attached :: "('p, 'c, 'w, 'sl) slab \<Rightarrow> 'sl poller \<Rightarrow> 'w os \<Rightarrow> bool" where
  "attached S p s \<longleftrightarrow> all_good S p \<and> agrees S interest p s \<and> poller_fd p = epfd"

lemma handle_event_attached:
  assumes laws: "slab_laws S" "epoll_laws K interest"
    and ok: "attached S p s" and inv: "I c s"
    and key: "sl_get S (sources p) (unat (ee_data event)) = Some src"
    and h: "handle_event K S event p c s = (out, p', c', s')"
  shows "safe M out \<and> (out = Return (Inr NextEvent) \<longrightarrow> attached S p' s')"
proof -
  let ?key = "unat (ee_data event)"
  have good: "all_good S p" and ag: "agrees S interest p s" and fd: "poller_fd p = epfd"
    using ok by (auto simp: attached_def)
  have kept: "all_good S p'" using handle_event_keeps [OF laws(1) good inv h] by simp
  show ?thesis
  proof (cases "ee_events event AND (READABLE OR HANGUP) = 0")
    case True
    with h ok show ?thesis by (auto simp: handle_event_def Let_def)
  next
    case False
    obtain o1 src1 c1 s1 where call: "call_func src c s = (o1, src1, c1, s1)" by (metis prod_cases4)
    have src: "good src" using good key by (simp add: all_good_def)
    have o1: "safe M o1" using handler_safe [OF src inv call] .
    define p1 where "p1 = p\<lparr>sources := sl_set S ?key src1 (sources p)\<rparr>"
    have get1: "sl_get S (sources p1) = (sl_get S (sources p))(?key \<mapsto> src1)"
      by (simp add: p1_def slab_set [OF laws(1) key])
    have fd1: "src_fd src1 = src_fd src" "poller_fd p1 = epfd"
      using call fd by (auto simp: call_func_def p1_def split: prod.splits)
    have "agrees S interest p s1"
      using agrees_shrinks [OF ag] handler_adds_nothing [OF src inv call] fd by simp
    then have ag1: "agrees S interest p1 s1" using key fd fd1 get1 by (fastforce simp: agrees_def)
    note go = deregister_and_go_calm [OF laws ag1]
    from h False key call consider
        c2 where "deregister_and_go K S ?key p1 c2 s1 = (out, p', c', s')"
      | "p' = p1" "s' = s1" "safe M out"
      using o1 by (auto simp: handle_event_def Let_def p1_def [symmetric]
          split: outcome.splits sum.splits poll_action.splits if_splits)
    then show ?thesis
    proof cases
      case (1 c2)
      from go [OF 1] kept fd1 show ?thesis by (auto simp: attached_def returns_iff)
    next
      case 2
      with ag1 kept fd1 show ?thesis by (simp add: attached_def)
    qed
  qed
qed

lemma dispatch_attached:
  assumes laws: "slab_laws S" "epoll_laws K interest"
  shows "attached S p s \<Longrightarrow> I c s \<Longrightarrow> pending S p evs \<Longrightarrow>
    dispatch K S evs p c s = (out, p', c', s') \<Longrightarrow>
    safe M out \<and> (out = Return (Inr NextEvent) \<longrightarrow> attached S p' s')"
proof (induction evs arbitrary: p c s)
  case (Cons event evs)
  from Cons.prems(3) obtain src where key: "sl_get S (sources p) (unat (ee_data event)) = Some src"
    by (auto simp: pending_def)
  obtain o1 p1 c1 s1 where h: "handle_event K S event p c s = (o1, p1, c1, s1)" by (metis prod_cases4)
  note step = handle_event_attached [OF laws Cons.prems(1,2) key h]
  have inv1: "I c1 s1"
    using handle_event_keeps [OF laws(1) _ Cons.prems(2) h] Cons.prems(1) by (auto simp: attached_def)
  have "dom (sl_get S (sources p)) - {unat (ee_data event)} \<subseteq> dom (sl_get S (sources p1))"
    using handle_event_get(1) [OF laws(1) h] by (fastforce simp: domIff)
  note pend = pending_step [OF Cons.prems(3) this]
  show ?case
  proof (cases "o1 = Return (Inr NextEvent)")
    case True
    then have "dispatch K S evs p1 c1 s1 = (out, p', c', s')" using Cons.prems(4) h by simp
    with Cons.IH [OF _ inv1 pend this] step True show ?thesis by simp
  next
    case False
    with Cons.prems(4) h have "(out, p', c', s') = (o1, p1, c1, s1) \<or> (\<exists>a. o1 = Return a \<and> out = o1)"
      by (auto split: outcome.splits sum.splits flow.splits)
    with step False show ?thesis by auto
  qed
qed auto

lemma poll_once_attached:
  assumes laws: "slab_laws S" "epoll_laws K interest"
    and ok: "attached S p s" and inv: "I c s" and once: "poll_once K S p c s = Some (out, p', c', s')"
  shows "safe M out \<and> out \<noteq> Return (Inr Remove) \<and> (out = Return (Inr Continue) \<longrightarrow> attached S p' s')"
proof -
  obtain r s1 where wait: "wait_ready K (poller_fd p) zero_events s = Some (r, s1)"
    using once by (auto simp: poll_once_def split: option.splits)
  note rep = wait_ready_reports [OF wait laws(2) length_zero_events]
  have inv1: "I c s1" by (rule wait_ready_keeps [OF wait inv])
  show ?thesis
  proof (cases r)
    case (Inl e)
    with once wait show ?thesis by (auto simp: poll_once_def)
  next
    case (Inr re)
    then obtain n evs where r: "r = Inr (n, evs)" by (cases re) auto
    with rep have n: "n \<le> length evs" and ok1: "attached S p s1" and pend: "pending S p (take n evs)"
      using ok by (auto simp: attached_def agrees_def intro: reports_pending)
    obtain o1 p1 c1 s2 where d: "dispatch K S (take n evs) p c s1 = (o1, p1, c1, s2)" by (metis prod_cases4)
    from dispatch_attached [OF laws ok1 inv1 pend d] once wait r n d show ?thesis
      by (auto simp: poll_once_def split: outcome.splits sum.splits flow.splits if_splits)
  qed
qed

lemma run_attached:
  assumes laws: "slab_laws S" "epoll_laws K interest"
  shows "run K S p c s = Some (out, p', c', s') \<Longrightarrow> attached S p s \<Longrightarrow> I c s \<Longrightarrow> safe M out"
proof (induction rule: run_induct)
  case (finished p c s o1)
  with poll_once_attached [OF laws finished.prems finished.hyps(1)] show ?case
    by (auto simp: run_result_def split: outcome.splits sum.splits poll_action.splits)
next
  case (again p c s p1 c1 s1)
  then show ?case
    using poll_once_attached [OF laws again.prems again.hyps(1)]
      poll_once_keeps [OF laws(1) _ again.prems(2) again.hyps(1)] by (auto simp: attached_def)
qed

end

end
