(* ===== verification/World_Frame.thy ===== *)
theory World_Frame
  imports Threadstat_Main
begin

text \<open>
  What the handlers leave alone. A relation between states of the system that every call made on
  behalf of a handler keeps is kept by each operation of the monitor's state and by each handler.
  The locale \<open>io_frame\<close> and its extensions up to \<open>call_frame\<close> (with the allocator) and \<open>world_frame\<close> (with the receipt of a
  message) prove this once, for any such relation. They are used here for the interest list, to
  which no handler adds an entry, in \<open>Watching\<close> for the messages still to be delivered, and in
  \<open>Heap_Discipline\<close> for the blocks of the heap.
\<close>

section \<open>The frame of the handlers\<close>

text \<open>
  The locales go from few calls to many: \<open>io_frame\<close> has reads, closes and lines on stderr,
  \<open>file_frame\<close> adds the writes, \<open>os_frame\<close> what opens and describes counters, and the clock.
\<close>

locale io_frame =
  fixes E :: "('n, 'w) env" and kept :: "'w os \<Rightarrow> 'w os \<Rightarrow> bool"
  assumes kept_refl [simp]: "kept s s"
    and kept_trans: "kept s1 s2 \<Longrightarrow> kept s2 s3 \<Longrightarrow> kept s1 s3"
    and kept_eprintln: "kept s (eprintln d s)"
    and kept_read: "sys_read (kern E) fd n s = (r, bs, s') \<Longrightarrow> kept s s'"
    and kept_close: "kept s (sys_close (kern E) fd s)"
begin

lemma kept_logged: "kept s s1 \<Longrightarrow> kept (eprintln d s1) s' \<Longrightarrow> kept s s'"
  using kept_trans kept_eprintln by blast

lemma kept_close_all: "kept s (close_all (kern E) pss s)"
proof (induction pss arbitrary: s)
  case (Cons ps pss)
  from kept_trans [OF kept_close Cons.IH] show ?case by (simp add: close_all_def)
qed (simp add: close_all_def)

lemma kept_drop_groups: "kept s (drop_groups (kern E) gs s)"
proof (induction gs arbitrary: s)
  case (Cons g gs)
  from kept_trans [OF kept_close_all Cons.IH] show ?case by (simp add: drop_groups_def group_drop_def)
qed (simp add: drop_groups_def)

lemma kept_group_read: "group_read (kern E) Z g a buf s = (out, buf', s') \<Longrightarrow> kept s s'"
  by (auto simp: group_read_def Let_def split: outcome.splits prod.splits dest: kept_read)

lemma kept_timer_read: "timer_read (kern E) t s = (r, s') \<Longrightarrow> kept s s'"
  by (auto simp: timer_read_def split: prod.splits if_splits dest: kept_read)

lemma kept_signal_handler:
  assumes "signal_handler E sfd st s = (out, sfd', st', s')"
  shows "kept s s'"
  using assms
  by (auto simp: signal_handler_def signal_read_def split: outcome.splits sum.splits prod.splits if_splits
      dest: kept_read)

end

section \<open>Writing the files\<close>

locale file_frame = io_frame +
  assumes kept_write: "sys_file_write (kern E) fd txt s = (m, e, s') \<Longrightarrow> kept s s'"
begin

lemma kept_flush_buf: "flush_buf (kern E) w s = (r, w', s') \<Longrightarrow> kept s s'"
  by (auto simp: flush_buf_def split: if_splits prod.splits option.splits dest: kept_write)

lemma kept_bw_store: "bw_store (kern E) bs w s = (r, w', s') \<Longrightarrow> kept s s'"
  by (auto simp: bw_store_def split: if_splits prod.splits option.splits dest: kept_write)

lemma kept_bw_write_all: "bw_write_all (kern E) bs w s = (r, w', s') \<Longrightarrow> kept s s'"
  by (auto simp: bw_write_all_def Let_def split: if_splits prod.splits sum.splits
      dest!: kept_flush_buf kept_bw_store intro: kept_trans)

lemma kept_pieces: "write_pieces (bw_write_all (kern E)) ps w s = (r, w', s') \<Longrightarrow> kept s s'"
proof (induction ps arbitrary: w s)
  case (Cons p ps)
  obtain r1 w1 s1 where wr: "bw_write_all (kern E) p w s = (r1, w1, s1)" by (metis prod_cases3)
  note k = kept_bw_write_all [OF wr]
  from Cons.prems wr Cons.IH k show ?case by (auto split: sum.splits intro: kept_trans)
qed simp

lemma kept_write_event: "write_event (kern E) r cnt i c s = (res, c', s') \<Longrightarrow> kept s s'"
  by (auto simp: write_event_def split: prod.splits dest: kept_pieces)

lemma kept_write_read: "write_read (kern E) r t a b c s = (res, c', s') \<Longrightarrow> kept s s'"
  by (auto simp: write_read_def split: prod.splits dest: kept_pieces)

lemma kept_write_desc: "write_desc (kern E) i n t c s = (res, c', s') \<Longrightarrow> kept s s'"
  by (auto simp: write_desc_def split: prod.splits dest: kept_pieces)

lemma kept_bw_drop: "kept s (bw_drop (kern E) w s)"
proof -
  obtain r w1 s1 where f: "flush_buf (kern E) w s = (r, w1, s1)" by (metis prod_cases3)
  from kept_trans [OF kept_flush_buf [OF f] kept_close] f show ?thesis by (simp add: bw_drop_def)
qed

lemma kept_drop_files: "kept s t \<Longrightarrow> kept s (bw_drop (kern E) w t)"
  by (rule kept_trans [OF _ kept_bw_drop])

lemma kept_csv_drop: "kept s (csv_drop (kern E) c s)"
  by (simp add: csv_drop_def kept_drop_files)

lemma kept_write_events: "write_events E rid es c s = (c', s') \<Longrightarrow> kept s s'"
proof (induction es arbitrary: c s)
  case (Cons e es)
  obtain r1 c1 s1 where w: "write_event (kern E) rid (ei_count e) (ei_id e) c s = (r1, c1, s1)" by (metis prod_cases3)
  note k = kept_write_event [OF w]
  from Cons w show ?case by (cases r1) (auto intro: kept_trans [OF k] kept_logged [OF k])
qed simp

lemma kept_write_sample:
  assumes "write_sample E rid ts info es c s = (c', s')"
  shows "kept s s'"
proof -
  obtain r1 c1 s1 where w: "write_read (kern E) rid ts (gi_time_running info) (gi_time_enabled info) c s = (r1, c1, s1)"
    by (metis prod_cases3)
  note k = kept_write_read [OF w]
  show ?thesis
    using assms w kept_trans [OF k kept_write_events] kept_logged [OF k kept_write_events]
    by (cases r1) (auto simp: write_sample_def)
qed

end

section \<open>Opening counters and what is read of them\<close>

locale os_frame = file_frame +
  assumes kept_perf: "sys_perf_event_open (kern E) attr pid cpu grp flags s = (r, s') \<Longrightarrow> kept s s'"
    and kept_ioctl: "sys_ioctl_id (kern E) fd s = (r, v, s') \<Longrightarrow> kept s s'"
    and kept_clock: "sys_now (kern E) s = (r, s') \<Longrightarrow> kept s s'"
begin

lemmas kept_calls = kept_read kept_perf kept_ioctl kept_write kept_clock

lemma kept_perf_open: "perf_event_open (kern E) attr pid cpu grp flags s = (r, s') \<Longrightarrow> kept s s'"
  by (auto simp: perf_event_open_def split: prod.splits if_splits dest: kept_calls)

lemma kept_open_rest: "open_rest (kern E) pid l acc cs s = (r, s') \<Longrightarrow> kept s s'"
proof (induction cs arbitrary: acc s)
  case (Cons c cs)
  obtain r1 s1 where o: "perf_event_open (kern E) (pc_attr c) pid (-1) l PERF_FLAG_FD_CLOEXEC s = (r1, s1)" by force
  note k = kept_perf_open [OF o]
  from Cons.prems o Cons.IH k show ?case
    by (auto split: sum.splits intro: kept_trans [OF k] kept_close_all)
qed simp

lemma kept_group_new: "group_new (kern E) cs pid s = (r, s') \<Longrightarrow> kept s s'"
  by (auto simp: group_new_def Let_def split: list.splits prod.splits sum.splits option.splits
      dest!: kept_perf_open kept_open_rest intro: kept_trans)

lemma kept_name_and_id: "name_and_id (kern E) ps s = (r, s') \<Longrightarrow> kept s s'"
  by (auto simp: name_and_id_def get_id_def split: prod.splits if_splits sum.splits dest: kept_calls)

lemma kept_open_groups: "open_groups E t cfgs s = (gs, s') \<Longrightarrow> kept s s'"
proof (induction cfgs arbitrary: gs s)
  case (Cons cfg cfgs)
  obtain r s1 where new: "group_new (kern E) (elems cfg) (sint t) s = (r, s1)" by force
  note k = kept_group_new [OF new]
  from Cons.prems new Cons.IH show ?case
    by (auto split: sum.splits prod.splits intro: kept_trans [OF k] kept_logged [OF k])
qed simp

lemma kept_describe_group: "describe_group E t pss c s = (c', s') \<Longrightarrow> kept s s'"
proof (induction pss arbitrary: c s)
  case (Cons ps pss)
  obtain r s1 where n: "name_and_id (kern E) ps s = (r, s1)" by force
  note k = kept_name_and_id [OF n]
  show ?case
  proof (cases r)
    case (Inl e)
    with Cons n show ?thesis by (auto intro: kept_trans [OF k])
  next
    case (Inr v)
    obtain nm i where v: "v = (nm, i)" by force
    obtain r2 c2 s2 where w: "write_desc (kern E) i (name_str E nm) t c s1 = (r2, c2, s2)" by (metis prod_cases3)
    note k2 = kept_trans [OF k kept_write_desc [OF w]]
    from Cons n Inr v w show ?thesis by (cases r2) (auto intro: kept_trans [OF k2] kept_logged [OF k2])
  qed
qed simp

lemma kept_describe_groups: "describe_groups E t gs c s = (c', s') \<Longrightarrow> kept s s'"
  by (induction gs arbitrary: c s) (auto split: prod.splits dest: kept_describe_group intro: kept_trans)

lemma kept_open_tid: "open_tid E t st s = (st', s') \<Longrightarrow> kept s s'"
  by (auto simp: open_tid_def split: if_splits prod.splits
      dest!: kept_open_groups kept_describe_groups intro: kept_trans)

lemma kept_timestamp: "timestamp E s = (ts, s') \<Longrightarrow> kept s s'"
  by (auto simp: timestamp_def split: prod.splits dest: kept_calls)

end

section \<open>With the allocator\<close>

locale call_frame = os_frame +
  assumes kept_alloc: "sys_alloc (kern E) sz align s = (a, s') \<Longrightarrow> kept s s'"
    and kept_realloc: "sys_realloc (kern E) a sz new_size s = (b, s') \<Longrightarrow> kept s s'"
begin

lemma kept_ensure_sized: "ensure_sized (kern E) cnt rd s = (out, rd', s') \<Longrightarrow> kept s s'"
  by (auto simp: ensure_sized_def Let_def split: option.splits if_splits prod.splits dest: kept_alloc kept_realloc)

lemma kept_read_group: "read_group (kern E) Z g rd s = (out, rd', s') \<Longrightarrow> kept s s'"
  by (auto simp: read_group_def Let_def split: outcome.splits prod.splits option.splits
      dest!: kept_ensure_sized kept_group_read intro: kept_trans)

lemma kept_flush_groups:
  "flush_groups E gs t rd c rid s = (out, rd', c', rid', s') \<Longrightarrow> kept s s'"
proof (induction gs arbitrary: rd c rid s)
  case (Cons g gs)
  obtain ts s1 where now: "timestamp E s = (ts, s1)" by force
  note k1 = kept_timestamp [OF now]
  obtain r rd1 s2 where read: "read_group (kern E) (casts E) g rd s1 = (r, rd1, s2)" by (metis prod_cases3)
  note k2 = kept_trans [OF k1 kept_read_group [OF read]]
  show ?case
  proof (cases "\<exists>info es. r = Return (Inr (info, es))")
    case True
    then obtain info es where r: "r = Return (Inr (info, es))" by blast
    obtain c1 s3 where w: "write_sample E rid ts info es c s2 = (c1, s3)" by force
    with Cons.prems now read r have "flush_groups E gs t rd1 c1 (rid + 1) s3 = (out, rd', c', rid', s')" by simp
    from kept_trans [OF kept_trans [OF k2 kept_write_sample [OF w]] Cons.IH [OF this]]
    show ?thesis .
  next
    case False
    show ?thesis
    proof (cases "\<exists>e. r = Return (Inl e)")
      case True
      then obtain e where "r = Return (Inl e)" ..
      with Cons.prems now read have "flush_groups E gs t rd1 c (rid + 1) (eprintln (GroupReadError t e) s2)
          = (out, rd', c', rid', s')" by simp
      from kept_logged [OF k2 Cons.IH [OF this]] show ?thesis .
    next
      case no: False
      with \<open>\<nexists>info es. r = Return (Inr (info, es))\<close> have "\<nexists>v. r = Return v" by (metis old.sum.exhaust surj_pair)
      with Cons.prems now read k2 show ?thesis by (cases r) auto
    qed
  qed
qed simp

lemma kept_flush_into: "flush_into E gs t st s = (out, st', s') \<Longrightarrow> kept s s'"
  by (auto simp: flush_into_def split: prod.splits dest: kept_flush_groups)

lemma kept_flush_tids: "flush_tids E ts st s = (out, st', s') \<Longrightarrow> kept s s'"
proof (induction ts arbitrary: st s)
  case (Cons t ts)
  obtain o1 st1 s1 where fl: "flush_into E (case map_of (groups st) t of None \<Rightarrow> [] | Some gs \<Rightarrow> gs) t st s
      = (o1, st1, s1)" by (metis prod_cases3)
  note k = kept_flush_into [OF fl]
  from Cons fl k show ?case by (cases o1) (auto intro: kept_trans [OF k])
qed simp

lemma kept_close_tid: "close_tid E t st s = (out, st', s') \<Longrightarrow> kept s s'"
  by (auto simp: close_tid_def split: option.splits prod.splits dest!: kept_flush_into
      intro: kept_trans kept_drop_groups)

lemma kept_timer_handler:
  assumes "timer_handler E t st s = (out, t', st', s')"
  shows "kept s s'"
proof -
  obtain r s1 where read: "timer_read (kern E) t s = (r, s1)" by force
  then have k: "kept s s1"
    by (auto simp: timer_read_def split: prod.splits if_splits dest: kept_calls)
  from assms read k show ?thesis
    by (auto simp: timer_handler_def flush_all_def Let_def split: outcome.splits sum.splits prod.splits if_splits
        dest!: kept_flush_tids intro: kept_trans [OF k] kept_logged [OF k])
qed

end

section \<open>With the one call that takes a message off the queue\<close>

locale world_frame = call_frame +
  assumes kept_receive: "sys_mq_receive (kern E) fd n s = (r, bs, s') \<Longrightarrow> kept s s'"
begin

lemma kept_message_read: "message_read (kern E) q s = (out, s') \<Longrightarrow> kept s s'"
  by (auto simp: message_read_def mq_read_def split: prod.splits if_splits dest: kept_receive)

lemma kept_queue_handler:
  assumes "queue_handler E mq st s = (out, mq', st', s')"
  shows "kept s s'"
proof -
  obtain r s1 where read: "message_read (kern E) mq s = (r, s1)" by force
  note k = kept_message_read [OF read]
  from assms read k show ?thesis
    by (auto simp: queue_handler_def split: outcome.splits sum.splits message_flag.splits prod.splits
        dest!: kept_open_tid kept_close_tid intro: kept_trans [OF k] kept_eprintln)
qed

lemma kept_source_handler:
  assumes "source_handler E p st s = (out, p', st', s')"
  shows "kept s s'"
  using assms
  by (auto simp: source_handler_def split: pollable.splits prod.splits
      dest: kept_signal_handler kept_queue_handler kept_timer_handler)

end

section \<open>The interest list\<close>

text \<open>
  What the kernel documents of its other calls: none registers a descriptor with an epoll
  instance. (Closing a descriptor may remove entries.)
\<close>

definition never_registers :: "'w interest \<Rightarrow> 'w \<Rightarrow> 'w \<Rightarrow> bool" where
  "never_registers interest w w' \<longleftrightarrow> (\<forall>epfd. interest w' epfd \<subseteq>\<^sub>m interest w epfd)"

definition registration_laws :: "'w kernel \<Rightarrow> 'w interest \<Rightarrow> bool" where
  "registration_laws K interest \<longleftrightarrow>
     (\<forall>fd n w. never_registers interest w (snd (snd (k_read K fd n w))))
   \<and> (\<forall>fd w. never_registers interest w (k_close K fd w))
   \<and> (\<forall>fd n w. never_registers interest w (snd (snd (k_mq_receive K fd n w))))
   \<and> (\<forall>attr pid cpu grp flags w. never_registers interest w (snd (k_perf_event_open K attr pid cpu grp flags w)))
   \<and> (\<forall>fd w. never_registers interest w (snd (snd (k_ioctl_id K fd w))))
   \<and> (\<forall>fd txt w. never_registers interest w (snd (snd (k_file_write K fd txt w))))
   \<and> (\<forall>w. never_registers interest w (snd (k_now K w)))
   \<and> (\<forall>sz align w. never_registers interest w (snd (k_alloc K sz align w)))
   \<and> (\<forall>a sz new_size w. never_registers interest w (snd (k_realloc K a sz new_size w)))"

text \<open>The world after a call.\<close>

lemma sys_worlds:
  "sys_read K fd n s = (r, bs, s') \<Longrightarrow> world s' = snd (snd (k_read K fd n (world s)))"
  "sys_perf_event_open K attr pid cpu grp flags s = (q, s') \<Longrightarrow>
     world s' = snd (k_perf_event_open K attr pid cpu grp flags (world s))"
  "sys_ioctl_id K fd s = (r, v, s') \<Longrightarrow> world s' = snd (snd (k_ioctl_id K fd (world s)))"
  "sys_file_write K fd txt s = (m, e, s') \<Longrightarrow> world s' = snd (snd (k_file_write K fd txt (world s)))"
  "sys_now K s = (q, s') \<Longrightarrow> world s' = snd (k_now K (world s))"
  "sys_alloc K sz align s = (a, s') \<Longrightarrow> world s' = snd (k_alloc K sz align (world s))"
  "sys_realloc K a sz new_size s = (b, s') \<Longrightarrow> world s' = snd (k_realloc K a sz new_size (world s))"
  "sys_mq_receive K fd n s = (r, bs, s') \<Longrightarrow> world s' = snd (snd (k_mq_receive K fd n (world s)))"
  "world (sys_close K fd s) = k_close K fd (world s)"
  by (auto simp: os_simps split: prod.splits option.splits)

interpretation registering: world_frame E
    "\<lambda>s s'. registration_laws (kern E) interest \<longrightarrow> never_registers interest (world s) (world s')"
  for E :: "('n, 'w) env" and interest :: "'w interest"
proof
  fix s1 s2 s3 :: "'w os"
  assume "registration_laws (kern E) interest \<longrightarrow> never_registers interest (world s1) (world s2)"
    "registration_laws (kern E) interest \<longrightarrow> never_registers interest (world s2) (world s3)"
  then show "registration_laws (kern E) interest \<longrightarrow> never_registers interest (world s1) (world s3)"
    unfolding never_registers_def by (meson map_le_trans)
qed (auto simp: never_registers_def eprintln_def; fail |
  drule sys_worlds; simp add: registration_laws_def; fail |
  simp add: registration_laws_def sys_worlds; fail)+

lemma source_handler_registers_nothing:
  assumes "registration_laws (kern E) interest" "source_handler E p st s = (out, p', st', s')"
  shows "interest (world s') epfd \<subseteq>\<^sub>m interest (world s) epfd"
  using registering.kept_source_handler [OF assms(2)] assms(1) by (auto simp: never_registers_def)

end
