(* ===== verification/Panics.thy ===== *)
theory Panics
  imports Defined_Behaviour Serving World_Frame
begin

text \<open>
  The panics of the program. The invariant \<open>sound\<close> (a state in which no flush fails) is carried
  through the operations and the handlers, and, with the interest list, through the event loop by
  the locale \<open>serving_context\<close>; what is left are the failures of the set-up, a failed read of the
  signalfd and an error of the loop itself.
\<close>

section \<open>Groups are small\<close>

lemma length_split_on: "length (split_on c s) \<le> Suc (length s)"
  by (induction c s rule: split_on.induct) (auto simp: Let_def split: list.splits)

lemma scan_names_length: "item \<in> set (scan s) \<Longrightarrow> length (item_names item) \<le> length s"
proof (induction s rule: scan.induct)
  case (1 s)
  show ?case
  proof (cases "dropWhile is_separator s")
    case Nil
    with 1 show ?thesis by (simp add: scan_end)
  next
    case (Cons c cs)
    have len: "Suc (length cs) \<le> length s" using length_dropWhile_le [of is_separator s] Cons by simp
    show ?thesis
    proof (cases "c = CHR ''[''")
      case True
      with Cons have sc: "scan s = Bracketed (group_names_of (takeWhile not_bracket cs))
          # scan (drop 1 (dropWhile not_bracket cs))" by (intro scan_bracket) simp
      have "length (group_names_of inner) \<le> Suc (length inner)" for inner
        unfolding group_names_of_def by (rule le_trans [OF length_filter_le]) (simp add: length_split_on)
      then have "length (group_names_of (takeWhile not_bracket cs)) \<le> length s"
        using length_takeWhile_le [of not_bracket cs] len by (meson Suc_le_mono le_trans)
      moreover have "length (drop 1 (dropWhile not_bracket cs)) \<le> length s"
        using length_dropWhile_le [of not_bracket cs] len by simp
      ultimately show ?thesis using 1 Cons True sc by fastforce
    next
      case False
      note sc = scan_bare [OF Cons False]
      have "length (dropWhile is_name_char cs) \<le> length s"
        using length_dropWhile_le [of is_name_char cs] len by simp
      with 1 Cons False sc len show ?thesis by fastforce
    qed
  qed
qed

lemma built_group_names:
  assumes "interner_laws I" "build_groups K I items [] os = (Return (Inr gs), os')"
  shows "map (length \<circ> elems) gs = map length (group_lists items)"
proof -
  from build_groups_names [OF assms] have "map (\<lambda>g. config_names I (elems g)) gs = group_lists items" by simp
  then have "map length (map (\<lambda>g. config_names I (elems g)) gs) = map length (group_lists items)" by simp
  then show ?thesis by (simp add: config_names_def comp_def)
qed

text \<open>Groups whose sample fits into an allocation; an argument of less than \<open>2 ^ 58\<close> bytes gives such.\<close>

definition small_configs :: "'n perf_config non_empty list \<Rightarrow> bool" where
  "small_configs cfgs \<longleftrightarrow> (\<forall>cfg \<in> set cfgs. countable_group (length (elems cfg)))"

lemma parse_small:
  assumes "interner_laws I" "utf8_like str" "length str < 2 ^ 58"
    and "parse_event_groups K I str s = (Return (Inr cfgs), s')"
  shows "small_configs cfgs"
proof -
  have "build_groups K I (scan str) [] s = (Return (Inr cfgs), s')" using assms(4) parse_scans [OF assms(2)] by metis
  from built_group_names [OF assms(1) this] have lens: "map (length \<circ> elems) cfgs = map length (group_lists (scan str))" .
  have "length (elems cfg) \<le> length str" if "cfg \<in> set cfgs" for cfg
  proof -
    from that have "length (elems cfg) \<in> set (map (length \<circ> elems) cfgs)" by simp
    then show ?thesis unfolding lens by (auto simp: group_lists_def dest: scan_names_length)
  qed
  with assms(3) show ?thesis
    by (fastforce simp: small_configs_def countable_group_def header_size_def entry_size_def)
qed

definition intern_panics :: "('n, 'e) interner \<Rightarrow> string set" where
  "intern_panics I = {m. \<exists>str. in_new I str = Panic m}"

lemma parse_safe:
  assumes "interner_defined I" "utf8_like str" "parse_event_groups K I str s = (out, s')"
  shows "safe (intern_panics I) out"
proof -
  have "safe (intern_panics I) (fst (build_groups K I items gs s))" for items gs s
  proof (induction items arbitrary: gs s)
    case (Cons item items)
    obtain o1 s1 where one: "(case item of Bracketed names \<Rightarrow> parse_bracket K I names gs s
        | Bare name \<Rightarrow> parse_bare K I name gs s) = (o1, s1)" by force
    have "safe (intern_panics I) o1"
      using one assms(1) by (cases item)
        (auto simp: parse_bracket_def parse_bare_def intern_panics_def interner_defined_def
          split: prod.splits sum.splits option.splits if_splits outcome.splits)
    with one Cons.IH show ?case by (auto split: outcome.splits sum.splits)
  qed simp
  with assms(3) parse_scans [OF assms(2), of K I s] show ?thesis by (metis fst_conv)
qed

section \<open>A state in which no flush fails\<close>

definition sound_laws :: "'w kernel \<Rightarrow> bool" where
  "sound_laws K \<longleftrightarrow> allocator_laws K \<and> whole_reads K \<and> whole_messages K"

definition sound :: "'n state \<Rightarrow> bool" where
  "sound st \<longleftrightarrow> healthy st \<and> small_configs (event_configs st)"

lemma group_new_length: "group_new K cfgs pid s = (Inr g, s') \<Longrightarrow> group_len g = length cfgs \<and> elems (pg_fds g) \<noteq> []"
proof (cases cfgs)
  case (Cons c cs)
  assume "group_new K cfgs pid s = (Inr g, s')"
  with group_new_trace [of K c cs pid s "Inr g" s'] Cons obtain ret rets where
    "length rets = length cs" "g = \<lparr>pg_fds = NonEmpty (counters (c # cs) (ret # rets))\<rparr>" by auto
  then show ?thesis by (simp add: Cons group_len_def counters_def)
qed (simp add: group_new_def)

lemma open_groups_sound:
  "open_groups E t cfgs s = (gs, s') \<Longrightarrow> small_configs cfgs \<Longrightarrow> \<forall>g \<in> set gs. healthy_group g"
proof (induction cfgs arbitrary: gs s)
  case (Cons cfg cfgs)
  obtain r s1 where new: "group_new (kern E) (elems cfg) (sint t) s = (r, s1)" by force
  have small: "countable_group (length (elems cfg))" "small_configs cfgs"
    using Cons.prems(2) by (auto simp: small_configs_def)
  have "healthy_group g" if "r = Inr g" for g
    using group_new_length [OF new [unfolded that]] small(1) by (simp add: healthy_group_def)
  with Cons.prems(1) new Cons.IH [OF _ small(2)] show ?case by (auto split: sum.splits prod.splits)
qed simp

lemma open_tid_sound:
  assumes "sound st" "open_tid E t st s = (st', s')"
  shows "sound st'"
proof (cases "map_of (groups st) t")
  case None
  obtain gs s1 where op: "open_groups E t (event_configs st) s = (gs, s1)" by force
  obtain c s2 where desc: "describe_groups E t gs (csv st) s1 = (c, s2)" by force
  have st': "st' = st\<lparr>csv := c, groups := AList.update t gs (groups st)\<rparr>"
    using None op desc assms(2) by (auto simp: open_tid_def)
  have "AList.update t gs (groups st) = groups st @ [(t, gs)]"
    using None by (intro update_new_key) (simp add: map_of_eq_None_iff)
  with assms(1) open_groups_sound [OF op] st' show ?thesis
    by (auto simp: sound_def healthy_def)
qed (use assms in \<open>auto simp: open_tid_def\<close>)

lemma flush_all_sound:
  assumes "sound_laws (kern E)" "sound st" "flush_all E st s = (out, st', s')"
  shows "out = Return () \<and> sound st'"
proof -
  have laws: "allocator_laws (kern E)" "whole_reads (kern E)" and h: "healthy st"
    using assms(1,2) by (auto simp: sound_laws_def sound_def)
  from flush_tids_returns [OF laws assms(3) [unfolded flush_all_def] h] assms(2) flush_all_quiet [OF assms(3)]
  show ?thesis by (simp add: sound_def)
qed

lemma close_tid_sound:
  assumes "sound_laws (kern E)" "sound st" "close_tid E t st s = (out, st', s')"
  shows "out = Return () \<and> sound st'"
proof (cases "map_of (groups st) t")
  case (Some gs)
  let ?st = "st\<lparr>groups := AList.delete t (groups st)\<rparr>"
  obtain o1 st1 s1 where fl: "flush_into E gs t ?st s = (o1, st1, s1)" by (metis prod_cases3)
  have laws: "allocator_laws (kern E)" "whole_reads (kern E)" using assms(1) by (auto simp: sound_laws_def)
  have gs: "\<forall>g \<in> set gs. healthy_group g" and rd: "reader_aligned (reader ?st)"
    using assms(2) map_of_SomeD [OF Some] by (fastforce simp: sound_def healthy_def)+
  from flush_into_returns [OF laws rd gs fl] flush_into_quiet [OF fl] assms Some fl show ?thesis
    by (auto simp: close_tid_def sound_def healthy_def AList.delete_eq)
qed (use assms in \<open>auto simp: close_tid_def\<close>)

section \<open>The handlers\<close>

lemma safe_empty: "safe {} out \<Longrightarrow> safe M out"
  by (erule safe_mono) simp

definition handler_panics :: "string set" where
  "handler_panics = {''failed to read signalfd''}"

lemma message_read_returns:
  assumes "whole_messages K" "message_read K q s = (out, s')"
  shows "\<exists>r. out = Return r"
proof (cases out)
  case (Panic m)
  with assms(2) show ?thesis
    by (auto simp: message_read_def mq_read_def assume_init_def split: prod.splits outcome.splits if_splits)
qed (use message_read_defined [OF assms] in auto)

lemma queue_handler_sound:
  assumes "sound_laws (kern E)" "sound st" "queue_handler E mq st s = (out, mq', st', s')"
  shows "safe {} out \<and> sound st'"
proof -
  obtain r s1 where read: "message_read (kern E) mq s = (r, s1)" by force
  then obtain v where v: "r = Return v"
    using message_read_returns assms(1) by (metis sound_laws_def)
  note close = close_tid_sound [OF assms(1,2)] and opened = open_tid_sound [OF assms(2)]
  from assms(2,3) read v show ?thesis
    by (auto simp: queue_handler_def split: outcome.splits sum.splits message_flag.splits prod.splits
        dest!: close opened)
qed

lemma signal_handler_sound:
  assumes "whole_reads (kern E)" "signal_handler E sfd st s = (out, sfd', st', s')"
  shows "safe handler_panics out"
proof -
  obtain r s1 where read: "signal_read (kern E) sfd s = (r, s1)" by force
  have "r \<noteq> Undefined" using signal_read_defined [OF assms(1) read] .
  moreover have "r \<noteq> Panic m" for m
    using read by (auto simp: signal_read_def assume_init_def split: prod.splits if_splits)
  ultimately show ?thesis
    using assms(2) read by (auto simp: signal_handler_def handler_panics_def split: outcome.splits sum.splits)
qed

lemma timer_handler_sound:
  assumes "sound_laws (kern E)" "sound st" "timer_handler E t st s = (out, t', st', s')"
  shows "safe {} out \<and> sound st'"
proof -
  obtain r s1 where read: "timer_read (kern E) t s = (r, s1)" by force
  note flush = flush_all_sound [OF assms(1,2)]
  from assms(2,3) read show ?thesis
    by (auto simp: timer_handler_def Let_def split: outcome.splits sum.splits prod.splits dest!: flush)
qed

lemma source_handler_sound:
  assumes "sound_laws (kern E)" "sound st" "source_handler E p st s = (out, p', st', s')"
  shows "safe handler_panics out \<and> sound st'"
proof (cases p)
  case (PSignal sfd)
  from assms(1) have w: "whole_reads (kern E)" by (simp add: sound_laws_def)
  obtain o1 r st1 s1 where h: "signal_handler E sfd st s = (o1, r, st1, s1)" by (metis prod_cases4)
  with assms(2,3) PSignal signal_handler_sound [OF w h] signal_handler_step [OF h] show ?thesis
    by (auto simp: source_handler_def)
next
  case (PQueue q)
  with assms(2,3) queue_handler_sound [OF assms(1,2)] show ?thesis
    by (auto simp: source_handler_def split: prod.splits intro: safe_empty)
next
  case (PTimer t)
  with assms(2,3) timer_handler_sound [OF assms(1,2)] show ?thesis
    by (auto simp: source_handler_def split: prod.splits intro: safe_empty)
qed

interpretation served: serving_context "kern E"
    "\<lambda>st s. sound_laws (kern E) \<and> registration_laws (kern E) interest \<and> sound st" "monitor_source E"
    handler_panics interest epfd
  for E :: "('n, 'w) env" and interest :: "'w interest" and epfd :: int
proof
  fix src src' :: "(pollable, 'n state, 'w) source" and c c' :: "'n state" and s s' :: "'w os" and out
  assume a: "monitor_source E src" "sound_laws (kern E) \<and> registration_laws (kern E) interest \<and> sound c"
    "call_func src c s = (out, src', c', s')"
  then obtain r where h: "source_handler E (src_r src) c s = (out, r, c', s')" "src' = src\<lparr>src_r := r\<rparr>"
    by (auto simp: monitor_source_def call_func_def split: prod.splits)
  note ok = source_handler_sound [OF _ _ h(1)]
  show "monitor_source E src' \<and> sound_laws (kern E) \<and> registration_laws (kern E) interest \<and> sound c'"
    using a ok h(2) by (simp add: monitor_source_def)
  show "safe handler_panics out" using a ok by simp
  show "interest (world s') epfd \<subseteq>\<^sub>m interest (world s) epfd"
    using a source_handler_registers_nothing [OF _ h(1)] by simp
qed auto

text \<open>Registering the sources attaches them.\<close>

lemma register_all_attached:
  assumes "slab_laws (h_slab H)" "epoll_laws (kern (h_env H)) interest"
  shows "register_all H srcs p s = (Return (), p', s') \<Longrightarrow>
    served.attached (h_env H) interest epfd (h_slab H) p s \<Longrightarrow>
    served.attached (h_env H) interest epfd (h_slab H) p' s'"
proof (induction srcs arbitrary: p s)
  case (Cons src srcs)
  let ?S = "h_slab H" let ?E = "h_env H"
  obtain o1 p1 s1 where reg: "register_mut (kern ?E) ?S pollable_fd src (source_handler ?E) p s = (o1, p1, s1)"
    by (metis prod_cases3)
  from Cons.prems(1) reg have o1: "o1 = Return ()" and rest: "register_all H srcs p1 s1 = (Return (), p', s')"
    by (auto split: outcome.splits)
  have ok: "held.all_good ?E ?S p" "agrees ?S interest p s" "poller_fd p = epfd"
    using Cons.prems(2) by (auto simp: served.attached_def)
  obtain key where key: "poller_fd p1 = poller_fd p"
    "sl_get ?S (sources p1) = (sl_get ?S (sources p))
       (key \<mapsto> \<lparr>src_fd = pollable_fd src, src_r = src, src_func = source_handler ?E\<rparr>)"
    "agrees ?S interest p1 s1"
    using register_mut_agrees [OF assms ok(2) reg [unfolded o1]] by metis
  have "held.all_good ?E ?S p1"
    using ok(1) key(2) by (auto simp: held.all_good_def monitor_source_def split: if_splits)
  with key ok(3) have "served.attached ?E interest epfd ?S p1 s1" by (simp add: served.attached_def)
  with Cons.IH rest show ?case by blast
qed simp

lemma poller_new_attached:
  assumes "slab_laws S" "epoll_laws (kern E) interest" "poller_new (kern E) S s = (Return p, s')"
  shows "served.attached E interest (poller_fd p) S p s'"
proof -
  obtain r s1 where call: "sys_epoll_create1 (kern E) EPOLL_CLOEXEC s = (r, s1)" by force
  with assms(3) have "r \<noteq> -1" "p = \<lparr>poller_fd = r, sources = sl_new S\<rparr>" "s' = s1"
    by (auto simp: poller_new_def epoll_create_def split: prod.splits sum.splits if_splits)
  with epoll_create_law [OF assms(2) call] show ?thesis
    by (simp add: served.attached_def held.all_good_def agrees_def slab_new [OF assms(1)])
qed

section \<open>The scopes of \<open>main\<close>\<close>

definition startup_panics :: "string set" where
  "startup_panics = {''failed to open mqueue'', ''Failed to parse events'',
     ''Failed To Open CSV's in output Folder'', ''failed to block SIGINT'', ''failed to create signalfd'',
     ''failed to create timerfd'', ''failed to arm the flush timer'', ''Failed to open epoll'',
     ''usize can't convert to u64'', ''Failed to add fd to epoll''}"

definition running_panics :: "string set" where
  "running_panics = handler_panics \<union> {''poll error''}"

lemma register_all_safe: "register_all H srcs p s = (out, p', s') \<Longrightarrow> safe startup_panics out"
proof (induction srcs arbitrary: p s)
  case (Cons src srcs)
  obtain o1 p1 s1 where reg: "register_mut (kern (h_env H)) (h_slab H) pollable_fd src (source_handler (h_env H)) p s
      = (o1, p1, s1)" by (metis prod_cases3)
  then have "safe startup_panics o1"
    by (auto simp: register_mut_def Let_def startup_panics_def split: prod.splits if_splits)
  with Cons reg show ?case by (auto split: outcome.splits)
qed auto

lemma after_loop_safe:
  assumes "sound_laws (kern E)" "sound st" "safe handler_panics out"
    and "after_loop E out st s = (out', st', s')"
  shows "safe running_panics out'"
proof -
  have "safe running_panics (loop_result out)"
    using assms(3) by (auto simp: loop_result_def running_panics_def split: outcome.splits sum.splits)
  with assms(4) flush_all_sound [OF assms(1,2)] show ?thesis
    by (cases "loop_result out") (auto simp: after_loop_def)
qed

lemma poll_scope_safe:
  assumes laws: "slab_laws (h_slab H)" "sound_laws (kern (h_env H))" "epoll_laws (kern (h_env H)) interest"
      "registration_laws (kern (h_env H)) interest" and st: "sound st"
    and sc: "poll_scope H srcs st s = Some (out, st', s')"
  shows "safe (startup_panics \<union> running_panics) out"
proof -
  let ?E = "h_env H" let ?K = "kern ?E" let ?S = "h_slab H"
  obtain o0 s1 where new: "poller_new ?K ?S s = (o0, s1)" by force
  show ?thesis
  proof (cases o0)
    case (Return p0)
    note at0 = poller_new_attached [OF laws(1,3) new [unfolded Return]]
    obtain o1 p s2 where reg: "register_all H srcs p0 s1 = (o1, p, s2)" by (metis prod_cases3)
    note o1 = register_all_safe [OF reg]
    show ?thesis
    proof (cases o1)
      case (Return u)
      obtain o2 p' st1 s3 where run: "run ?K ?S p st s2 = Some (o2, p', st1, s3)"
        using sc new \<open>o0 = Return p0\<close> reg Return by (auto simp: poll_scope_def Let_def split: option.splits)
      have inv: "sound_laws ?K \<and> registration_laws ?K interest \<and> sound st" using laws st by simp
      have at: "served.attached ?E interest (poller_fd p0) ?S p s2"
        using register_all_attached [OF laws(1,3) _ at0] reg Return by simp
      note o2 = served.run_attached [OF laws(1,3) run at inv]
      have "held.all_good ?E ?S p" using at by (simp add: served.attached_def)
      then have st1: "sound st1" using served.run_keeps [OF laws(1) run _ inv] by simp
      obtain o3 st2 s4 where al: "after_loop ?E o2 st1 s3 = (o3, st2, s4)" by (metis prod_cases3)
      have "safe running_panics o3" using after_loop_safe [OF laws(2) st1 o2 al] .
      then have o3: "safe (startup_panics \<union> running_panics) o3" by (rule safe_mono) simp
      with sc new \<open>o0 = Return p0\<close> reg Return run al show ?thesis by (simp add: poll_scope_def Let_def)
    qed (use sc new \<open>o0 = Return p0\<close> reg o1 in \<open>auto simp: poll_scope_def Let_def\<close>)
  next
    case (Panic m)
    with sc new show ?thesis
      by (auto simp: poll_scope_def Let_def poller_new_def startup_panics_def split: prod.splits sum.splits)
  next
    case Undefined
    with new show ?thesis by (auto simp: poller_new_def split: prod.splits sum.splits)
  qed
qed

lemma timer_setup_safe: "timer_setup K sd f s = (r, s') \<Longrightarrow> safe startup_panics r"
  by (auto simp: timer_setup_def startup_panics_def split: if_splits prod.splits sum.splits)

lemma timer_scope_safe:
  assumes "slab_laws (h_slab H)" "sound_laws (kern (h_env H))" "epoll_laws (kern (h_env H)) interest"
    "registration_laws (kern (h_env H)) interest" "sound st"
    and "timer_scope H a sfd mq st s = Some (out, st', s')"
  shows "safe (startup_panics \<union> running_panics) out"
proof -
  obtain r s1 where set: "timer_setup (kern (h_env H)) (h_show_duration H) (frequency a) s = (r, s1)" by force
  from timer_setup_safe [OF this] assms(6) set show ?thesis
    by (auto simp: timer_scope_def Let_def split: outcome.splits dest!: poll_scope_safe [OF assms(1-5)])
qed

lemma signal_scope_safe:
  assumes "slab_laws (h_slab H)" "sound_laws (kern (h_env H))" "epoll_laws (kern (h_env H)) interest"
    "registration_laws (kern (h_env H)) interest" "sound st"
    and "signal_scope H a mq st s = Some (out, st', s')"
  shows "safe (startup_panics \<union> running_panics) out"
proof -
  have "''failed to block SIGINT'' \<in> startup_panics" "''failed to create signalfd'' \<in> startup_panics"
    by (simp_all add: startup_panics_def)
  with assms(6) show ?thesis
    by (auto simp: signal_scope_def Let_def split: prod.splits sum.splits dest!: timer_scope_safe [OF assms(1-5)])
qed

lemma state_new_sound:
  assumes "small_configs cfgs" "state_new K cfgs folder s = (r, s')"
  shows "safe startup_panics r \<and> (\<forall>st. r = Return st \<longrightarrow> sound st)"
  using assms
  by (auto simp: state_new_def sound_def healthy_def startup_panics_def reader_new_def reader_aligned_def
      split: prod.splits sum.splits)

lemma state_scope_safe:
  assumes "slab_laws (h_slab H)" "sound_laws (kern (h_env H))" "epoll_laws (kern (h_env H)) interest"
    "registration_laws (kern (h_env H)) interest" "interner_laws (h_intern H)"
    and "interner_defined (h_intern H)" "utf8_like (join_with CHR '','' (events a))"
    and "length (join_with CHR '','' (events a)) < 2 ^ 58" "state_scope H a mq s = Some (out, s')"
  shows "safe (startup_panics \<union> running_panics \<union> intern_panics (h_intern H)) out"
proof -
  let ?K = "kern (h_env H)"
  obtain r1 s1 where parse: "parse_event_groups ?K (h_intern H) (join_with CHR '','' (events a)) s = (r1, s1)" by force
  note r1 = parse_safe [OF assms(6,7) parse]
  have bad: "''Failed to parse events'' \<in> startup_panics" by (simp add: startup_panics_def)
  show ?thesis
  proof (cases "\<exists>cfgs. r1 = Return (Inr cfgs)")
    case True
    then obtain cfgs where cfgs: "r1 = Return (Inr cfgs)" ..
    have small: "small_configs cfgs" using parse_small [OF assms(5,7,8)] parse cfgs by blast
    obtain r2 s2 where new: "state_new ?K cfgs (output_folder a) s1 = (r2, s2)" by force
    note r2 = state_new_sound [OF small new]
    note scope = signal_scope_safe [OF assms(1-4), THEN safe_mono]
    from assms(9) parse cfgs new r2 show ?thesis
      by (cases r2) (auto simp: state_scope_def Let_def intro: scope)
  next
    case False
    with assms(9) parse r1 bad show ?thesis
      by (auto simp: state_scope_def Let_def split: outcome.splits sum.splits)
  qed
qed

lemma main_body_panics:
  assumes "slab_laws (h_slab H)" "allocator_laws (kern (h_env H))" "whole_reads (kern (h_env H))"
    and "whole_messages (kern (h_env H))" "epoll_laws (kern (h_env H)) interest"
    and "registration_laws (kern (h_env H)) interest" "interner_laws (h_intern H)" "interner_defined (h_intern H)"
    and "utf8_like (join_with CHR '','' (events a))" "length (join_with CHR '','' (events a)) < 2 ^ 58"
    and "main_body H a s = Some (Panic m, s')"
  shows "m \<in> startup_panics \<union> running_panics \<union> intern_panics (h_intern H)"
proof -
  have "sound_laws (kern (h_env H))" using assms(2-4) by (simp add: sound_laws_def)
  note state = state_scope_safe [OF assms(1) this assms(5-10)]
  have "''failed to open mqueue'' \<in> startup_panics" by (simp add: startup_panics_def)
  with assms(11) show ?thesis
    by (auto simp: main_body_def Let_def split: prod.splits sum.splits dest!: state)
qed

section \<open>Prints that fail\<close>

text \<open>
  \<open>println!\<close> and \<open>eprintln!\<close> panic when their stream cannot be written (a pipe that nobody reads, a
  full disk). \<open>main_body\<close> is the run in which every print succeeds; \<open>main_outcome\<close> is how \<open>main\<close> ends
  for prints that may fail. Which do is a parameter: \<open>fails cs\<close>, for the calls \<open>cs\<close> up to and
  including the print. Up to the first print that fails the two runs are the same, and there
  the program panics. Nothing catches the panic, and no destructor prints or panics, so that it is
  the outcome of \<open>main\<close>; a run that panics for another reason prints nothing after that. (A run that
  goes on for ever has no outcome here; a failed print would end it with the same panic.)
\<close>

fun print_panic :: "call \<Rightarrow> string option" where
  "print_panic (CStdout msg) = Some ''failed printing to stdout''"
| "print_panic (CStderr d) = Some ''failed printing to stderr''"
| "print_panic c = None"

fun failed_print :: "(call list \<Rightarrow> bool) \<Rightarrow> call list \<Rightarrow> call list \<Rightarrow> string option" where
  "failed_print fails cs [] = None"
| "failed_print fails cs (d # ds) =
     (if print_panic d \<noteq> None \<and> fails (cs @ [d]) then print_panic d else failed_print fails (cs @ [d]) ds)"

definition main_outcome ::
    "(call list \<Rightarrow> bool) \<Rightarrow> ('n, 'e, 'w, 'sl) host \<Rightarrow> args \<Rightarrow> 'w \<Rightarrow> unit outcome option" where
  "main_outcome fails H a w =
     (case main_body H a (boot w) of
        None \<Rightarrow> None
      | Some (out, s') \<Rightarrow>
          (case failed_print fails [] (trace s') of None \<Rightarrow> Some out | Some m \<Rightarrow> Some (Panic m)))"

definition print_panics :: "string set" where
  "print_panics = {''failed printing to stdout'', ''failed printing to stderr''}"

lemma failed_print_message: "failed_print fails cs ds = Some m \<Longrightarrow> m \<in> print_panics \<and> (\<exists>cs. fails cs)"
proof (induction ds arbitrary: cs)
  case (Cons d ds)
  then show ?case by (cases d) (auto simp: print_panics_def split: if_splits)
qed simp

lemma failed_print_never: "failed_print (\<lambda>cs. False) cs ds = None"
  by (induction ds arbitrary: cs) simp_all

text \<open>
  \<^bold>\<open>C4.\<close> Once started, the monitor does not fail on what its inputs bring. With a working allocator,
  an epoll instance as documented and a kernel that delivers whole records: whatever messages
  arrive, whichever threads cannot be opened, however the writes, reads and clock behave and
  whichever prints fail, a \<open>main\<close> that panics does so with one of the listed messages, those of a
  failed set-up, of a failed read of the signalfd, of an error of the loop (\<open>poll error\<close>), the
  interner's own, or, if stdout or stderr could not be written, that of a failed print. No
  panic comes from the parser's slices, the sizes of the samples, the allocator, or a key or slice
  of the event loop. (The arguments have less than \<open>2 ^ 58\<close> bytes and are UTF-8 text.)
\<close>

theorem main_panics_listed:
  assumes "slab_laws (h_slab H)" "allocator_laws (kern (h_env H))" "whole_reads (kern (h_env H))"
    and "whole_messages (kern (h_env H))" "epoll_laws (kern (h_env H)) interest"
    and "registration_laws (kern (h_env H)) interest" "interner_laws (h_intern H)" "interner_defined (h_intern H)"
    and "utf8_like (join_with CHR '','' (events a))" "length (join_with CHR '','' (events a)) < 2 ^ 58"
    and "main_outcome fails H a w = Some (Panic m)"
  shows "m \<in> startup_panics \<union> running_panics \<union> intern_panics (h_intern H) \<or> m \<in> print_panics \<and> (\<exists>cs. fails cs)"
proof -
  from assms(11) obtain out s' where run: "main_body H a (boot w) = Some (out, s')"
      "failed_print fails [] (trace s') = Some m \<or> out = Panic m"
    by (auto simp: main_outcome_def split: option.splits)
  with main_body_panics [OF assms(1-10)] failed_print_message show ?thesis by blast
qed

text \<open>The command line names an event that libpfm does not know.\<close>

definition no_event_kernel :: "(int \<times> u64) list kernel" where
  "no_event_kernel = hung_kernel\<lparr>k_pfm_encode := (\<lambda>ev plm attr w. (-4, attr, w))\<rparr>"

definition no_event_host ::
    "(string, unit, (int \<times> u64) list, (nat \<times> (pollable, string state, (int \<times> u64) list) source) list) host" where
  "no_event_host = \<lparr>
     h_env = \<lparr>kern = no_event_kernel, casts = sized_casts, name_str = (\<lambda>n. n), map_order = (\<lambda>ks. ks)\<rparr>,
     h_intern = plain_interner, h_slab = assoc_slab, h_show_duration = (\<lambda>d. ''0ns'')\<rparr>"

lemma no_event_laws:
  "kern (h_env no_event_host) = no_event_kernel" "h_slab no_event_host = assoc_slab"
  "h_intern no_event_host = plain_interner"
  "allocator_laws no_event_kernel" "whole_reads no_event_kernel" "whole_messages no_event_kernel"
  "registration_laws no_event_kernel hung_interest" "epoll_laws no_event_kernel hung_interest"
  using hung_kernel_laws
  by (simp_all add: no_event_host_def no_event_kernel_def hung_kernel_def idle_kernel_def
      allocator_laws_def whole_reads_def whole_messages_def registration_laws_def never_registers_def
      epoll_laws_def)

lemma no_event_parse:
  "\<exists>s'. parse_event_groups no_event_kernel plain_interner ''a'' s = (Return (Inl (Pfm (-4))), s')"
  if "pfm_cell s = None"
proof -
  have t: "trim ''a'' = ''a''" by (rule trim_plain) (simp_all add: plain_char_def)
  show ?thesis
    by (simp add: parse_event_groups_def parse_loop.simps scan_while.simps is_separator_def
        is_ascii_whitespace_def is_name_char_def str_slice_def is_char_boundary_def continuation_def t
        parse_bare_def plain_interner_def Let_def from_pfm_string_def get_perf_attr_array_def os_simps
        no_event_kernel_def hung_kernel_def idle_kernel_def pfm_force_def that PFM_SUCCESS_def)
qed

lemma no_event_main:
  "\<exists>s'. main_body no_event_host stop_args (boot []) = Some (Panic ''Failed to parse events'', s')"
proof -
  obtain mq s1 where mq: "mq_new no_event_kernel message_size MQ_NAME (println ''Parsed Args'' (boot [])) = (Inr mq, s1)"
      "pfm_cell s1 = None"
    by (simp add: mq_new_def mq_open_queue_def os_simps no_event_kernel_def hung_kernel_def idle_kernel_def
        boot_def Let_def)
  have "pfm_cell (println ''Opened Message Queue'' s1) = None" using mq(2) by (simp add: println_def)
  from no_event_parse [OF this] mq(1) show ?thesis
    by (auto simp: main_body_def state_scope_def no_event_laws stop_args_def Let_def)
qed

theorem main_panics_listed_witness:
  "\<exists>m. main_outcome (\<lambda>cs. False) no_event_host stop_args [] = Some (Panic m)
    \<and> m \<in> startup_panics \<union> running_panics \<union> intern_panics (h_intern no_event_host)"
proof -
  let ?m = "''Failed to parse events''" and ?never = "\<lambda>cs. False"
  have run: "main_outcome ?never no_event_host stop_args [] = Some (Panic ?m)"
    using no_event_main by (auto simp: main_outcome_def failed_print_never)
  have "interner_defined plain_interner" "utf8_like ''a''"
    by (simp_all add: interner_defined_def plain_interner_def utf8_like_def continuation_def)
  then have "?m \<in> startup_panics \<union> running_panics \<union> intern_panics (h_intern no_event_host)
      \<or> ?m \<in> print_panics \<and> (\<exists>cs :: call list. ?never cs)"
    by (intro main_panics_listed [where interest = hung_interest, OF _ _ _ _ _ _ _ _ _ _ run])
      (simp_all add: no_event_laws assoc_slab_laws plain_interner_laws stop_args_def)
  with run show ?thesis by blast
qed

end
