(* ===== verification/Watching.thy ===== *)
theory Watching
  imports Panics
begin

text \<open>
  The monitor as an abstract machine. The machine has a set of watched threads, and each message
  delivered to it adds one, removes one, or changes nothing. The program simulates it: its event
  loop, over any number of rounds and with whatever else is reported between the messages, goes
  through the steps of the machine, one for each message the queue delivers, in their order.
\<close>

section \<open>The abstract machine\<close>

text \<open>What a delivered message says about a thread.\<close>

definition word_on :: "i32 \<Rightarrow> byte list \<Rightarrow> message_flag option" where
  "word_on t bs =
     (if length bs = message_size then
        (case try_from (message_of bs) of
           Inr m \<Rightarrow> if tid m = t then Some (flag m) else None
         | Inl e \<Rightarrow> None)
      else None)"

inductive watch_step :: "i32 set \<Rightarrow> byte list \<Rightarrow> i32 set \<Rightarrow> bool" where
  starts: "word_on t bs = Some AddProcess \<Longrightarrow> watch_step W bs (insert t W)"
| ends: "word_on t bs = Some RemoveProcess \<Longrightarrow> watch_step W bs (W - {t})"
| ignored: "(\<And>t. word_on t bs = None) \<Longrightarrow> watch_step W bs W"

inductive_cases watch_stepE: "watch_step W bs W'"

inductive watch_run :: "i32 set \<Rightarrow> byte list list \<Rightarrow> i32 set \<Rightarrow> bool" for W where
  watch_nil: "watch_run W [] W"
| watch_snoc: "watch_run W ms W1 \<Longrightarrow> watch_step W1 bs W2 \<Longrightarrow> watch_run W (ms @ [bs]) W2"

text \<open>The last message about a thread.\<close>

fun last_word :: "i32 \<Rightarrow> byte list list \<Rightarrow> message_flag option" where
  "last_word t [] = None"
| "last_word t (bs # ms) = (case last_word t ms of Some f \<Rightarrow> Some f | None \<Rightarrow> word_on t bs)"

lemma last_word_snoc: "last_word t (ms @ [bs]) = (case word_on t bs of Some f \<Rightarrow> Some f | None \<Rightarrow> last_word t ms)"
  by (induction ms) (auto split: option.splits)

lemma word_on_unique: "word_on t bs = Some f \<Longrightarrow> word_on t' bs = (if t' = t then Some f else None)"
  by (auto simp: word_on_def split: if_splits sum.splits)

lemma watch_step_word:
  "watch_step W bs W' \<Longrightarrow>
     t \<in> W' \<longleftrightarrow> (case word_on t bs of None \<Rightarrow> t \<in> W | Some f \<Rightarrow> f = AddProcess)"
  by (erule watch_stepE) (auto simp: word_on_unique)

lemma watch_run_last_word:
  "watch_run W ms W' \<Longrightarrow>
     t \<in> W' \<longleftrightarrow> (case last_word t ms of None \<Rightarrow> t \<in> W | Some f \<Rightarrow> f = AddProcess)"
proof (induction rule: watch_run.induct)
  case (watch_snoc ms W1 bs W2)
  with watch_step_word [OF watch_snoc.hyps(2)] show ?case
    by (auto simp: last_word_snoc split: option.splits)
qed simp

text \<open>The machine is deterministic.\<close>

lemma watch_run_unique: "watch_run W ms W1 \<Longrightarrow> watch_run W ms W2 \<Longrightarrow> W1 = W2"
  using watch_run_last_word by blast

section \<open>What the kernel documents of the queue\<close>

text \<open>
  \<open>coming w\<close> are the messages that will still be delivered in the world \<open>w\<close>. A receipt either
  fails and delivers nothing, or takes the first of them, whole; no other call takes one.
\<close>

definition delivery_laws :: "'w kernel \<Rightarrow> ('w \<Rightarrow> byte list list) \<Rightarrow> bool" where
  "delivery_laws K coming \<longleftrightarrow>
     (\<forall>fd n w r bs w'. k_mq_receive K fd n w = (r, bs, w') \<longrightarrow>
        (if r = -1 then coming w' = coming w
         else coming w = bs # coming w' \<and> r = int (length bs) \<and> length bs \<le> n))
   \<and> (\<forall>flags w. coming (snd (k_epoll_create1 K flags w)) = coming w)
   \<and> (\<forall>epfd op fd ev w. coming (snd (k_epoll_ctl K epfd op fd ev w)) = coming w)
   \<and> (\<forall>epfd n t w. coming (snd (snd (k_epoll_wait K epfd n t w))) = coming w)
   \<and> (\<forall>fd n w. coming (snd (snd (k_read K fd n w))) = coming w)
   \<and> (\<forall>fd w. coming (k_close K fd w) = coming w)
   \<and> (\<forall>attr pid cpu grp flags w. coming (snd (k_perf_event_open K attr pid cpu grp flags w)) = coming w)
   \<and> (\<forall>fd w. coming (snd (snd (k_ioctl_id K fd w))) = coming w)
   \<and> (\<forall>fd txt w. coming (snd (snd (k_file_write K fd txt w))) = coming w)
   \<and> (\<forall>w. coming (snd (k_now K w)) = coming w)
   \<and> (\<forall>sz align w. coming (snd (k_alloc K sz align w)) = coming w)
   \<and> (\<forall>a sz new_size w. coming (snd (k_realloc K a sz new_size w)) = coming w)"

lemma delivery_receive:
  "delivery_laws K coming \<Longrightarrow> sys_mq_receive K fd n s = (r, bs, s') \<Longrightarrow>
     if r = -1 then coming (world s') = coming (world s)
     else coming (world s) = bs # coming (world s') \<and> r = int (length bs) \<and> length bs \<le> n"
  unfolding delivery_laws_def sys_mq_receive_def by (auto split: prod.splits)

lemma delivery_epoll:
  assumes "delivery_laws K coming"
  shows "sys_epoll_create1 K flags s = (r, s') \<Longrightarrow> coming (world s') = coming (world s)"
    "sys_epoll_ctl K epfd op fd ev s = (r, s') \<Longrightarrow> coming (world s') = coming (world s)"
    "sys_epoll_wait K epfd n t s = (r, evs, s') \<Longrightarrow> coming (world s') = coming (world s)"
    "coming (world (sys_close K fd s)) = coming (world s)"
  using assms unfolding delivery_laws_def
  by (auto simp: os_simps split: prod.splits) (metis snd_conv)+

interpretation delivering: call_frame E "\<lambda>s s'. delivery_laws (kern E) coming \<longrightarrow> coming (world s') = coming (world s)"
  for E :: "('n, 'w) env" and coming :: "'w \<Rightarrow> byte list list"
  by unfold_locales (simp add: eprintln_def; fail | drule sys_worlds; simp add: delivery_laws_def; fail |
    simp add: delivery_laws_def sys_worlds; fail)+

lemmas keeps_coming =
  delivering.kept_open_tid [rule_format] delivering.kept_close_tid [rule_format]
  delivering.kept_flush_tids [rule_format] delivering.kept_signal_handler [rule_format]
  delivering.kept_timer_handler [rule_format]

section \<open>The simulation\<close>

text \<open>From \<open>(W, s)\<close> the messages delivered on the way to \<open>s'\<close> take the machine to the threads of \<open>st'\<close>.\<close>

definition watches :: "('w \<Rightarrow> byte list list) \<Rightarrow> i32 set \<Rightarrow> 'w os \<Rightarrow> 'n state \<Rightarrow> 'w os \<Rightarrow> bool" where
  "watches coming W s st' s' \<longleftrightarrow>
     (\<exists>ms. coming (world s) = ms @ coming (world s') \<and> watch_run W ms (monitored st'))"

lemma watches_refl: "watches coming (monitored st) s st s"
  unfolding watches_def by (rule exI [of _ "[]"]) (simp add: watch_nil)

lemma watches_quiet:
  "watches coming W s st s1 \<Longrightarrow> coming (world s2) = coming (world s1) \<Longrightarrow> monitored st' = monitored st \<Longrightarrow>
     watches coming W s st' s2"
  by (simp add: watches_def)

lemma watches_message:
  assumes "watches coming W s st s1" "coming (world s1) = bs # coming (world s2)"
    and "watch_step (monitored st) bs (monitored st')"
  shows "watches coming W s st' s2"
proof -
  from assms(1) obtain ms where ms: "coming (world s) = ms @ coming (world s1)" "watch_run W ms (monitored st)"
    by (auto simp: watches_def)
  from watch_snoc [OF ms(2) assms(3)] ms(1) assms(2) show ?thesis
    unfolding watches_def by (intro exI [of _ "ms @ [bs]"]) simp
qed

lemma message_read_delivered:
  assumes "delivery_laws K coming" "message_read K q s = (out, s')"
  shows "coming (world s') = coming (world s) \<and> (\<exists>e. out = Return (Inl e))
    \<or> (\<exists>bs. coming (world s) = bs # coming (world s')
        \<and> out = Return (if length bs = message_size then Inr (message_of bs) else Inl WrongSize))"
proof -
  obtain r bs s1 where call: "sys_mq_receive K (mq_fd q) message_size s = (r, bs, s1)" by (metis prod_cases3)
  note law = delivery_receive [OF assms(1) call]
  have "cast_unsigned r = length bs" if "r \<noteq> -1"
    using that law by (simp add: cast_unsigned_def message_size_def)
  with law call assms(2) show ?thesis
    by (auto simp: message_read_def mq_read_def assume_init_full split: if_splits)
qed

lemma spec_handle_steps:
  "watch_step W bs (spec_handle (if length bs = message_size then Inr (message_of bs) else Inl WrongSize) W)"
proof (cases "length bs = message_size \<and> (\<exists>m. try_from (message_of bs) = Inr m)")
  case True
  then obtain m where m: "length bs = message_size" "try_from (message_of bs) = Inr m" by blast
  then have "word_on (tid m) bs = Some (flag m)" by (simp add: word_on_def)
  with m show ?thesis by (cases "flag m") (auto simp: spec_handle_def intro: starts ends)
next
  case False
  then have "word_on t bs = None" for t by (auto simp: word_on_def split: sum.splits)
  moreover have "spec_handle (if length bs = message_size then Inr (message_of bs) else Inl WrongSize) W = W"
    using False by (auto simp: spec_handle_def split: sum.splits)
  ultimately show ?thesis using ignored by metis
qed

text \<open>One run of the queue's handler is one step of the machine, or none.\<close>

lemma queue_handler_keeps_coming:
  assumes laws: "delivery_laws (kern E) coming" and read: "message_read (kern E) mq s = (r, s1)"
    and h: "queue_handler E mq st s = (out, mq', st', s')"
  shows "coming (world s') = coming (world s1)"
proof -
  note op = keeps_coming(1) [OF _ laws] and cl = keeps_coming(2) [OF _ laws]
  from h read show ?thesis
    by (auto simp: queue_handler_def eprintln_def split: outcome.splits sum.splits message_flag.splits prod.splits
        dest: op cl)
qed

lemma queue_handler_watches:
  assumes laws: "delivery_laws (kern E) coming" and w: "watches coming W s0 st s"
    and h: "queue_handler E mq st s = (out, mq', st', s')"
  shows "watches coming W s0 st' s'"
proof -
  obtain r s1 where read: "message_read (kern E) mq s = (r, s1)" by force
  note same = queue_handler_keeps_coming [OF laws read h]
  note step = queue_handler_step [OF h]
  from message_read_delivered [OF laws read] show ?thesis
  proof (elim disjE conjE exE)
    fix e assume "coming (world s1) = coming (world s)" "r = Return (Inl e)"
    with same step read show ?thesis by (intro watches_quiet [OF w]) (auto simp: spec_handle_def)
  next
    fix bs assume d: "coming (world s) = bs # coming (world s1)"
      "r = Return (if length bs = message_size then Inr (message_of bs) else Inl WrongSize)"
    have "monitored st' = spec_handle (if length bs = message_size then Inr (message_of bs) else Inl WrongSize)
        (monitored st)" using step read d(2) by simp
    with d(1) same spec_handle_steps [of "monitored st" bs] show ?thesis
      by (intro watches_message [OF w, of bs]) simp_all
  qed
qed

lemma flush_all_watches:
  assumes "delivery_laws (kern E) coming" "watches coming W s0 st s" "flush_all E st s = (out, st', s')"
  shows "watches coming W s0 st' s'"
proof (rule watches_quiet [OF assms(2)])
  show "coming (world s') = coming (world s)"
    using keeps_coming(3) [OF _ assms(1)] assms(3) by (simp add: flush_all_def)
  show "monitored st' = monitored st" using flush_all_quiet [OF assms(3)] by (simp add: monitored_def)
qed

lemma source_handler_watches:
  assumes laws: "delivery_laws (kern E) coming" and w: "watches coming W s0 st s"
    and h: "source_handler E p st s = (out, p', st', s')"
  shows "watches coming W s0 st' s'"
proof (cases p)
  case (PSignal sfd)
  obtain o1 r st1 s1 where sg: "signal_handler E sfd st s = (o1, r, st1, s1)" by (metis prod_cases4)
  with h PSignal have "st' = st1" "s' = s1" by (auto simp: source_handler_def)
  with signal_handler_step [OF sg] keeps_coming(4) [OF sg laws] show ?thesis
    by (intro watches_quiet [OF w]) auto
next
  case (PQueue q)
  with h queue_handler_watches [OF laws w] show ?thesis by (auto simp: source_handler_def split: prod.splits)
next
  case (PTimer t)
  obtain o1 r st1 s1 where tm: "timer_handler E t st s = (o1, r, st1, s1)" by (metis prod_cases4)
  with h PTimer have st1: "st' = st1" "s' = s1" by (auto simp: source_handler_def)
  have "monitored st1 = monitored st"
    using timer_handler_step [OF tm] flush_all_quiet by (fastforce simp: monitored_def)
  with st1 keeps_coming(5) [OF tm laws] show ?thesis
    by (intro watches_quiet [OF w]) auto
qed

interpretation watching: context_invariant "kern E"
    "\<lambda>st s. delivery_laws (kern E) coming \<longrightarrow> watches coming W s0 st s" "monitor_source E"
  for E :: "('n, 'w) env" and coming :: "'w \<Rightarrow> byte list list" and W and s0 :: "'w os"
proof
  fix src src' :: "(pollable, 'n state, 'w) source" and c c' :: "'n state" and s s' :: "'w os" and out
  assume a: "monitor_source E src" "delivery_laws (kern E) coming \<longrightarrow> watches coming W s0 c s"
    "call_func src c s = (out, src', c', s')"
  then obtain r where h: "source_handler E (src_r src) c s = (out, r, c', s')" "src' = src\<lparr>src_r := r\<rparr>"
    by (auto simp: monitor_source_def call_func_def split: prod.splits)
  show "monitor_source E src' \<and> (delivery_laws (kern E) coming \<longrightarrow> watches coming W s0 c' s')"
    using a source_handler_watches [OF _ _ h(1)] h(2) by (simp add: monitor_source_def)
next
  fix c :: "'n state" and s s' :: "'w os" and epfd op fd ev r n t evs
  assume w: "delivery_laws (kern E) coming \<longrightarrow> watches coming W s0 c s"
  show "delivery_laws (kern E) coming \<longrightarrow> watches coming W s0 c s'" if "sys_epoll_ctl (kern E) epfd op fd ev s = (r, s')"
    using w delivery_epoll(2) [OF _ that] watches_quiet by blast
  show "delivery_laws (kern E) coming \<longrightarrow> watches coming W s0 c s'" if "sys_epoll_wait (kern E) epfd n t s = (r, evs, s')"
    using w delivery_epoll(3) [OF _ that] watches_quiet by blast
qed

section \<open>The program's loop\<close>

lemma register_all_coming:
  "delivery_laws (kern (h_env H)) coming \<Longrightarrow> register_all H srcs p s = (out, p', s') \<Longrightarrow>
     coming (world s') = coming (world s)"
proof (induction srcs arbitrary: p s)
  case Nil
  then have "s' = s" by simp
  then show ?case by simp
next
  case (Cons src srcs)
  obtain o1 p1 s1 where reg: "register_mut (kern (h_env H)) (h_slab H) pollable_fd src (source_handler (h_env H)) p s
      = (o1, p1, s1)" by (metis prod_cases3)
  then have s1: "coming (world s1) = coming (world s)"
    using delivery_epoll(2) [OF Cons.prems(1)] by (auto simp: register_mut_def Let_def split: prod.splits if_splits)
  show ?case
  proof (cases o1)
    case (Return u)
    with Cons.prems(2) reg have "register_all H srcs p1 s1 = (out, p', s')" by simp
    from Cons.IH [OF Cons.prems(1) this] s1 show ?thesis by simp
  next
    case (Panic m)
    with Cons.prems(2) reg have "s' = s1" by simp
    with s1 show ?thesis by simp
  next
    case Undefined
    with Cons.prems(2) reg have "s' = s1" by simp
    with s1 show ?thesis by simp
  qed
qed

lemma after_loop_watches:
  assumes "delivery_laws (kern E) coming" "watches coming W s0 st s" "after_loop E out st s = (out', st', s')"
  shows "watches coming W s0 st' s'"
proof (cases "loop_result out")
  case (Return u)
  have "watches coming W s0 st (println ''Finished the polling loop'' s)"
    using assms(2) by (simp add: watches_def println_def)
  from flush_all_watches [OF assms(1) this] assms(3) Return show ?thesis by (simp add: after_loop_def)
qed (use assms(2,3) in \<open>auto simp: after_loop_def\<close>)

lemma poll_scope_watches:
  assumes laws: "slab_laws (h_slab H)" "delivery_laws (kern (h_env H)) coming"
    and sc: "poll_scope H srcs st s = Some (out, st', s')"
  shows "watches coming (monitored st) s st' s'"
proof -
  let ?E = "h_env H" let ?K = "kern ?E" let ?S = "h_slab H"
  obtain o0 s1 where new: "poller_new ?K ?S s = (o0, s1)" by force
  then have s1: "coming (world s1) = coming (world s)"
    by (auto simp: poller_new_def epoll_create_def split: prod.splits sum.splits if_splits
        dest: delivery_epoll(1) [OF laws(2)])
  note w1 = watches_quiet [OF watches_refl s1 HOL.refl]
  show ?thesis
  proof (cases o0)
    case (Return p0)
    then have g0: "held.all_good ?E ?S p0"
      using new by (auto simp: poller_new_def held.all_good_def slab_new [OF laws(1)] split: prod.splits sum.splits)
    obtain o1 p s2 where reg: "register_all H srcs p0 s1 = (o1, p, s2)" by (metis prod_cases3)
    have g: "held.all_good ?E ?S p" using register_all_keeps [OF laws(1) reg g0] by simp
    have w2: "watches coming (monitored st) s st s2"
      by (rule watches_quiet [OF w1 register_all_coming [OF laws(2) reg] HOL.refl])
    have drop: "watches coming W s0 st1 (poller_drop ?K q t)" if "watches coming W s0 st1 t"
      for W and s0 t :: "'b os" and st1 :: "'a state" and q
      by (rule watches_quiet [OF that _ HOL.refl]) (simp add: poller_drop_def delivery_epoll(4) [OF laws(2)])
    show ?thesis
    proof (cases o1)
      case (Return u)
      obtain o2 p' st1 s3 where run: "run ?K ?S p st s2 = Some (o2, p', st1, s3)"
        using sc new \<open>o0 = Return p0\<close> reg Return by (auto simp: poll_scope_def Let_def split: option.splits)
      have w3: "watches coming (monitored st) s st1 s3"
        using watching.run_keeps [OF laws(1) run g, of coming "monitored st" s] w2 laws(2) by blast
      obtain o3 st2 s4 where al: "after_loop ?E o2 st1 s3 = (o3, st2, s4)" by (metis prod_cases3)
      note w4 = drop [OF after_loop_watches [OF laws(2) w3 al], of p']
      have "st' = st2" "s' = poller_drop ?K p' s4"
        using sc new \<open>o0 = Return p0\<close> reg Return run al by (simp_all add: poll_scope_def Let_def)
      with w4 show ?thesis by simp
    qed (use sc new \<open>o0 = Return p0\<close> reg drop [OF w2] in \<open>auto simp: poll_scope_def Let_def\<close>)
  qed (use sc new w1 in \<open>auto simp: poll_scope_def Let_def\<close>)
qed

text \<open>
  \<^bold>\<open>C8.\<close> What the monitor watches is what it was told. Whatever the loop is given besides (ticks,
  failed calls, malformed messages, counters that cannot be opened) and however it ends, the
  messages delivered while it ran form a run of the abstract machine from the threads watched
  before to those watched after: one step for each message, in the order of delivery. So a thread
  is watched at the end exactly when the last message about it was that it started, or when there
  was no message about it and it was watched before.
\<close>

theorem watched_by_last_message:
  assumes "slab_laws (h_slab H)" "delivery_laws (kern (h_env H)) coming"
    and "poll_scope H srcs st s = Some (out, st', s')"
  shows "\<exists>ms. coming (world s) = ms @ coming (world s') \<and> watch_run (monitored st) ms (monitored st')
    \<and> (\<forall>t. t \<in> monitored st' \<longleftrightarrow>
         (case last_word t ms of None \<Rightarrow> t \<in> monitored st | Some f \<Rightarrow> f = AddProcess))"
proof -
  obtain ms where "coming (world s) = ms @ coming (world s')" "watch_run (monitored st) ms (monitored st')"
    using poll_scope_watches [OF assms] by (auto simp: watches_def)
  with watch_run_last_word show ?thesis by blast
qed

text \<open>
  A kernel whose world is the queue: the queue is reported while it holds a message, then SIGINT.
  Three messages are delivered: thread 42 starts, thread 43 starts, thread 42 ends.
\<close>

definition queue_kernel :: "byte list list kernel" where
  "queue_kernel = idle_kernel\<lparr>
     k_mq_receive := (\<lambda>fd n w. case w of [] \<Rightarrow> (-1, [], []) | bs # ms \<Rightarrow>
       if length bs \<le> n then (int (length bs), bs, ms) else (-1, [], w)),
     k_epoll_wait := (\<lambda>epfd n t w. (1, [\<lparr>ee_events = 1, ee_data = (if w = [] then 0 else 1)\<rparr>], w))\<rparr>"

definition queue_host ::
    "(string, unit, byte list list, (nat \<times> (pollable, string state, byte list list) source) list) host" where
  "queue_host = \<lparr>
     h_env = \<lparr>kern = queue_kernel, casts = sized_casts, name_str = (\<lambda>n. n), map_order = (\<lambda>ks. ks)\<rparr>,
     h_intern = plain_interner, h_slab = assoc_slab, h_show_duration = (\<lambda>d. ''0ns'')\<rparr>"

lemma queue_host_simps:
  "kern (h_env queue_host) = queue_kernel" "h_slab queue_host = assoc_slab"
  by (simp_all add: queue_host_def)

lemma queue_receive:
  "k_mq_receive queue_kernel fd n w = (r, bs, w') \<Longrightarrow>
     r = -1 \<and> w' = w \<or> w = bs # w' \<and> r = int (length bs) \<and> length bs \<le> n"
  by (cases w) (auto simp: queue_kernel_def split: if_splits)

lemma queue_laws: "delivery_laws queue_kernel (\<lambda>w. w)" "sound_laws queue_kernel"
proof -
  show "delivery_laws queue_kernel (\<lambda>w. w)"
    unfolding delivery_laws_def
    by (intro conjI; (fastforce dest: queue_receive | simp add: queue_kernel_def idle_kernel_def))
  have "r = -1 \<or> cast_unsigned r \<noteq> n \<or> length bs = n"
    if "k_mq_receive queue_kernel fd n w = (r, bs, w')" for fd n w r bs w'
  proof -
    have "cast_unsigned (int (length bs)) \<le> length bs"
      by (simp add: cast_unsigned_def nat_mod_distrib nat_power_eq)
    with queue_receive [OF that] show ?thesis by auto
  qed
  then have "whole_messages queue_kernel" by (auto simp: whole_messages_def split: prod.splits)
  then show "sound_laws queue_kernel"
    by (simp add: sound_laws_def allocator_laws_def whole_reads_def queue_kernel_def idle_kernel_def)
qed

abbreviation queue_source :: "pollable \<Rightarrow> int \<Rightarrow> (pollable, string state, byte list list) source" where
  "queue_source r fd \<equiv> \<lparr>src_fd = fd, src_r = r, src_func = source_handler (h_env queue_host)\<rparr>"

lemma queue_wait:
  "\<exists>s1. wait_ready queue_kernel epfd zero_events s =
     Some (Inr (1, fill zero_events [\<lparr>ee_events = 1, ee_data = (if world s = [] then 0 else 1)\<rparr>]), s1)
   \<and> world s1 = world s"
  by (simp add: wait_ready.simps os_simps queue_kernel_def)

lemma one_event: "take 1 (fill zero_events [ev]) = [ev]" "1 \<le> length (fill zero_events [ev])"
  by (simp_all add: zero_events_def COUNT_def fill_def)

lemma queue_signal: "\<exists>info s1. signal_read queue_kernel sfd s = (Return (Inr info), s1) \<and> world s1 = world s"
proof -
  obtain r bs s' where call: "sys_read queue_kernel (signal_raw sfd) siginfo_size s = (r, bs, s')" by (metis prod_cases3)
  then have "r = int siginfo_size" "bs = replicate siginfo_size 0" "world s' = world s"
    by (auto simp: os_simps queue_kernel_def idle_kernel_def)
  with call assume_init_full [of "replicate siginfo_size 0" siginfo_size] show ?thesis by (simp add: signal_read_def)
qed

lemma queue_round:
  assumes "sound st" "world s = bs # ms" "length bs \<le> message_size"
    and src: "map_of (sources p) 1 = Some (queue_source (PQueue q) fd)"
  shows "\<exists>p1 st1 s1. poll_once queue_kernel assoc_slab p st s = Some (Return (Inr Continue), p1, st1, s1)
    \<and> sound st1 \<and> world s1 = ms \<and> sources p1 = AList.update 1 (queue_source (PQueue q) fd) (sources p)"
proof -
  let ?E = "h_env queue_host" let ?ev = "\<lparr>ee_events = 1, ee_data = 1\<rparr> :: epoll_event"
  have E: "kern ?E = queue_kernel" by (simp add: queue_host_simps)
  obtain s0 where wait: "wait_ready queue_kernel (poller_fd p) zero_events s = Some (Inr (1, fill zero_events [?ev]), s0)"
      "world s0 = bs # ms" using queue_wait [of "poller_fd p" s] assms(2) by auto
  obtain out q1 st1 s1 where h: "queue_handler ?E q st s0 = (out, q1, st1, s1)" by (metis prod_cases4)
  have "safe {} out" and st1: "sound st1" using queue_handler_sound [OF _ assms(1) h] queue_laws E by auto
  then have out: "out = Return (Inr Continue)" "q1 = q"
    using queue_handler_step [OF h] by (cases out; auto)+
  obtain r s2 where read: "message_read queue_kernel q s0 = (r, s2)" by force
  have "world s2 = ms"
    using read wait(2) assms(3) by (auto simp: message_read_def mq_read_def os_simps queue_kernel_def
        message_size_def split: if_splits)
  moreover have "world s1 = world s2"
    using queue_handler_keeps_coming [of ?E "\<lambda>w. w", unfolded E, OF queue_laws(1) read h] .
  ultimately have "world s1 = ms" by simp
  moreover have "handle_event queue_kernel assoc_slab ?ev p st s0 = (Return (Inr NextEvent),
      p\<lparr>sources := AList.update 1 (queue_source (PQueue q) fd) (sources p)\<rparr>, st1, s1)"
    using src h out by (simp add: handle_event_def READABLE_def HANGUP_def EPOLLIN_def EPOLLERR_def EPOLLHUP_def
        call_func_def source_handler_def resolve_action_def Let_def)
  moreover have "AList.update 1 (queue_source (PQueue q) fd) (sources p) \<noteq> []" by (cases "sources p") auto
  ultimately show ?thesis using wait(1) one_event [of ?ev] st1 by (auto simp: poll_once_def)
qed

lemma queue_run:
  "world s = ms \<Longrightarrow> sound st \<Longrightarrow> \<forall>bs \<in> set ms. length bs \<le> message_size \<Longrightarrow>
   map_of (sources p) 0 = Some (queue_source (PSignal sfd) fd0) \<Longrightarrow>
   map_of (sources p) 1 = Some (queue_source (PQueue q) fd1) \<Longrightarrow>
   \<exists>p' st' s'. run queue_kernel assoc_slab p st s = Some (Return (Inr ()), p', st', s') \<and> sound st' \<and> world s' = []"
proof (induction ms arbitrary: s st p)
  case Nil
  let ?ev = "\<lparr>ee_events = 1, ee_data = 0\<rparr> :: epoll_event"
  obtain s1 where wait: "wait_ready queue_kernel (poller_fd p) zero_events s = Some (Inr (1, fill zero_events [?ev]), s1)"
    and w1: "world s1 = []" using queue_wait [of "poller_fd p" s] Nil.prems(1) by auto
  obtain info s2 where rd: "signal_read queue_kernel sfd s1 = (Return (Inr info), s2)" and w2: "world s2 = []"
    using queue_signal w1 by metis
  obtain p' where "handle_event queue_kernel assoc_slab ?ev p st s1 = (Return (Inr StopNow), p', st, s2)"
    using signal_event_stops [of ?ev assoc_slab p _ "h_env queue_host" sfd s1 info s2 st] Nil.prems(4) rd
    by (auto simp: queue_host_simps READABLE_def EPOLLIN_def)
  from stop_event_ends_run [OF wait one_event(2) _ _ this, of "[]" "[]"] one_event(1) Nil.prems(2) w2
  show ?case by auto
next
  case (Cons bs ms)
  obtain p1 st1 s1 where once: "poll_once queue_kernel assoc_slab p st s = Some (Return (Inr Continue), p1, st1, s1)"
    and st1: "sound st1" "world s1 = ms"
    and p1: "sources p1 = AList.update 1 (queue_source (PQueue q) fd1) (sources p)"
    using queue_round [OF Cons.prems(2,1) _ Cons.prems(5)] Cons.prems(3) by auto
  have "\<exists>p' st' s'. run queue_kernel assoc_slab p1 st1 s1 = Some (Return (Inr ()), p', st', s') \<and> sound st' \<and> world s' = []"
    by (rule Cons.IH) (use st1 p1 Cons.prems in \<open>auto simp: update_conv'\<close>)
  with once show ?case by (simp add: run_unfold [of queue_kernel assoc_slab p])
qed

lemma queue_scope:
  assumes "\<forall>bs \<in> set ms. length bs \<le> message_size"
  shows "\<exists>st' s'. poll_scope queue_host [PSignal sfd, PQueue q] no_state (boot ms) = Some (Return (), st', s')
    \<and> world s' = []"
proof -
  let ?E = "h_env queue_host"
  note K = queue_host_simps
  obtain p0 :: "(nat \<times> (pollable, string state, byte list list) source) list poller" and s1
    where new: "poller_new queue_kernel assoc_slab (boot ms) = (Return p0, s1)" "sources p0 = []" "world s1 = ms"
    by (simp add: poller_new_def epoll_create_def os_simps queue_kernel_def idle_kernel_def boot_def)
  have "\<exists>p s2. register_all queue_host [PSignal sfd, PQueue q] p0 s1 = (Return (), p, s2)
      \<and> map_of (sources p) 0 = Some (queue_source (PSignal sfd) (signal_raw sfd))
      \<and> map_of (sources p) 1 = Some (queue_source (PQueue q) (mq_fd q)) \<and> world s2 = ms"
    using new(2,3) by (simp add: register_mut_def K Let_def os_simps signal_pollable_fd_def mq_pollable_fd_def
        queue_kernel_def idle_kernel_def)
  then obtain p s2 where reg: "register_all queue_host [PSignal sfd, PQueue q] p0 s1 = (Return (), p, s2)"
      "map_of (sources p) 0 = Some (queue_source (PSignal sfd) (signal_raw sfd))"
      "map_of (sources p) 1 = Some (queue_source (PQueue q) (mq_fd q))" "world s2 = ms"
    by blast
  have "sound no_state" by (simp add: sound_def healthy_def no_state_def small_configs_def reader_new_def reader_aligned_def)
  with queue_run [OF reg(4) _ assms reg(2,3)] obtain p' st1 s3 where
    run: "run queue_kernel assoc_slab p no_state s2 = Some (Return (Inr ()), p', st1, s3)" "sound st1" "world s3 = []"
    by blast
  obtain o3 st2 s4 where al: "flush_all ?E st1 (println ''Finished the polling loop'' s3) = (o3, st2, s4)"
    by (metis prod_cases3)
  have "o3 = Return ()" using flush_all_sound [OF _ run(2) al] queue_laws(2) K by simp
  moreover have "world s4 = []"
    using keeps_coming(3) [of ?E _ _ _ _ _ _ "\<lambda>w. w", OF al [unfolded flush_all_def]] queue_laws(1) K run(3)
    by (simp add: println_def)
  ultimately show ?thesis
    using new(1) reg(1) run(1) al
    by (simp add: poll_scope_def K after_loop_def loop_result_def poller_drop_def os_simps queue_kernel_def idle_kernel_def)
qed

theorem watched_by_last_message_witness:
  "\<exists>st' s'. poll_scope queue_host [PSignal \<lparr>signal_raw = 4\<rparr>, PQueue \<lparr>mq_fd = 6, mq_name = MQ_NAME\<rparr>] no_state
      (boot (map message_image (constructor_messages 42 @ constructor_messages 43 @ wrapper_messages 42)))
      = Some (Return (), st', s') \<and> monitored st' = {43}"
proof -
  let ?ms = "map message_image (constructor_messages 42 @ constructor_messages 43 @ wrapper_messages 42)"
  let ?srcs = "[PSignal \<lparr>signal_raw = 4\<rparr>, PQueue \<lparr>mq_fd = 6, mq_name = MQ_NAME\<rparr>]"
  have "\<forall>bs \<in> set ?ms. length bs \<le> message_size" by (auto simp: msg.length_enc)
  then obtain st' s' where run: "poll_scope queue_host ?srcs no_state (boot ?ms) = Some (Return (), st', s')"
    and w: "world s' = []" using queue_scope by metis
  have word: "word_on t (message_image m) = (case try_from m of Inr r \<Rightarrow> if tid r = t then Some (flag r) else None | Inl e \<Rightarrow> None)"
    for t m by (simp add: word_on_def msg.length_enc msg.dec_enc)
  from watched_by_last_message [OF _ _ run, of "\<lambda>w. w"] w queue_laws(1)
  have "\<forall>t. t \<in> monitored st' \<longleftrightarrow> (case last_word t ?ms of None \<Rightarrow> t \<in> monitored (no_state :: string state) | Some f \<Rightarrow> f = AddProcess)"
    by (auto simp: queue_host_simps assoc_slab_laws boot_def)
  then have "t \<in> monitored st' \<longleftrightarrow> t = 43" for t
    by (auto simp: word constructor_messages_def wrapper_messages_def try_from_def MESSAGE_FLAG_ADD_PROCESS_def
        MESSAGE_FLAG_REMOVE_PROCESS_def no_state_def monitored_def split: if_splits)
  with run show ?thesis by blast
qed

end
