(* ===== verification/Preload.thy ===== *)
theory Preload
  imports Watching
begin

text \<open>
  The sending side: the library \<open>wrapper/wrapper.c\<close>, preloaded into the monitored program. Its
  constructor announces the main thread; it replaces \<open>pthread_create\<close> by a function that starts
  every thread in \<open>wrapper\<close>, which announces the thread, runs its function, and takes it back in a
  cleanup handler. The functions are modelled over a record of the C library's; the threads of a
  process, which run them in any interleaving, are a step relation. Then the two programs are put
  together: the threads that the monitor watches are the threads that are running.
\<close>

section \<open>The library\<close>

text \<open>
  What the library calls. \<open>dlsym\<close> says whether the symbol was found; \<open>pthread_create\<close> is the
  original, given the argument for \<open>wrapper\<close>. The pointers of C are numbers, null is 0.
\<close>

record 'w libc =
  c_dlsym :: "'w \<Rightarrow> bool \<times> 'w"
  c_mq_open :: "string \<Rightarrow> 'w \<Rightarrow> int \<times> 'w"
  c_gettid :: "'w \<Rightarrow> i32 \<times> 'w"
  c_mq_send :: "int \<Rightarrow> byte list \<Rightarrow> 'w \<Rightarrow> int \<times> 'w"
  c_malloc :: "nat \<Rightarrow> 'w \<Rightarrow> nat \<times> 'w"
  c_free :: "nat \<Rightarrow> 'w \<Rightarrow> 'w"
  c_pthread_create :: "nat \<Rightarrow> 'w \<Rightarrow> int \<times> 'w"

record thread_data =
  td_args :: nat
  td_func :: nat

text \<open>
  The two static variables, the blocks of \<open>malloc\<close> with a \<open>struct thread_data\<close>, the messages that
  the queue has accepted, the arguments of the threads that were made and have not begun, and the
  rest of the world.
\<close>

record 'w preload =
  orig_pthread_create :: bool
  pid_message_queue :: int
  blocks :: "nat \<rightharpoonup> thread_data"
  sent :: "byte list list"
  pending :: "nat list"
  outside :: 'w

text \<open>A function returns, ends the process by \<open>exit(EXIT_FAILURE)\<close>, or has undefined behaviour.\<close>

datatype 'a c_end = Ran 'a | Exited | Faulted

definition send_message :: "'w libc \<Rightarrow> message \<Rightarrow> 'w preload \<Rightarrow> unit c_end \<times> 'w preload" where
  "send_message L msg s =
     (case c_mq_send L (pid_message_queue s) (message_image msg) (outside s) of (send_return, w) \<Rightarrow>
        (if send_return = -1 then (Exited, s\<lparr>outside := w\<rparr>)
         else (Ran (), s\<lparr>outside := w, sent := sent s @ [message_image msg]\<rparr>)))"

definition gettid :: "'w libc \<Rightarrow> 'w preload \<Rightarrow> i32 \<times> 'w preload" where
  "gettid L s = (case c_gettid L (outside s) of (t, w) \<Rightarrow> (t, s\<lparr>outside := w\<rparr>))"

definition constructor :: "'w libc \<Rightarrow> 'w preload \<Rightarrow> i32 c_end \<times> 'w preload" where
  "constructor L s =
     (case c_dlsym L (outside s) of (found, w) \<Rightarrow>
        let s1 = s\<lparr>orig_pthread_create := found, outside := w\<rparr> in
        if \<not> found then (Exited, s1)
        else case c_mq_open L MQ_NAME w of (mqd, w2) \<Rightarrow>
          (let s2 = s1\<lparr>pid_message_queue := mqd, outside := w2\<rparr> in
           if mqd = -1 then (Exited, s2)
           else case gettid L s2 of (t, s3) \<Rightarrow>
             (case send_message L \<lparr>m_tid = t, m_flags = MESSAGE_FLAG_ADD_PROCESS\<rparr> s3 of
                (Ran _, s4) \<Rightarrow> (Ran t, s4)
              | (Exited, s4) \<Rightarrow> (Exited, s4)
              | (Faulted, s4) \<Rightarrow> (Faulted, s4))))"

definition cleanup_handler :: "'w libc \<Rightarrow> message \<Rightarrow> 'w preload \<Rightarrow> unit c_end \<times> 'w preload" where
  "cleanup_handler L msg s = send_message L msg s"

text \<open>
  \<open>wrapper\<close> up to the call of the thread's function: reading a block that is not live faults. The
  result is what the rest of \<open>wrapper\<close> keeps on its stack.
\<close>

definition wrapper_begin :: "'w libc \<Rightarrow> nat \<Rightarrow> 'w preload \<Rightarrow> (thread_data \<times> message) c_end \<times> 'w preload" where
  "wrapper_begin L arg s =
     (case blocks s arg of
        None \<Rightarrow> (Faulted, s)
      | Some tmp \<Rightarrow>
          (let s1 = s\<lparr>blocks := (blocks s)(arg := None), outside := c_free L arg (outside s)\<rparr> in
           case gettid L s1 of (my_pid, s2) \<Rightarrow>
             (case send_message L \<lparr>m_tid = my_pid, m_flags = MESSAGE_FLAG_ADD_PROCESS\<rparr> s2 of
                (Ran _, s3) \<Rightarrow> (Ran (tmp, \<lparr>m_tid = my_pid, m_flags = MESSAGE_FLAG_REMOVE_PROCESS\<rparr>), s3)
              | (Exited, s3) \<Rightarrow> (Exited, s3)
              | (Faulted, s3) \<Rightarrow> (Faulted, s3))))"

text \<open>
  All of \<open>wrapper\<close>, when nothing else of the process runs meanwhile. The thread's function returns
  a value, or is unwound by \<open>pthread_exit\<close> or a cancellation, \<open>None\<close>; the cleanup handler runs in
  both cases.
\<close>

definition wrapper ::
    "'w libc \<Rightarrow> (nat \<Rightarrow> nat \<Rightarrow> 'w preload \<Rightarrow> nat option \<times> 'w preload) \<Rightarrow> nat \<Rightarrow> 'w preload \<Rightarrow>
       nat option c_end \<times> 'w preload" where
  "wrapper L run_func arg s =
     (case wrapper_begin L arg s of
        (Ran (tmp, msg), s1) \<Rightarrow>
          (case run_func (td_func tmp) (td_args tmp) s1 of (return_value, s2) \<Rightarrow>
             (case cleanup_handler L msg s2 of
                (Ran _, s3) \<Rightarrow> (Ran return_value, s3)
              | (Exited, s3) \<Rightarrow> (Exited, s3)
              | (Faulted, s3) \<Rightarrow> (Faulted, s3)))
      | (Exited, s1) \<Rightarrow> (Exited, s1)
      | (Faulted, s1) \<Rightarrow> (Faulted, s1))"

text \<open>
  The replacement of \<open>pthread_create\<close>: the result of \<open>malloc\<close> is written to unchecked, and so is the
  pointer to the original called. When the original succeeds there is a thread to begin.
\<close>

definition pthread_create :: "'w libc \<Rightarrow> nat \<Rightarrow> nat \<Rightarrow> 'w preload \<Rightarrow> int c_end \<times> 'w preload" where
  "pthread_create L start_routine arg s =
     (case c_malloc L 16 (outside s) of (tmp, w) \<Rightarrow>
        if tmp = 0 then (Faulted, s\<lparr>outside := w\<rparr>)
        else
          let s1 = s\<lparr>blocks := (blocks s)(tmp \<mapsto> \<lparr>td_args = arg, td_func = start_routine\<rparr>), outside := w\<rparr> in
          if \<not> orig_pthread_create s1 then (Faulted, s1)
          else case c_pthread_create L tmp (outside s1) of (ret, w2) \<Rightarrow>
            (Ran ret, s1\<lparr>pending := (if ret = 0 then pending s1 @ [tmp] else pending s1), outside := w2\<rparr>))"

section \<open>One thread\<close>

lemma send_message_Ran:
  "send_message L msg s = (Ran u, s') \<Longrightarrow> sent s' = sent s @ [message_image msg] \<and> blocks s' = blocks s
     \<and> pending s' = pending s \<and> orig_pthread_create s' = orig_pthread_create s"
  by (auto simp: send_message_def split: prod.splits if_splits)

lemma gettid_fields:
  "gettid L s = (t, s') \<Longrightarrow> sent s' = sent s \<and> blocks s' = blocks s \<and> pending s' = pending s
     \<and> orig_pthread_create s' = orig_pthread_create s"
  by (auto simp: gettid_def split: prod.splits)

lemma wrapper_begin_Ran:
  assumes "wrapper_begin L arg s = (Ran (tmp, msg), s')"
  shows "\<exists>t. msg = \<lparr>m_tid = t, m_flags = MESSAGE_FLAG_REMOVE_PROCESS\<rparr> \<and> blocks s arg = Some tmp
    \<and> sent s' = sent s @ [message_image \<lparr>m_tid = t, m_flags = MESSAGE_FLAG_ADD_PROCESS\<rparr>]
    \<and> blocks s' = (blocks s)(arg := None) \<and> pending s' = pending s
    \<and> orig_pthread_create s' = orig_pthread_create s"
  using assms
  by (auto simp: wrapper_begin_def Let_def split: option.splits prod.splits c_end.splits
      dest!: gettid_fields send_message_Ran)

text \<open>
  What a thread sends: if \<open>wrapper\<close> returns, it has sent the announcement of its thread before the
  thread's function ran and taken it back after, and has freed its argument.
\<close>

lemma wrapper_sends:
  assumes "\<And>f a s. sent (snd (run_func f a s)) = sent s" "wrapper L run_func arg s = (Ran r, s')"
  shows "\<exists>t. sent s' = sent s @ map message_image (wrapper_messages t)"
proof -
  obtain tmp msg s1 where b: "wrapper_begin L arg s = (Ran (tmp, msg), s1)"
    using assms(2) by (auto simp: wrapper_def split: prod.splits c_end.splits)
  obtain v s2 where f: "run_func (td_func tmp) (td_args tmp) s1 = (v, s2)" by force
  with assms(2) b obtain s3 where c: "cleanup_handler L msg s2 = (Ran (), s3)" "s' = s3"
    by (auto simp: wrapper_def split: prod.splits c_end.splits)
  have "sent s2 = sent s1" using assms(1) [of "td_func tmp" "td_args tmp" s1] f by simp
  with wrapper_begin_Ran [OF b] send_message_Ran [OF c(1) [unfolded cleanup_handler_def]] c(2) show ?thesis
    by (auto simp: wrapper_messages_def)
qed

section \<open>The threads of a process\<close>

text \<open>
  A process: the thread that ran the constructor, the threads that are in the function they were
  made for, each with the message on its stack, and the state of the library. Any thread may run
  next. A step is the code between two points where the others see a difference: a call of
  \<open>pthread_create\<close>, the beginning of a thread up to its announcement, the cleanup handler, or
  anything the process does outside the library, the end of the first thread by \<open>pthread_exit\<close>
  included, which has no cleanup handler and keeps its id; the end of the process itself sends
  nothing, and is the end of the run. The premises about \<open>malloc\<close> and \<open>gettid\<close> are what
  these promise: a block that is not live, the id of a thread that no other has.
\<close>

inductive process ::
    "'w libc \<Rightarrow> 'w preload \<Rightarrow> i32 \<Rightarrow> (i32 \<rightharpoonup> message) \<Rightarrow> 'w preload \<Rightarrow> bool" for L s0 main where
  loads: "constructor L s0 = (Ran main, s) \<Longrightarrow> process L s0 main Map.empty s"
| creates: "process L s0 main stacks s \<Longrightarrow> fst (c_malloc L 16 (outside s)) \<notin> dom (blocks s) \<Longrightarrow>
    pthread_create L start_routine arg s = (Ran ret, s') \<Longrightarrow> process L s0 main stacks s'"
| begins: "process L s0 main stacks s \<Longrightarrow> arg \<in> set (pending s) \<Longrightarrow>
    wrapper_begin L arg (s\<lparr>pending := remove1 arg (pending s)\<rparr>) = (Ran (tmp, msg), s') \<Longrightarrow>
    m_tid msg \<notin> insert main (dom stacks) \<Longrightarrow> process L s0 main (stacks(m_tid msg \<mapsto> msg)) s'"
| ends: "process L s0 main stacks s \<Longrightarrow> stacks t = Some msg \<Longrightarrow>
    cleanup_handler L msg s = (Ran (), s') \<Longrightarrow> process L s0 main (stacks(t := None)) s'"
| elsewhere: "process L s0 main stacks s \<Longrightarrow> process L s0 main stacks (s\<lparr>outside := w\<rparr>)"

text \<open>The library as it is loaded: the initial values of its variables, nothing sent, no threads made.\<close>

definition unloaded :: "'w preload \<Rightarrow> bool" where
  "unloaded s \<longleftrightarrow> \<not> orig_pthread_create s \<and> pid_message_queue s = -1 \<and> blocks s = Map.empty \<and> sent s = [] \<and> pending s = []"

text \<open>The blocks and the messages on the stacks, in every state of a process.\<close>

definition orderly :: "i32 \<Rightarrow> (i32 \<rightharpoonup> message) \<Rightarrow> 'w preload \<Rightarrow> bool" where
  "orderly main stacks s \<longleftrightarrow> orig_pthread_create s \<and> distinct (pending s) \<and> set (pending s) \<subseteq> dom (blocks s)
     \<and> main \<notin> dom stacks
     \<and> (\<forall>t msg. stacks t = Some msg \<longrightarrow> msg = \<lparr>m_tid = t, m_flags = MESSAGE_FLAG_REMOVE_PROCESS\<rparr>)
     \<and> watch_run {} (sent s) (insert main (dom stacks))"

lemma word_on_image:
  "word_on t (message_image \<lparr>m_tid = t, m_flags = MESSAGE_FLAG_ADD_PROCESS\<rparr>) = Some AddProcess"
  "word_on t (message_image \<lparr>m_tid = t, m_flags = MESSAGE_FLAG_REMOVE_PROCESS\<rparr>) = Some RemoveProcess"
  by (simp_all add: word_on_def msg.length_enc msg.dec_enc try_from_def MESSAGE_FLAG_ADD_PROCESS_def
      MESSAGE_FLAG_REMOVE_PROCESS_def)

lemma constructor_Ran:
  "constructor L s = (Ran t, s') \<Longrightarrow>
     orig_pthread_create s' \<and> blocks s' = blocks s \<and> pending s' = pending s
     \<and> sent s' = sent s @ [message_image \<lparr>m_tid = t, m_flags = MESSAGE_FLAG_ADD_PROCESS\<rparr>]"
  by (auto simp: constructor_def Let_def split: prod.splits c_end.splits if_splits
      dest!: gettid_fields send_message_Ran)

lemma pthread_create_Ran:
  "pthread_create L start_routine arg s = (Ran ret, s') \<Longrightarrow>
     \<exists>p. p = fst (c_malloc L 16 (outside s)) \<and> blocks s' = (blocks s)(p \<mapsto> \<lparr>td_args = arg, td_func = start_routine\<rparr>)
     \<and> pending s' = (if ret = 0 then pending s @ [p] else pending s) \<and> sent s' = sent s
     \<and> orig_pthread_create s' = orig_pthread_create s"
  by (auto simp: pthread_create_def Let_def split: prod.splits if_splits)

lemma process_orderly:
  assumes "process L s0 main stacks s" "unloaded s0"
  shows "orderly main stacks s"
  using assms(1)
proof (induction rule: process.induct)
  case (loads s)
  from constructor_Ran [OF loads] assms(2) show ?case
    using watch_snoc [OF watch_nil starts [OF word_on_image(1)]]
    by (auto simp: orderly_def unloaded_def)
next
  case (creates stacks s start_routine arg ret s')
  from pthread_create_Ran [OF creates.hyps(3)] creates.hyps(2) creates.IH show ?case
    by (auto simp: orderly_def)
next
  case (begins stacks s arg tmp msg s')
  from wrapper_begin_Ran [OF begins.hyps(3)] obtain t where
    t: "msg = \<lparr>m_tid = t, m_flags = MESSAGE_FLAG_REMOVE_PROCESS\<rparr>"
      "sent s' = sent s @ [message_image \<lparr>m_tid = t, m_flags = MESSAGE_FLAG_ADD_PROCESS\<rparr>]"
      "blocks s' = (blocks s)(arg := None)" "pending s' = remove1 arg (pending s)"
      "orig_pthread_create s' = orig_pthread_create s" by auto
  have fresh: "t \<noteq> main" "stacks t = None" using t(1) begins.hyps(4) by auto
  have "watch_run {} (sent s') (insert t (insert main (dom stacks)))"
    unfolding t(2) using begins.IH by (intro watch_snoc [OF _ starts [OF word_on_image(1)]]) (simp add: orderly_def)
  moreover have "insert t (insert main (dom stacks)) = insert main (dom (stacks(m_tid msg \<mapsto> msg)))"
    using t(1) by auto
  ultimately have run: "watch_run {} (sent s') (insert main (dom (stacks(m_tid msg \<mapsto> msg))))" by (simp only:)
  have "set (remove1 arg (pending s)) \<subseteq> dom ((blocks s)(arg := None))"
    using begins.IH by (auto simp: orderly_def)
  with run t fresh begins.IH show ?case
    unfolding orderly_def t(3-5) by (intro conjI) (auto simp: t(1) simp del: dom_fun_upd)
next
  case (ends stacks s t msg s')
  from ends.IH ends.hyps(2) have msg: "msg = \<lparr>m_tid = t, m_flags = MESSAGE_FLAG_REMOVE_PROCESS\<rparr>" "t \<noteq> main"
    by (auto simp: orderly_def)
  note s' = send_message_Ran [OF ends.hyps(3) [unfolded cleanup_handler_def]]
  have "watch_run {} (sent s') (insert main (dom stacks) - {t})"
    using s' ends.IH msg(1) watch_snoc [OF _ watch_step.ends [OF word_on_image(2)]] by (simp add: orderly_def)
  moreover have "insert main (dom stacks) - {t} = insert main (dom (stacks(t := None)))" using msg(2) by auto
  ultimately have run: "watch_run {} (sent s') (insert main (dom (stacks(t := None))))" by (simp only:)
  from ends.IH have "main \<notin> dom (stacks(t := None))"
    "\<forall>u m. (stacks(t := None)) u = Some m \<longrightarrow> m = \<lparr>m_tid = u, m_flags = MESSAGE_FLAG_REMOVE_PROCESS\<rparr>"
    by (auto simp: orderly_def split: if_splits)
  with run s' ends.IH show ?case by (simp add: orderly_def del: fun_upd_apply)
next
  case (elsewhere stacks s w)
  then show ?case by (simp add: orderly_def)
qed

text \<open>Every prefix of what a process has sent is all that it had sent at an earlier moment.\<close>

lemma process_prefix:
  assumes "process L s0 main stacks s" "unloaded s0" "sent s = ms @ ms'" "ms \<noteq> []"
  shows "\<exists>stacks' s'. process L s0 main stacks' s' \<and> sent s' = ms"
  using assms(1,3)
proof (induction arbitrary: ms' rule: process.induct)
  case (loads s)
  with constructor_Ran [OF loads.hyps] assms(2,4) have "sent s = ms"
    by (auto simp: unloaded_def append_eq_Cons_conv)
  with process.loads [OF loads.hyps] show ?case by blast
next
  case (creates stacks s start_routine arg ret s')
  with pthread_create_Ran [OF creates.hyps(3)] show ?case by metis
next
  case (begins stacks s arg tmp msg s')
  note now = process.begins [OF begins.hyps(1-4)]
  from wrapper_begin_Ran [OF begins.hyps(3)] obtain m where "sent s' = sent s @ [m]" by auto
  with begins.prems now begins.IH [OF sym] show ?case
    by (cases ms' rule: rev_cases) auto
next
  case (ends stacks s t msg s')
  note now = process.ends [OF ends.hyps(1-3)]
  from send_message_Ran [OF ends.hyps(3) [unfolded cleanup_handler_def]] ends.prems now ends.IH [OF sym] show ?case
    by (cases ms' rule: rev_cases) auto
next
  case (elsewhere stacks s w)
  then show ?case by simp
qed

text \<open>
  \<^bold>\<open>C38.\<close> No argument of a thread is read or freed twice, and none is read after it was freed: in
  every state of the process, however its threads were interleaved, the argument of a thread that
  has been made and has not begun is a live block that no other such thread has, so \<open>wrapper\<close> reads
  it without a fault. \<open>pthread_create\<close> itself has undefined behaviour exactly when \<open>malloc\<close> fails.
\<close>

theorem preload_memory_safe:
  assumes "process L s0 main stacks s" "unloaded s0"
  shows "distinct (pending s)
    \<and> (\<forall>arg \<in> set (pending s). fst (wrapper_begin L arg s) \<noteq> Faulted)
    \<and> (\<forall>f a. fst (pthread_create L f a s) = Faulted \<longleftrightarrow> fst (c_malloc L 16 (outside s)) = 0)"
proof (intro conjI ballI allI)
  note inv = process_orderly [OF assms]
  then show "distinct (pending s)" by (simp add: orderly_def)
  show "fst (wrapper_begin L arg s) \<noteq> Faulted" if "arg \<in> set (pending s)" for arg
  proof -
    from inv that obtain tmp where "blocks s arg = Some tmp" by (auto simp: orderly_def)
    then show ?thesis
      by (auto simp: wrapper_begin_def send_message_def Let_def split: prod.splits c_end.splits if_splits)
  qed
  show "fst (pthread_create L f a s) = Faulted \<longleftrightarrow> fst (c_malloc L 16 (outside s)) = 0" for f a
    using inv by (auto simp: orderly_def pthread_create_def Let_def split: prod.splits)
qed

text \<open>
  A concrete library: the world is the id of the thread that runs, every call succeeds, and \<open>malloc\<close>
  gives the block 1. In the process thread 42 loads the library and makes a thread, which begins as
  43; it makes a second, which begins as 44; then 43 ends, and a third thread is made.
\<close>

definition plain_libc :: "i32 libc" where
  "plain_libc = \<lparr>c_dlsym = (\<lambda>w. (True, w)), c_mq_open = (\<lambda>n w. (3, w)), c_gettid = (\<lambda>w. (w, w)),
     c_mq_send = (\<lambda>q bs w. (0, w)), c_malloc = (\<lambda>n w. (1, w)), c_free = (\<lambda>p w. w),
     c_pthread_create = (\<lambda>p w. (0, w))\<rparr>"

definition plain_unloaded :: "i32 preload" where
  "plain_unloaded = \<lparr>orig_pthread_create = False, pid_message_queue = -1, blocks = Map.empty, sent = [],
     pending = [], outside = 42\<rparr>"

definition plain_sent :: "byte list list" where
  "plain_sent = map message_image (constructor_messages 42 @ constructor_messages 43 @ wrapper_messages 44)"

definition plain_loaded :: "nat list \<Rightarrow> (nat \<rightharpoonup> thread_data) \<Rightarrow> i32 \<Rightarrow> byte list list \<Rightarrow> i32 preload" where
  "plain_loaded ps bl t ms = \<lparr>orig_pthread_create = True, pid_message_queue = 3, blocks = bl, sent = ms,
     pending = ps, outside = t\<rparr>"

abbreviation "add_image t \<equiv> message_image \<lparr>m_tid = t, m_flags = MESSAGE_FLAG_ADD_PROCESS\<rparr>"
abbreviation "remove_message t \<equiv> \<lparr>m_tid = t, m_flags = MESSAGE_FLAG_REMOVE_PROCESS\<rparr>"

lemma plain_steps:
  "constructor plain_libc plain_unloaded = (Ran 42, plain_loaded [] Map.empty 42 [add_image 42])"
  "pthread_create plain_libc f a (plain_loaded [] Map.empty t ms)
     = (Ran 0, plain_loaded [1] [1 \<mapsto> \<lparr>td_args = a, td_func = f\<rparr>] t ms)"
  "wrapper_begin plain_libc 1 (plain_loaded [] [1 \<mapsto> d] t ms)
     = (Ran (d, remove_message t), plain_loaded [] Map.empty t (ms @ [add_image t]))"
  "cleanup_handler plain_libc (remove_message t) (plain_loaded ps bl u ms)
     = (Ran (), plain_loaded ps bl u (ms @ [message_image (remove_message t)]))"
  by (simp_all add: constructor_def pthread_create_def wrapper_begin_def cleanup_handler_def send_message_def
      gettid_def plain_libc_def plain_loaded_def plain_unloaded_def fun_upd_idem_iff Let_def)

lemma plain_create:
  "process plain_libc s0 main stacks (plain_loaded [] Map.empty t ms) \<Longrightarrow>
     process plain_libc s0 main stacks (plain_loaded [1] [1 \<mapsto> \<lparr>td_args = a, td_func = f\<rparr>] u ms)"
  using elsewhere [OF creates [OF _ _ plain_steps(2)], of s0 main stacks t ms u a f]
  by (simp add: plain_loaded_def)

lemma plain_begin:
  "process plain_libc s0 main stacks (plain_loaded [1] [1 \<mapsto> d] u ms) \<Longrightarrow> u \<notin> insert main (dom stacks) \<Longrightarrow>
     process plain_libc s0 main (stacks(u \<mapsto> remove_message u)) (plain_loaded [] Map.empty u (ms @ [add_image u]))"
  using begins [of plain_libc s0 main stacks "plain_loaded [1] [1 \<mapsto> d] u ms" 1 d "remove_message u"]
    plain_steps(3) [of d u ms] by (simp add: plain_loaded_def)

lemma plain_process:
  "process plain_libc plain_unloaded 42 [43 \<mapsto> remove_message 43] (plain_loaded [1] [1 \<mapsto> \<lparr>td_args = 0, td_func = 0\<rparr>] 42 plain_sent)"
proof -
  have "process plain_libc plain_unloaded 42 [43 \<mapsto> remove_message 43]
      (plain_loaded [] Map.empty 43 [add_image 42, add_image 43])"
    using plain_begin [OF plain_create [OF loads [OF plain_steps(1)]], of 43] by simp
  from plain_begin [OF plain_create [OF this], of 44]
  have p: "process plain_libc plain_unloaded 42 [43 \<mapsto> remove_message 43, 44 \<mapsto> remove_message 44]
      (plain_loaded [] Map.empty 44 [add_image 42, add_image 43, add_image 44])" by simp
  have "process plain_libc plain_unloaded 42 [43 \<mapsto> remove_message 43] (plain_loaded [] Map.empty 44 plain_sent)"
    using ends [OF p _ plain_steps(4), of 44]
    by (simp add: plain_sent_def constructor_messages_def wrapper_messages_def fun_upd_idem_iff)
  from plain_create [OF this] show ?thesis .
qed

lemma plain_unloaded_simp: "unloaded plain_unloaded"
  by (simp add: unloaded_def plain_unloaded_def)

theorem preload_memory_safe_witness:
  "\<exists>stacks s. process plain_libc plain_unloaded 42 stacks s \<and> pending s = [1]
    \<and> fst (wrapper_begin plain_libc 1 s) \<noteq> Faulted \<and> fst (pthread_create plain_libc 0 0 s) \<noteq> Faulted"
  using preload_memory_safe [OF plain_process plain_unloaded_simp] plain_process
  by (auto simp: plain_loaded_def plain_libc_def intro!: exI)

section \<open>The two programs together\<close>

text \<open>
  \<^bold>\<open>C7.\<close> The monitor watches the threads that run. Put the queue between the two programs: what
  the monitored process has sent is what will be delivered. However the threads of the process were
  interleaved, and whatever else the loop of the monitor was given while the messages arrived, the
  threads that it watches in the end are exactly those that were running in the process at one
  moment of its life, the moment when it had sent what has been delivered; before anything is
  delivered it watches none. In particular, if everything sent was delivered, it watches the threads
  that run now. (The thread that ran the constructor counts as running until the process ends, of
  which nothing is sent: should it end before the others, its id stays taken and the monitor goes
  on watching it.)
\<close>

theorem watched_are_running:
  assumes "slab_laws (h_slab H)" "delivery_laws (kern (h_env H)) coming"
    and "process L s0 main stacks p" "unloaded s0" "monitored st = {}" "coming (world s) = sent p"
    and "poll_scope H srcs st s = Some (out, st', s')"
  shows "(coming (world s') = sent p \<and> monitored st' = {})
    \<or> (\<exists>stacks' p'. process L s0 main stacks' p' \<and> sent p = sent p' @ coming (world s')
         \<and> monitored st' = insert main (dom stacks'))"
proof -
  obtain ms where ms: "sent p = ms @ coming (world s')" "watch_run {} ms (monitored st')"
    using poll_scope_watches [OF assms(1,2,7)] assms(5,6) by (auto simp: watches_def)
  show ?thesis
  proof (cases "ms = []")
    case True
    with ms watch_run_unique [OF watch_nil] show ?thesis by auto
  next
    case False
    from process_prefix [OF assms(3,4) ms(1) False] obtain stacks' p'
      where p': "process L s0 main stacks' p'" "sent p' = ms" by blast
    with process_orderly [OF p'(1) assms(4)] have "watch_run {} ms (insert main (dom stacks'))"
      by (simp add: orderly_def)
    with ms p' watch_run_unique show ?thesis by blast
  qed
qed

theorem watched_are_running_witness:
  "\<exists>st' s' stacks' p'. poll_scope queue_host [PSignal \<lparr>signal_raw = 4\<rparr>, PQueue \<lparr>mq_fd = 6, mq_name = MQ_NAME\<rparr>]
        no_state (boot plain_sent) = Some (Return (), st', s')
    \<and> process plain_libc plain_unloaded 42 stacks' p' \<and> sent p' = plain_sent \<and> monitored st' = insert 42 (dom stacks')"
proof -
  let ?srcs = "[PSignal \<lparr>signal_raw = 4\<rparr>, PQueue \<lparr>mq_fd = 6, mq_name = MQ_NAME\<rparr>]"
  have "\<forall>bs \<in> set plain_sent. length bs \<le> message_size" by (auto simp: plain_sent_def msg.length_enc)
  then obtain st' s' where run: "poll_scope queue_host ?srcs no_state (boot plain_sent) = Some (Return (), st', s')"
    and w: "world s' = []" using queue_scope by metis
  have "plain_sent \<noteq> []" by (simp add: plain_sent_def constructor_messages_def)
  with watched_are_running [OF _ _ plain_process plain_unloaded_simp _ _ run, of "\<lambda>w. w"] w queue_laws(1)
  obtain stacks' p' where "process plain_libc plain_unloaded 42 stacks' p'" "sent p' = plain_sent"
      "monitored st' = insert 42 (dom stacks')"
    by (auto simp: queue_host_simps assoc_slab_laws boot_def plain_loaded_def no_state_def monitored_def)
  with run show ?thesis by blast
qed

end
