(* ===== verification/Endless.thy ===== *)
theory Endless
  imports Threadstat_Main
begin

text \<open>
  When the program goes on for ever. Its set-up, its tear-down and its handlers always end; it does
  not end exactly when the event loop does not: when a wait is interrupted for ever, or when there
  is always another round.
\<close>

section \<open>The loop\<close>

definition endless ::
    "'w kernel \<Rightarrow> ('p, 'c, 'w, 'sl) slab \<Rightarrow> 'sl poller \<Rightarrow> 'c \<Rightarrow> 'w os \<Rightarrow> bool" where
  "endless K S p ctx s \<longleftrightarrow> (\<forall>n. after_rounds K S n p ctx s \<noteq> None)
     \<or> (\<exists>n p1 ctx1 s1. after_rounds K S n p ctx s = Some (p1, ctx1, s1)
          \<and> (\<forall>m. interrupted K (poller_fd p1) (after_waits K (poller_fd p1) m s1)))"

lemma poll_once_None_iff: "poll_once K S p ctx s = None \<longleftrightarrow> wait_ready K (poller_fd p) zero_events s = None"
  by (cases "wait_ready K (poller_fd p) zero_events s")
    (auto simp: poll_once_def split: sum.splits prod.splits)

lemma after_rounds_Suc:
  "after_rounds K S (Suc n) p ctx s =
     (case after_rounds K S n p ctx s of
        None \<Rightarrow> None
      | Some (p1, ctx1, s1) \<Rightarrow>
          (case poll_once K S p1 ctx1 s1 of
             Some (Return (Inr Continue), p', ctx', s') \<Rightarrow> Some (p', ctx', s')
           | _ \<Rightarrow> None))"
proof (induction n arbitrary: p ctx s)
  case 0
  show ?case by (auto split: option.splits outcome.splits sum.splits poll_action.splits)
next
  case (Suc n)
  show ?case
  proof (cases "\<exists>p1 ctx1 s1. poll_once K S p ctx s = Some (Return (Inr Continue), p1, ctx1, s1)")
    case True
    then obtain p1 ctx1 s1 where "poll_once K S p ctx s = Some (Return (Inr Continue), p1, ctx1, s1)" by blast
    then have "after_rounds K S (Suc m) p ctx s = after_rounds K S m p1 ctx1 s1" for m by simp
    with Suc [of p1 ctx1 s1] show ?thesis by (simp only:)
  next
    case False
    then have "after_rounds K S (Suc m) p ctx s = None" for m
      by (auto split: option.splits outcome.splits sum.splits poll_action.splits)
    then show ?thesis by (simp only: option.case)
  qed
qed

lemma run_None_iff: "run K S p ctx s = None \<longleftrightarrow> endless K S p ctx s"
proof
  assume none: "run K S p ctx s = None"
  show "endless K S p ctx s"
  proof (rule ccontr)
    assume "\<not> endless K S p ctx s"
    then have ends: "\<exists>n. after_rounds K S n p ctx s = None" unfolding endless_def by metis
    have quiet: "\<And>n p1 ctx1 s1. after_rounds K S n p ctx s = Some (p1, ctx1, s1) \<Longrightarrow>
        poll_once K S p1 ctx1 s1 \<noteq> None"
      using \<open>\<not> endless K S p ctx s\<close> unfolding endless_def poll_once_None_iff wait_ready_None_iff by blast
    from ends obtain n where n: "after_rounds K S n p ctx s = None" "\<forall>i<n. after_rounds K S i p ctx s \<noteq> None"
      using exists_least_iff [of "\<lambda>n. after_rounds K S n p ctx s = None"] by blast
    then obtain m where m: "n = Suc m" by (cases n) auto
    with n(2) obtain p1 ctx1 s1 where at: "after_rounds K S m p ctx s = Some (p1, ctx1, s1)" by fastforce
    obtain o1 p2 ctx2 s2 where once: "poll_once K S p1 ctx1 s1 = Some (o1, p2, ctx2, s2)"
      using quiet [OF at] by auto
    have "o1 \<noteq> Return (Inr Continue)" using n(1) m at once by (auto simp: after_rounds_Suc simp del: after_rounds.simps)
    with once have "run K S p1 ctx1 s1 \<noteq> None" by (simp add: run_unfold)
    with run_after_rounds [OF at] none show False by simp
  qed
next
  assume "endless K S p ctx s"
  then consider (rounds) "\<forall>n. after_rounds K S n p ctx s \<noteq> None"
    | (waits) n p1 ctx1 s1 where "after_rounds K S n p ctx s = Some (p1, ctx1, s1)" "poll_once K S p1 ctx1 s1 = None"
    unfolding endless_def poll_once_None_iff wait_ready_None_iff by blast
  then show "run K S p ctx s = None"
  proof cases
    case waits
    then show ?thesis using run_after_rounds [OF waits(1)] by (simp add: run_unfold)
  next
    case rounds
    show ?thesis
    proof (rule ccontr)
      assume "run K S p ctx s \<noteq> None"
      then obtain out p' ctx' s' where "run K S p ctx s = Some (out, p', ctx', s')" by force
      then have "\<exists>n. after_rounds K S n p ctx s = None"
      proof (induction rule: run_induct)
        case (finished p ctx s o1)
        then have "after_rounds K S 1 p ctx s = None"
          by (auto split: outcome.splits sum.splits poll_action.splits)
        then show ?case by blast
      next
        case (again p ctx s p1 ctx1 s1)
        then obtain n where "after_rounds K S n p1 ctx1 s1 = None" by blast
        with again.hyps(1) have "after_rounds K S (Suc n) p ctx s = None" by simp
        then show ?case by blast
      qed
      with rounds show False by blast
    qed
  qed
qed

section \<open>The program\<close>

text \<open>The poller, the state and the world with which the loop is entered, if the set-up succeeds.\<close>

definition enters_loop ::
    "('n, 'e, 'w, 'sl) host \<Rightarrow> args \<Rightarrow> 'w os \<Rightarrow> 'sl poller \<Rightarrow> 'n state \<Rightarrow> 'w os \<Rightarrow> bool" where
  "enters_loop H a s p st s' \<longleftrightarrow> (let K = kern (h_env H) in
     \<exists>mq s1 cfgs s2 s3 s4 sfd s5 timer s6 p0 s7.
       mq_new K message_size MQ_NAME (println ''Parsed Args'' s) = (Inr mq, s1)
     \<and> parse_event_groups K (h_intern H) (join_with CHR '','' (events a)) (println ''Opened Message Queue'' s1)
         = (Return (Inr cfgs), s2)
     \<and> state_new K cfgs (output_folder a) s2 = (Return st, s3)
     \<and> Signals.block K [SIGINT] s3 = (Inr (), s4)
     \<and> signal_fd_new K [SIGINT] s4 = (Inr sfd, s5)
     \<and> timer_setup K (h_show_duration H) (frequency a) s5 = (Return timer, s6)
     \<and> poller_new K (h_slab H) (println ''Setup Signal Handling'' s6) = (Return p0, s7)
     \<and> register_all H ([PSignal sfd, PQueue mq] @ (case timer of None \<Rightarrow> [] | Some t \<Rightarrow> [PTimer t])) p0 s7
         = (Return (), p, s'))"

lemma poll_scope_None:
  "poll_scope H srcs st s = None \<longleftrightarrow> (\<exists>p0 s1 p s2. poller_new (kern (h_env H)) (h_slab H) s = (Return p0, s1)
     \<and> register_all H srcs p0 s1 = (Return (), p, s2) \<and> run (kern (h_env H)) (h_slab H) p st s2 = None)"
  by (auto simp: poll_scope_def Let_def split: prod.splits outcome.splits option.splits)

lemma timer_scope_None:
  "timer_scope H a sfd mq st s = None \<longleftrightarrow>
     (\<exists>timer s1. timer_setup (kern (h_env H)) (h_show_duration H) (frequency a) s = (Return timer, s1)
       \<and> poll_scope H ([PSignal sfd, PQueue mq] @ (case timer of None \<Rightarrow> [] | Some t \<Rightarrow> [PTimer t])) st
           (println ''Setup Signal Handling'' s1) = None)"
  by (auto simp: timer_scope_def Let_def split: prod.splits outcome.splits)

lemma signal_scope_None:
  "signal_scope H a mq st s = None \<longleftrightarrow> (\<exists>s1 sfd s2. Signals.block (kern (h_env H)) [SIGINT] s = (Inr (), s1)
     \<and> signal_fd_new (kern (h_env H)) [SIGINT] s1 = (Inr sfd, s2) \<and> timer_scope H a sfd mq st s2 = None)"
  by (auto simp: signal_scope_def Let_def split: prod.splits sum.splits)

lemma state_scope_None:
  "state_scope H a mq s = None \<longleftrightarrow> (\<exists>cfgs s1 st s2.
     parse_event_groups (kern (h_env H)) (h_intern H) (join_with CHR '','' (events a)) s = (Return (Inr cfgs), s1)
     \<and> state_new (kern (h_env H)) cfgs (output_folder a) s1 = (Return st, s2) \<and> signal_scope H a mq st s2 = None)"
  by (auto simp: state_scope_def Let_def split: prod.splits outcome.splits sum.splits)

lemma main_body_None:
  "main_body H a s = None \<longleftrightarrow> (\<exists>mq s1.
     mq_new (kern (h_env H)) message_size MQ_NAME (println ''Parsed Args'' s) = (Inr mq, s1)
     \<and> state_scope H a mq (println ''Opened Message Queue'' s1) = None)"
  by (auto simp: main_body_def Let_def split: prod.splits sum.splits)

text \<open>
  \<^bold>\<open>C9.\<close> When the program ends. It goes on for ever exactly when its set-up succeeds and brings it
  into an event loop that never ends: one in which, after some number of rounds, every wait is
  interrupted, or in which every round is followed by another. Everything else, the handlers, the
  parser and the tear-down included, ends in every case.
\<close>

theorem main_endless_iff:
  "main_body H a s = None \<longleftrightarrow>
     (\<exists>p st s'. enters_loop H a s p st s' \<and> endless (kern (h_env H)) (h_slab H) p st s')"
  unfolding main_body_None state_scope_None signal_scope_None timer_scope_None poll_scope_None run_None_iff
    enters_loop_def Let_def by blast

end
