(* ===== verification/Setup_Frame.thy ===== *)
theory Setup_Frame
  imports World_Frame
begin

text \<open>
  The set-up and the tear-down of the program leave alone what each of their calls leaves alone:
  the locale \<open>io_frame\<close> of the handlers, extended by the calls that \<open>main\<close> makes around the loop.
\<close>

locale setup_frame = io_frame +
  assumes kept_umask: "sys_umask (kern E) mk s = (old, s') \<Longrightarrow> kept s s'"
    and kept_mq_open: "sys_mq_open (kern E) path oflags mode qa s = (r, s') \<Longrightarrow> kept s s'"
    and kept_read_file: "sys_read_file (kern E) path s = (txt, s') \<Longrightarrow> kept s s'"
    and kept_mq_unlink: "kept s (sys_mq_unlink (kern E) path s)"
    and kept_pfm_initialize: "sys_pfm_initialize (kern E) s = (r, s') \<Longrightarrow> kept s s'"
    and kept_pfm_encode: "sys_pfm_encode (kern E) evt plm attr s = (r, attr', s') \<Longrightarrow> kept s s'"
    and kept_pfm_cell: "kept s (s\<lparr>pfm_cell := cell\<rparr>)"
    and kept_file_open: "sys_file_open (kern E) path s = (r, s') \<Longrightarrow> kept s s'"
    and kept_sigemptyset: "sys_sigemptyset (kern E) s = (r, sset, s') \<Longrightarrow> kept s s'"
    and kept_sigaddset: "sys_sigaddset (kern E) sset sig s = (r, sset', s') \<Longrightarrow> kept s s'"
    and kept_sigprocmask: "sys_sigprocmask (kern E) how sset s = (r, s') \<Longrightarrow> kept s s'"
    and kept_signalfd: "sys_signalfd (kern E) fd sset fl s = (r, s') \<Longrightarrow> kept s s'"
    and kept_timerfd_create: "sys_timerfd_create (kern E) clk fl s = (r, s') \<Longrightarrow> kept s s'"
    and kept_timerfd_settime: "sys_timerfd_settime (kern E) fd fl spec s = (r, s') \<Longrightarrow> kept s s'"
    and kept_epoll_create: "sys_epoll_create1 (kern E) fl s = (r, s') \<Longrightarrow> kept s s'"
    and kept_epoll_ctl: "sys_epoll_ctl (kern E) epfd op fd ev s = (r, s') \<Longrightarrow> kept s s'"
    and kept_println: "kept s (println msg s)"
begin

section \<open>The queue and the events\<close>

lemma kept_mq_open_queue: "mq_open_queue (kern E) n path m s = (r, s') \<Longrightarrow> kept s s'"
  by (auto simp: mq_open_queue_def Let_def split: prod.splits dest!: kept_umask kept_mq_open intro: kept_trans)

lemma kept_limit: "kernel_maxmsg_limit (kern E) s = (l, s') \<Longrightarrow> kept s s'"
  by (auto simp: kernel_maxmsg_limit_def split: prod.splits dest: kept_read_file)

lemma kept_mq_new: "mq_new (kern E) n path s = (r, s') \<Longrightarrow> kept s s'"
  by (auto simp: mq_new_def split: prod.splits sum.splits if_splits dest!: kept_mq_open_queue kept_limit
      intro: kept_trans)

lemma kept_mq_drop: "kept s (mq_drop (kern E) q s)"
  unfolding mq_drop_def by (rule kept_trans [OF kept_mq_unlink kept_close])

lemma kept_from_pfm_string: "from_pfm_string (kern E) e n s = (r, s') \<Longrightarrow> kept s s'"
proof -
  have force: "kept t t'" if f: "pfm_force (kern E) t = (r, t')" for t r t'
  proof (cases "pfm_cell t")
    case None
    obtain ret t1 where i: "sys_pfm_initialize (kern E) t = (ret, t1)" by force
    with f None kept_trans [OF kept_pfm_initialize [OF i] kept_pfm_cell] show ?thesis
      by (auto simp: pfm_force_def Let_def)
  qed (use f in \<open>simp add: pfm_force_def\<close>)
  then show "from_pfm_string (kern E) e n s = (r, s') \<Longrightarrow> kept s s'"
    by (auto simp: from_pfm_string_def get_perf_attr_array_def split: prod.splits sum.splits if_splits
        dest!: force kept_pfm_encode intro: kept_trans)
qed

lemma kept_collect_group: "collect_group (kern E) I es s = (r, s') \<Longrightarrow> kept s s'"
proof (induction es arbitrary: s r s')
  case (Cons e es)
  show ?case
  proof (cases "in_try_new I e")
    case (Inr n)
    obtain q s1 where one: "from_pfm_string (kern E) (in_cstr I n) n s = (q, s1)" by force
    obtain q2 s2 where rest: "collect_group (kern E) I es s1 = (q2, s2)" by force
    note k1 = kept_from_pfm_string [OF one] and k2 = Cons.IH [OF rest]
    have "s' = s1 \<or> s' = s2" using Cons.prems Inr one rest by (auto split: sum.splits)
    with k1 kept_trans [OF k1 k2] show ?thesis by blast
  qed (use Cons.prems in simp)
qed simp

lemma kept_parse:
  assumes "parse_event_groups (kern E) I str s = (r, s')"
  shows "kept s s'"
proof -
  have "kept s (snd (parse_loop (kern E) I str 0 [] s)) \<and> True"
    by (rule parse_loop_invariant [where P = "kept s" and Q = "\<lambda>_. True"])
      (auto simp: parse_bracket_def parse_bare_def split: prod.splits sum.splits option.splits if_splits outcome.splits
        dest!: kept_collect_group kept_from_pfm_string intro: kept_trans)
  with assms show ?thesis by (simp add: parse_event_groups_def)
qed

section \<open>The files\<close>

lemma kept_open_file: "open_file (kern E) path s = (r, s') \<Longrightarrow> kept s s'"
  by (auto simp: open_file_def split: if_splits prod.splits dest: kept_file_open)

lemma kept_drop_all: "kept s (fold (\<lambda>t s. drop_groups (kern E) (f t) s) ts s)"
proof (induction ts arbitrary: s)
  case (Cons t ts)
  from kept_trans [OF kept_drop_groups Cons.IH] show ?case by simp
qed simp

section \<open>The signals, the timer and the poller\<close>

lemma kept_add_signals: "add_signals (kern E) sset sigs s = (r, s') \<Longrightarrow> kept s s'"
proof (induction sigs arbitrary: sset s)
  case (Cons i sigs)
  obtain q m s1 where one: "sys_sigaddset (kern E) sset (signo i) s = (q, m, s1)" by (metis prod_cases3)
  note k = kept_sigaddset [OF one]
  from Cons one k show ?case by (auto split: if_splits intro: kept_trans [OF k])
qed simp

lemma kept_get_mask: "get_mask (kern E) sigs s = (r, s') \<Longrightarrow> kept s s'"
  by (auto simp: get_mask_def split: prod.splits if_splits dest!: kept_sigemptyset kept_add_signals intro: kept_trans)

lemma kept_block: "Signals.block (kern E) sigs s = (r, s') \<Longrightarrow> kept s s'"
  by (auto simp: Signals.block_def split: prod.splits sum.splits dest!: kept_get_mask kept_sigprocmask intro: kept_trans)

lemma kept_signal_fd_new: "signal_fd_new (kern E) sigs s = (r, s') \<Longrightarrow> kept s s'"
  by (auto simp: signal_fd_new_def split: prod.splits sum.splits dest!: kept_get_mask kept_signalfd intro: kept_trans)

lemma kept_arm_periodic: "arm_periodic (kern E) d t s = (r, s') \<Longrightarrow> kept s s'"
  by (auto simp: arm_periodic_def settime_def split: if_splits sum.splits prod.splits dest: kept_timerfd_settime)

lemma kept_timer_setup:
  assumes "timer_setup (kern E) show_dur f s = (r, s')"
  shows "kept s s'"
proof -
  obtain q s1 where new: "timer_new (kern E) Monotonic s = (q, s1)" by force
  then have k1: "kept s s1" by (auto simp: timer_new_def split: prod.splits dest: kept_timerfd_create)
  show ?thesis
  proof (cases "f = 0 \<or> (\<exists>e. q = Inl e)")
    case True
    with assms new k1 show ?thesis by (auto simp: timer_setup_def split: if_splits)
  next
    case False
    then obtain t where t: "f \<noteq> 0" "q = Inr t" by (cases q) auto
    obtain r2 s2 where arm: "arm_periodic (kern E) (period_of f) t s1 = (r2, s2)" by force
    note k2 = kept_trans [OF k1 kept_arm_periodic [OF arm]]
    from assms new t arm kept_trans [OF k2 kept_close] kept_trans [OF k2 kept_println] show ?thesis
      by (auto simp: timer_setup_def split: sum.splits)
  qed
qed

lemma kept_timer_drop: "kept s (timer_drop (kern E) t s)"
  by (auto simp: timer_drop_def kept_close split: option.splits)

lemma kept_poller_new: "poller_new (kern E) S s = (r, s') \<Longrightarrow> kept s s'"
  by (auto simp: poller_new_def epoll_create_def split: prod.splits sum.splits if_splits dest: kept_epoll_create)

lemma kept_register_all: "h_env H = E \<Longrightarrow> register_all H srcs p s = (out, p', s') \<Longrightarrow> kept s s'"
proof (induction srcs arbitrary: p s)
  case (Cons src srcs)
  obtain o1 p1 s1 where reg: "register_mut (kern E) (h_slab H) pollable_fd src (source_handler E) p s = (o1, p1, s1)"
    by (metis prod_cases3)
  then have k: "kept s s1" by (auto simp: register_mut_def Let_def split: prod.splits if_splits dest: kept_epoll_ctl)
  show ?case
  proof (cases o1)
    case (Return u)
    with Cons.prems reg have "register_all H srcs p1 s1 = (out, p', s')" by simp
    from kept_trans [OF k Cons.IH [OF Cons.prems(1) this]] show ?thesis .
  qed (use Cons.prems reg k in auto)
qed simp

end

section \<open>With the writes\<close>

locale session_frame = file_frame E kept + setup_frame E kept
  for E :: "('n, 'w) env" and kept :: "'w os \<Rightarrow> 'w os \<Rightarrow> bool"
begin

lemma kept_csv_open: "csv_open (kern E) folder s = (r, s') \<Longrightarrow> kept s s'"
  unfolding csv_open_def Let_def
  by (auto split: prod.splits sum.splits simp del: write_pieces.simps dest!: kept_open_file kept_pieces
      intro!: kept_drop_files intro: kept_trans) (meson kept_trans)+

lemma kept_state_new: "state_new (kern E) cfgs folder s = (r, s') \<Longrightarrow> kept s s'"
  by (auto simp: state_new_def split: prod.splits sum.splits dest: kept_csv_open)

end

text \<open>All the calls of the program but the allocator's and the receipt of a message.\<close>

locale program_frame = os_frame E kept + session_frame E kept
  for E :: "('n, 'w) env" and kept :: "'w os \<Rightarrow> 'w os \<Rightarrow> bool"

section \<open>An invariant of the monitor through the scopes of \<open>main\<close>\<close>

text \<open>
  An invariant of the loop is carried through the scopes of \<open>main\<close> inside the one that owns the
  state. The scopes have three phases: \<open>I0\<close> holds until the loop begins and \<open>F\<close> from the last flush
  on, and neither depends on what the set-up and the tear-down do; \<open>I\<close> is kept by every handler.
  As in \<open>returning_context\<close>, \<open>J\<close> holds after a scope that does not return.
\<close>

locale staged_run = returning_context "kern E" I J "monitor_source E" + setup_frame E kept
  for E :: "('n, 'w) env" and I J :: "'n state \<Rightarrow> 'w os \<Rightarrow> bool" and kept :: "'w os \<Rightarrow> 'w os \<Rightarrow> bool" +
  fixes I0 F :: "'n state \<Rightarrow> 'w os \<Rightarrow> bool"
  assumes before_kept: "I0 st s \<Longrightarrow> kept s s' \<Longrightarrow> I0 st s'"
    and begins: "I0 st s \<Longrightarrow> I st s"
    and println_step: "I st s \<Longrightarrow> I st (println m s)"
    and last_flush: "I st s \<Longrightarrow> flush_all E st s = (out, st', s') \<Longrightarrow> J st' s' \<and> (returns out \<longrightarrow> F st' s')"
    and after_kept: "F st s \<Longrightarrow> kept s s' \<Longrightarrow> F st s'"
    and halted_kept: "J st s \<Longrightarrow> kept s s' \<Longrightarrow> J st s'"
begin

definition closed :: "unit outcome \<Rightarrow> 'n state \<Rightarrow> 'w os \<Rightarrow> bool" where
  "closed out st s \<longleftrightarrow> J st s \<and> (returns out \<longrightarrow> F st s)"

lemma closed_kept: "closed out st s \<Longrightarrow> kept s s' \<Longrightarrow> closed out st s'"
  using after_kept halted_kept by (auto simp: closed_def)

lemma closed_early: "I0 st s \<Longrightarrow> kept s s' \<Longrightarrow> \<not> returns out \<Longrightarrow> closed out st s'"
  using before_kept begins weaken by (auto simp: closed_def)

lemma after_loop_closed:
  assumes "ended out st s" "after_loop E out st s = (out', st', s')"
  shows "closed out' st' s'"
proof (cases "loop_result out")
  case (Return u)
  then have "I st s" using assms(1) by (auto simp: loop_result_def split: outcome.splits sum.splits)
  from last_flush [OF println_step [OF this]] assms(2) Return show ?thesis
    by (simp add: after_loop_def closed_def)
next
  case (Panic m)
  with assms have "out' = Panic m" "J st' s'" by (auto simp: after_loop_def ended_def)
  then show ?thesis by (simp add: closed_def)
next
  case Undefined
  with assms have "out' = Undefined" "J st' s'" by (auto simp: after_loop_def ended_def)
  then show ?thesis by (simp add: closed_def)
qed

lemma poll_scope_closed:
  assumes H: "h_env H = E" "slab_laws (h_slab H)" and st: "I0 st s"
    and sc: "poll_scope H srcs st s = Some (out, st', s')"
  shows "closed out st' s'"
proof -
  let ?S = "h_slab H"
  obtain o0 s1 where new: "poller_new (kern E) ?S s = (o0, s1)" by force
  note k1 = kept_poller_new [OF new]
  show ?thesis
  proof (cases o0)
    case (Return p0)
    then have g0: "all_good ?S p0"
      using new by (auto simp: poller_new_def all_good_def slab_new [OF H(2)] split: prod.splits sum.splits)
    obtain o1 p s2 where reg: "register_all H srcs p0 s1 = (o1, p, s2)" by (metis prod_cases3)
    have g: "all_good ?S p"
      using register_all_keeps [OF H(2) reg] g0 by (simp add: H(1) all_good_def held.all_good_def)
    note k2 = kept_trans [OF k1 kept_register_all [OF H(1) reg]]
    show ?thesis
    proof (cases o1)
      case (Return u)
      obtain o2 p' st1 s3 where run: "run (kern E) ?S p st s2 = Some (o2, p', st1, s3)"
        using sc new \<open>o0 = Return p0\<close> reg Return H(1) by (auto simp: poll_scope_def Let_def split: option.splits)
      have "ended o2 st1 s3" using run_step [OF H(2) run g begins [OF before_kept [OF st k2]]] by simp
      moreover obtain o3 st2 s4 where al: "after_loop E o2 st1 s3 = (o3, st2, s4)" by (metis prod_cases3)
      ultimately have "closed o3 st2 (sys_close (kern E) (poller_fd p') s4)"
        using after_loop_closed closed_kept kept_close by blast
      with sc new \<open>o0 = Return p0\<close> reg Return run al H(1) show ?thesis
        by (auto simp: poll_scope_def Let_def poller_drop_def)
    qed (use sc new \<open>o0 = Return p0\<close> reg H(1) closed_early [OF st kept_trans [OF k2 kept_close]] in
        \<open>auto simp: poll_scope_def Let_def poller_drop_def\<close>)
  qed (use sc new H(1) closed_early [OF st k1] in \<open>auto simp: poll_scope_def Let_def\<close>)
qed

lemma timer_scope_closed:
  assumes H: "h_env H = E" "slab_laws (h_slab H)" and st: "I0 st s"
    and sc: "timer_scope H a sfd mq st s = Some (out, st', s')"
  shows "closed out st' s'"
proof -
  obtain r s1 where set: "timer_setup (kern E) (h_show_duration H) (frequency a) s = (r, s1)" by force
  note k = kept_timer_setup [OF set]
  show ?thesis
  proof (cases r)
    case (Return timer)
    from poll_scope_closed [OF H before_kept [OF before_kept [OF st k] kept_println]]
      closed_kept [OF _ kept_timer_drop]
    show ?thesis using sc set Return H(1) by (fastforce simp: timer_scope_def Let_def)
  qed (use sc set H(1) closed_early [OF st k] in \<open>auto simp: timer_scope_def Let_def\<close>)
qed

lemma signal_scope_closed:
  assumes H: "h_env H = E" "slab_laws (h_slab H)" and st: "I0 st s"
    and sc: "signal_scope H a mq st s = Some (out, st', s')"
  shows "closed out st' s'"
proof -
  obtain r1 s1 where bl: "Signals.block (kern E) [SIGINT] s = (r1, s1)" by force
  note k1 = kept_block [OF bl]
  obtain r2 s2 where sfd: "signal_fd_new (kern E) [SIGINT] s1 = (r2, s2)" by force
  note k2 = kept_trans [OF k1 kept_signal_fd_new [OF sfd]]
  note inner = closed_kept [OF timer_scope_closed [OF H before_kept [OF st k2]] kept_close]
  show ?thesis
  proof (cases "\<exists>e. r1 = Inl e \<or> r2 = Inl e")
    case True
    with sc bl sfd H(1) closed_early [OF st k1] closed_early [OF st k2] show ?thesis
      by (auto simp: signal_scope_def Let_def split: sum.splits)
  next
    case False
    then obtain u sg where "r1 = Inr u" "r2 = Inr sg" by (metis sum.exhaust)
    with sc bl sfd H(1) inner show ?thesis by (auto simp: signal_scope_def Let_def)
  qed
qed

end

text \<open>An invariant that no phase of the set-up and the tear-down touches: one for all three.\<close>

locale monitored_run = returning_context "kern E" I J "monitor_source E" + setup_frame E kept
  for E :: "('n, 'w) env" and I J :: "'n state \<Rightarrow> 'w os \<Rightarrow> bool" and kept :: "'w os \<Rightarrow> 'w os \<Rightarrow> bool" +
  assumes I_kept: "I st s \<Longrightarrow> kept s s' \<Longrightarrow> I st s'"
    and J_kept: "J st s \<Longrightarrow> kept s s' \<Longrightarrow> J st s'"
    and flush_all_outcome: "I st s \<Longrightarrow> flush_all E st s = (out, st', s') \<Longrightarrow>
      J st' s' \<and> (returns out \<longrightarrow> I st' s')"

sublocale monitored_run \<subseteq> staged: staged_run E I J kept I I
  by unfold_locales (auto intro: I_kept J_kept kept_println dest: flush_all_outcome)

context monitored_run begin

lemma signal_scope_ended:
  "h_env H = E \<Longrightarrow> slab_laws (h_slab H) \<Longrightarrow> I st s \<Longrightarrow> signal_scope H a mq st s = Some (out, st', s') \<Longrightarrow>
     ended out st' s'"
  using staged.signal_scope_closed by (simp add: staged.closed_def ended_def)

end

end
