(* ===== verification/Recording.thy ===== *)
theory Recording
  imports Setup_Frame Panics
begin

text \<open>
  The files record what the kernel delivered. The calls of a run are read off its trace, without
  the program: the samples are the times and reads of the counters, the descriptions the
  identifiers the kernel gave for the counters of the thread opened last. After a run the three
  files hold the rows of exactly these samples and descriptions, in the order of the calls.
\<close>

section \<open>What a trace says was measured\<close>

record tape =
  tp_time :: "nat option"
  tp_attempts :: "attempt list"
  tp_tid :: int
  tp_ids :: "(u64 \<times> int) list"

text \<open>A whole sample of as many entries as its length allows.\<close>

definition sample_view :: "byte list \<Rightarrow> group_info \<times> event_info list" where
  "sample_view bs = viewed ((length bs - header_size) div entry_size) bs"

text \<open>
  A look at the clock begins an attempt; the next read of a descriptor, which is that of the
  group's leader, ends it. A read that is not preceded by a look at the clock is of another
  descriptor: the signalfd or the timer.
\<close>

fun hear :: "call \<Rightarrow> tape \<Rightarrow> tape" where
  "hear (CNow t) p = p\<lparr>tp_time := Some (nat t)\<rparr>"
| "hear (CRead fd n ret bs) p =
     (case tp_time p of
        None \<Rightarrow> p
      | Some t \<Rightarrow> p\<lparr>tp_time := None,
          tp_attempts := tp_attempts p @ [if ret < 0 then None else Some (t, sample_view bs)]\<rparr>)"
| "hear (CPerfOpen attr pid cpu grp flags ret) p = p\<lparr>tp_tid := pid\<rparr>"
| "hear (CIoctlId fd ret v) p = (if ret = 0 then p\<lparr>tp_ids := tp_ids p @ [(v, tp_tid p)]\<rparr> else p)"
| "hear c p = p"

definition blank :: tape where
  "blank = \<lparr>tp_time = None, tp_attempts = [], tp_tid = 0, tp_ids = []\<rparr>"

definition tape_of :: "call list \<Rightarrow> tape" where
  "tape_of cs = fold hear cs blank"

lemma tape_of_append [simp]: "tape_of (cs @ ds) = fold hear ds (tape_of cs)"
  by (simp add: tape_of_def)

text \<open>Calls that are not part of a measurement leave the tape alone between two attempts.\<close>

definition hushed :: "'w os \<Rightarrow> 'w os \<Rightarrow> bool" where
  "hushed s s' \<longleftrightarrow> (tp_time (tape_of (trace s)) = None \<longrightarrow> tape_of (trace s') = tape_of (trace s))"

text \<open>And those that are not writes leave the texts of the files alone as well.\<close>

definition steady :: "'w os \<Rightarrow> 'w os \<Rightarrow> bool" where
  "steady s s' \<longleftrightarrow> hushed s s' \<and> (\<forall>fd. file_text fd (trace s') = file_text fd (trace s))"

interpretation hush: file_frame E hushed
  for E :: "('n, 'w) env"
  by unfold_locales (auto simp: hushed_def os_simps split: prod.splits option.splits)

interpretation steady: setup_frame E steady
  for E :: "('n, 'w) env"
  by unfold_locales (auto simp: steady_def hushed_def os_simps split: prod.splits option.splits)

section \<open>One sample\<close>

lemma ensure_sized_tape:
  "ensure_sized K cnt rd s = (out, rd', s') \<Longrightarrow> tape_of (trace s') = tape_of (trace s)"
  by (auto simp: ensure_sized_def Let_def split: option.splits if_splits prod.splits
      dest!: sys_alloc_trace sys_realloc_trace)

lemma read_group_tape:
  assumes laws: "allocator_laws K" "whole_reads K" "zerocopy_laws Z"
    and rd: "reader_aligned rd" and g: "healthy_group g" and time: "tp_time (tape_of (trace s)) = Some t"
    and read: "read_group K Z g rd s = (out, rd', s')"
  shows "\<exists>v. out = Return v \<and> reader_aligned rd' \<and> tape_of (trace s') = (tape_of (trace s))
    \<lparr>tp_time := None, tp_attempts := tp_attempts (tape_of (trace s)) @ [case v of Inl e \<Rightarrow> None | Inr w \<Rightarrow> Some (t, w)]\<rparr>"
proof -
  let ?n = "header_size + group_len g * entry_size"
  have cnt: "countable_group (group_len g)" and ne: "elems (pg_fds g) \<noteq> []"
    using g by (auto simp: healthy_group_def)
  obtain b s1 where sized: "ensure_sized K (group_len g) rd s = (Return (), Some b, s1)" "8 dvd blk_addr b"
      "?n \<le> length (blk_mem b)"
    using ensure_sized_buffer [OF laws(1) rd cnt, of s] by auto
  let ?buf = "take ?n (blk_mem b)"
  have len: "length ?buf = ?n" using sized(3) by simp
  obtain ret bs s2 where call: "sys_read K (ps_fd (hd (elems (pg_fds g)))) (length ?buf) s1 = (ret, bs, s2)"
    by (metis prod_cases3)
  note tape = ensure_sized_tape [OF sized(1)] sys_read_trace [OF call]
  have al: "returns out \<and> reader_aligned rd'" by (rule read_group_returns [OF laws(1,2) rd g read])
  show ?thesis
  proof (cases "ret < 0")
    case True
    with read sized call len have "\<exists>e. out = Return (Inl e)" "s' = s2"
      by (auto simp: read_group_def necessary_buffer_size_exact [OF cnt] Let_def group_read_def leader_exists [OF ne])
    with al tape time True show ?thesis by auto
  next
    case False
    with call laws(2) have whole: "length bs = length ?buf"
      by (fastforce simp: sys_read_def whole_reads_def split: prod.splits)
    then have init: "assume_init (fill ?buf (map Some bs)) = Return bs"
      by (subst fill_exact) simp_all
    from group_read_result [OF laws(3) sized(2) ne len call _ init] False
    have "out = Return (Inr (viewed (group_len g) bs))" "s' = s2"
      using read sized by (auto simp: read_group_def necessary_buffer_size_exact [OF cnt] Let_def viewed_def decoded_def)
    moreover have "sample_view bs = viewed (group_len g) bs"
      using whole len by (simp add: sample_view_def entry_size_def)
    ultimately show ?thesis using al tape time False by auto
  qed
qed

section \<open>The samples of the groups\<close>

definition sampling_laws :: "('n, 'w) env \<Rightarrow> bool" where
  "sampling_laws E \<longleftrightarrow> allocator_laws (kern E) \<and> whole_reads (kern E) \<and> zerocopy_laws (casts E)
     \<and> writes_succeed (kern E)"

abbreviation tape :: "'w os \<Rightarrow> tape" where
  "tape s \<equiv> tape_of (trace s)"

definition taken :: "attempt list \<Rightarrow> 'w os \<Rightarrow> 'w os \<Rightarrow> bool" where
  "taken as s s' \<longleftrightarrow> tape s' = (tape s)\<lparr>tp_attempts := tp_attempts (tape s) @ as\<rparr>"

lemma flush_groups_taken:
  assumes laws: "sampling_laws E"
  shows "flush_groups E gs t rd c rid s = (out, rd', c', rid', s') \<Longrightarrow> reader_aligned rd \<Longrightarrow>
    \<forall>g \<in> set gs. healthy_group g \<Longrightarrow> distinct (csv_fds c) \<Longrightarrow> tp_time (tape s) = None \<Longrightarrow>
    \<exists>as. logged c s (sample_rows rid as) c' s' \<and> rid' = rid + of_nat (length as) \<and> taken as s s'"
proof (induction gs arbitrary: rd c rid s)
  case Nil
  then show ?case by (intro exI [of _ "[]"]) (simp add: logged_def taken_def)
next
  case (Cons g gs)
  have laws': "allocator_laws (kern E)" "whole_reads (kern E)" "zerocopy_laws (casts E)" "writes_succeed (kern E)"
    using laws by (auto simp: sampling_laws_def)
  obtain ts s1 where now: "timestamp E s = (ts, s1)" by force
  then have t1: "tape s1 = (tape s)\<lparr>tp_time := Some ts\<rparr>"
    by (auto simp: timestamp_def split: prod.splits dest!: sys_now_trace)
  obtain r rd1 s2 where read: "read_group (kern E) (casts E) g rd s1 = (r, rd1, s2)" by (metis prod_cases3)
  have "healthy_group g" and rest: "\<forall>g \<in> set gs. healthy_group g" using Cons.prems(3) by auto
  from read_group_tape [OF laws'(1-3) Cons.prems(2) this(1) _ read, of ts] t1 obtain v where v:
      "r = Return v" "reader_aligned rd1"
      "taken [case v of Inl e \<Rightarrow> None | Inr w \<Rightarrow> Some (ts, w)] s s2"
    using Cons.prems(5) by (auto simp: taken_def)
  have in2: "inert s s2" using inert_trans inert_timestamp [OF now] inert_read_group [OF read] by blast
  have t2: "tp_time (tape s2) = None" using v(3) Cons.prems(5) by (simp add: taken_def)
  have "\<exists>a c1 s3. logged c s (attempt_rows rid a) c1 s3 \<and> taken [a] s s3 \<and> tp_time (tape s3) = None
      \<and> flush_groups E gs t rd1 c1 (rid + 1) s3 = (out, rd', c', rid', s')"
  proof (cases v)
    case (Inl e)
    let ?s3 = "eprintln (GroupReadError t e) s2"
    have "inert s ?s3" using inert_trans [OF in2 inert_eprintln] .
    moreover have "tape ?s3 = tape s2" using t2 hush.kept_eprintln by (simp add: hushed_def)
    ultimately show ?thesis using Cons.prems(1) now read v Inl t2
      by (intro exI [of _ None] exI [of _ c] exI [of _ ?s3]) (auto simp: attempt_rows_def taken_def inert_logged)
  next
    case (Inr w)
    obtain info es where w: "w = (info, es)" by force
    obtain c1 s3 where wr: "write_sample E rid ts info es c s2 = (c1, s3)" by force
    have "tape s3 = tape s2" using t2 hush.kept_write_sample [OF wr] by (simp add: hushed_def)
    moreover have "logged c s (attempt_rows rid (Some (ts, info, es))) c1 s3"
      using logged_trans [OF inert_logged [OF in2] write_sample_logged [OF laws'(4) wr Cons.prems(4)]] by simp
    ultimately show ?thesis using Cons.prems(1) now read v Inr w wr t2
      by (intro exI [of _ "Some (ts, info, es)"] exI [of _ c1] exI [of _ s3]) (auto simp: taken_def)
  qed
  then obtain a c1 s3 where step: "logged c s (attempt_rows rid a) c1 s3" "taken [a] s s3" "tp_time (tape s3) = None"
    "flush_groups E gs t rd1 c1 (rid + 1) s3 = (out, rd', c', rid', s')" by blast
  have "distinct (csv_fds c1)" using Cons.prems(4) logged_fds [OF step(1)] by simp
  from Cons.IH [OF step(4) v(2) rest this step(3)] obtain as where
    "logged c1 s3 (sample_rows (rid + 1) as) c' s'" "rid' = rid + 1 + of_nat (length as)" "taken as s3 s'" by blast
  with logged_trans [OF step(1)] step(2) show ?case
    by (intro exI [of _ "a # as"]) (simp add: add.assoc taken_def)
qed

section \<open>The descriptions of the counters\<close>

definition described :: "(u64 \<times> string \<times> i32) list \<Rightarrow> 'w os \<Rightarrow> 'w os \<Rightarrow> bool" where
  "described ds s s' \<longleftrightarrow>
     tape s' = (tape s)\<lparr>tp_ids := tp_ids (tape s) @ map (\<lambda>(i, name, t). (i, sint t)) ds\<rparr>"

lemma described_trans: "described ds s s1 \<Longrightarrow> described es s1 s2 \<Longrightarrow> described (ds @ es) s s2"
  by (simp add: described_def)

lemma describe_group_taken:
  assumes "writes_succeed (kern E)"
  shows "describe_group E t pss c s = (c', s') \<Longrightarrow> distinct (csv_fds c) \<Longrightarrow> tp_time (tape s) = None \<Longrightarrow>
    tp_tid (tape s) = sint t \<Longrightarrow>
    \<exists>ds. logged c s (desc_rows ds) c' s' \<and> described ds s s'
      \<and> (\<forall>(i, name, t) \<in> set ds. name \<in> name_str E ` ps_name ` set pss)"
proof (induction pss arbitrary: c s)
  case Nil
  then show ?case by (intro exI [of _ "[]"]) (simp add: logged_def desc_rows_def described_def)
next
  case (Cons ps pss)
  obtain ret v s1 where call: "sys_ioctl_id (kern E) (ps_fd ps) s = (ret, v, s1)" by (metis prod_cases3)
  note tr = sys_ioctl_id_trace [OF call]
  obtain r where id: "name_and_id (kern E) ps s = (r, s1)"
      and r: "r = (if ret \<noteq> 0 then Inl (last_os_error (kern E) s1) else Inr (ps_name ps, v))"
    using call by (auto simp: name_and_id_def get_id_def)
  note still = inert_logged [OF inert_name_and_id [OF id]]
  show ?case
  proof (cases "ret = 0")
    case False
    then have "tape s1 = tape s" using tr by simp
    moreover have "describe_group E t pss c s1 = (c', s')" using Cons.prems(1) id r False by simp
    ultimately obtain ds where ds: "logged c s1 (desc_rows ds) c' s'" "described ds s1 s'"
        "\<forall>(i, name, t) \<in> set ds. name \<in> name_str E ` ps_name ` set pss"
      using Cons.IH Cons.prems(2-4) by metis
    with logged_trans [OF still ds(1)] \<open>tape s1 = tape s\<close> show ?thesis
      by (intro exI [of _ ds]) (auto simp: described_def)
  next
    case True
    let ?d = "(v, name_str E (ps_name ps), t)"
    have t1: "described [?d] s s1" using tr True Cons.prems(4) by (simp add: described_def)
    obtain q c1 s2 where w: "write_desc (kern E) v (name_str E (ps_name ps)) t c s1 = (q, c1, s2)" by (metis prod_cases3)
    note one = write_desc_logged [OF assms Cons.prems(2) w]
    have t2: "tape s2 = tape s1"
      using hush.kept_write_desc [OF w] t1 Cons.prems(3) by (simp add: hushed_def described_def)
    have rest: "describe_group E t pss c1 s2 = (c', s')" using Cons.prems(1) id r True w one by simp
    have "distinct (csv_fds c1)" "tp_time (tape s2) = None" "tp_tid (tape s2) = sint t"
      using one Cons.prems(2-4) t1 t2 by (auto dest: logged_fds simp: described_def)
    from Cons.IH [OF rest this] obtain ds where ds: "logged c1 s2 (desc_rows ds) c' s'" "described ds s2 s'"
        "\<forall>(i, name, t) \<in> set ds. name \<in> name_str E ` ps_name ` set pss" by blast
    from logged_trans [OF still logged_trans [OF conjunct2 [OF one] ds(1)]] described_trans [OF t1, of ds s'] ds t2
    show ?thesis by (intro exI [of _ "?d # ds"]) (auto simp: desc_rows_def described_def)
  qed
qed

lemma describe_groups_taken:
  assumes "writes_succeed (kern E)"
  shows "describe_groups E t gs c s = (c', s') \<Longrightarrow> distinct (csv_fds c) \<Longrightarrow> tp_time (tape s) = None \<Longrightarrow>
    gs \<noteq> [] \<longrightarrow> tp_tid (tape s) = sint t \<Longrightarrow>
    \<exists>ds. logged c s (desc_rows ds) c' s' \<and> described ds s s'
      \<and> (\<forall>(i, name, t) \<in> set ds. \<exists>g \<in> set gs. name \<in> name_str E ` set (group_names g))"
proof (induction gs arbitrary: c s)
  case Nil
  then show ?case by (intro exI [of _ "[]"]) (simp add: logged_def desc_rows_def described_def)
next
  case (Cons g gs)
  obtain c1 s1 where one: "describe_group E t (elems (pg_fds g)) c s = (c1, s1)" by force
  with Cons.prems(1) have rest: "describe_groups E t gs c1 s1 = (c', s')" by simp
  have "tp_tid (tape s) = sint t" using Cons.prems(4) by simp
  from describe_group_taken [OF assms one Cons.prems(2,3) this] obtain ds where ds: "logged c s (desc_rows ds) c1 s1"
    "described ds s s1" "\<forall>(i, name, t) \<in> set ds. name \<in> name_str E ` set (group_names g)"
    by (auto simp: group_names_def)
  then have "distinct (csv_fds c1)" "tp_time (tape s1) = None" "tp_tid (tape s1) = sint t"
    using Cons.prems by (auto dest: logged_fds simp: described_def)
  with Cons.IH [OF rest] obtain es where es: "logged c1 s1 (desc_rows es) c' s'" "described es s1 s'"
    "\<forall>(i, name, t) \<in> set es. \<exists>g \<in> set gs. name \<in> name_str E ` set (group_names g)" by blast
  from logged_trans [OF ds(1) es(1)] described_trans [OF ds(2) es(2)] ds(3) es(3) show ?case
    by (intro exI [of _ "ds @ es"]) (auto simp: desc_rows_def)
qed

text \<open>Opening counters: only the thread of the tape may change.\<close>

definition opened_for :: "int \<Rightarrow> 'w os \<Rightarrow> 'w os \<Rightarrow> bool" where
  "opened_for pid s s' \<longleftrightarrow> tape s' = tape s \<or> tape s' = (tape s)\<lparr>tp_tid := pid\<rparr>"

lemma opened_for_trans: "opened_for pid s1 s2 \<Longrightarrow> opened_for pid s2 s3 \<Longrightarrow> opened_for pid s1 s3"
  by (auto simp: opened_for_def)

lemma tape_closes: "tape (close_all K pss s) = tape s"
  by (induction pss arbitrary: s) (simp_all add: close_all_def)

lemma perf_event_open_tape:
  "perf_event_open K attr pid cpu grp flags s = (r, s') \<Longrightarrow> tape s' = (tape s)\<lparr>tp_tid := pid\<rparr>"
  by (auto simp: perf_event_open_def split: prod.splits if_splits dest!: sys_perf_event_open_trace)

lemma open_rest_tape:
  "open_rest K pid l acc cs s = (r, s') \<Longrightarrow> tp_tid (tape s) = pid \<Longrightarrow> tape s' = tape s"
proof (induction cs arbitrary: acc s)
  case (Cons c cs)
  obtain r1 s1 where o: "perf_event_open K (pc_attr c) pid (-1) l PERF_FLAG_FD_CLOEXEC s = (r1, s1)" by force
  have "tape s1 = tape s" using perf_event_open_tape [OF o] Cons.prems(2) by simp
  with Cons o show ?case by (auto simp: tape_closes split: sum.splits)
qed simp

lemma group_new_tape:
  assumes "group_new K cs pid s = (r, s')"
  shows "opened_for pid s s' \<and> (\<forall>g. r = Inr g \<longrightarrow> tp_tid (tape s') = pid \<and> set (group_names g) \<subseteq> pc_name ` set cs)"
proof (cases cs)
  case Nil
  with assms show ?thesis by (auto simp: group_new_def opened_for_def)
next
  case (Cons c cs')
  let ?attr = "(pc_attr c)\<lparr>attr_read_format := GROUP_READ_FORMAT\<rparr>"
  obtain r1 s1 where o: "perf_event_open K ?attr pid (-1) (-1) PERF_FLAG_FD_CLOEXEC s = (r1, s1)" by force
  note t1 = perf_event_open_tape [OF o]
  have t: "tape s' = tape s1"
    using assms Cons o t1 by (auto simp: group_new_def Let_def split: sum.splits prod.splits option.splits dest: open_rest_tape)
  have "set (group_names g) \<subseteq> pc_name ` set cs" if "r = Inr g" for g
  proof -
    from group_new_trace [OF assms [unfolded Cons]] that obtain ret rets where "length rets = length cs'"
      "g = \<lparr>pg_fds = NonEmpty (counters (c # cs') (ret # rets))\<rparr>" by auto
    then show ?thesis by (auto simp: Cons group_names_def counters_def dest!: set_zip_leftD)
  qed
  with t t1 show ?thesis by (simp add: opened_for_def)
qed

lemma open_groups_tape:
  "open_groups E t cfgs s = (gs, s') \<Longrightarrow> opened_for (sint t) s s'
    \<and> (gs \<noteq> [] \<longrightarrow> tp_tid (tape s') = sint t)
    \<and> (\<forall>g \<in> set gs. \<exists>cfg \<in> set cfgs. set (group_names g) \<subseteq> pc_name ` set (elems cfg))"
proof (induction cfgs arbitrary: gs s)
  case Nil
  then show ?case by (simp add: opened_for_def)
next
  case (Cons cfg cfgs)
  obtain r s1 where new: "group_new (kern E) (elems cfg) (sint t) s = (r, s1)" by force
  note one = group_new_tape [OF new]
  show ?case
  proof (cases r)
    case (Inl e)
    let ?s2 = "eprintln (OpenEventsFailed t e) s1"
    have "tape ?s2 = tape s1" by (simp add: eprintln_def)
    then have "opened_for (sint t) s ?s2" using one by (simp add: opened_for_def)
    moreover have "open_groups E t cfgs ?s2 = (gs, s')" using Cons.prems new Inl by simp
    ultimately show ?thesis using Cons.IH opened_for_trans by fastforce
  next
    case (Inr g)
    obtain gs' where rest: "open_groups E t cfgs s1 = (gs', s')" "gs = g # gs'"
      using Cons.prems new Inr by (auto split: prod.splits)
    from Cons.IH [OF rest(1)] one Inr rest(2) show ?thesis
      by (auto simp: opened_for_def intro: opened_for_trans)
  qed
qed

section \<open>The record\<close>

text \<open>
  From the texts \<open>b\<close> on, the files hold the rows of the attempts on the tape, which the read id
  counts, and of the counters on the tape with names of the configured events, which are in \<open>N\<close>.
\<close>

definition named :: "('n, 'w) env \<Rightarrow> string set \<Rightarrow> 'n perf_config non_empty list \<Rightarrow> bool" where
  "named E N cfgs \<longleftrightarrow> (\<forall>cfg \<in> set cfgs. name_str E ` pc_name ` set (elems cfg) \<subseteq> N)"

definition recorded ::
    "string set \<Rightarrow> string \<times> string \<times> string \<Rightarrow> csv_writer \<Rightarrow> u64 \<Rightarrow> 'w os \<Rightarrow> bool" where
  "recorded N b c rid s \<longleftrightarrow> (case b of (be, br, bd) \<Rightarrow>
     distinct (csv_fds c) \<and> tp_time (tape s) = None
   \<and> event_text c s = be @ concat (map event_line (sample_rows 0 (tp_attempts (tape s))))
   \<and> read_text c s = br @ concat (map read_line (sample_rows 0 (tp_attempts (tape s))))
   \<and> rid = of_nat (length (tp_attempts (tape s)))
   \<and> (\<exists>ds. desc_text c s = bd @ concat (map desc_line (desc_rows ds))
        \<and> map (\<lambda>(i, name, t). (i, sint t)) ds = tp_ids (tape s) \<and> (\<forall>(i, name, t) \<in> set ds. name \<in> N)))"

lemma recorded_basics: "recorded N b c rid s \<Longrightarrow> distinct (csv_fds c) \<and> tp_time (tape s) = None"
  by (auto simp: recorded_def split: prod.splits)

lemma recorded_opened:
  assumes "recorded N b c rid s" "opened_for pid s s'" "\<forall>fd. file_text fd (trace s') = file_text fd (trace s)"
  shows "recorded N b c rid s'"
proof -
  have "event_text c s' = event_text c s" "read_text c s' = read_text c s" "desc_text c s' = desc_text c s"
    using assms(3) by (simp_all add: event_text_def read_text_def desc_text_def bw_text_def)
  moreover have "tp_time (tape s') = tp_time (tape s)" "tp_attempts (tape s') = tp_attempts (tape s)"
    "tp_ids (tape s') = tp_ids (tape s)" using assms(2) by (auto simp: opened_for_def)
  ultimately show ?thesis using assms(1) by (simp add: recorded_def)
qed

lemma recorded_steady: "recorded N b c rid s \<Longrightarrow> steady s s' \<Longrightarrow> recorded N b c rid s'"
  using recorded_basics [of N b c rid s] recorded_opened [of N b c rid s 0 s']
  by (simp add: steady_def hushed_def opened_for_def)

lemma recorded_taken:
  assumes "recorded N b c rid s" "logged c s (sample_rows rid as) c' s'" "taken as s s'"
  shows "recorded N b c' (rid + of_nat (length as)) s'"
proof -
  obtain be br bd where b: "b = (be, br, bd)" by (metis prod_cases3)
  have rid: "rid = of_nat (length (tp_attempts (tape s)))" using assms(1) by (simp add: recorded_def b)
  have "sample_rows 0 (tp_attempts (tape s) @ as) = sample_rows 0 (tp_attempts (tape s)) @ sample_rows rid as"
    by (simp add: sample_rows_append rid)
  moreover have "desc_text c' s' = desc_text c s"
    using assms(2) by (simp add: logged_def sample_rows_desc del: concat_eq_Nil_conv)
  ultimately show ?thesis using assms by (simp add: recorded_def b logged_def taken_def)
qed

lemma recorded_described:
  assumes "recorded N b c rid s" "logged c s (desc_rows ds) c' s'" "described ds s s'"
    and "\<forall>(i, name, t) \<in> set ds. name \<in> N"
  shows "recorded N b c' rid s'"
proof -
  obtain be br bd where b: "b = (be, br, bd)" by (metis prod_cases3)
  from assms(1) b obtain es where es: "desc_text c s = bd @ concat (map desc_line (desc_rows es))"
      "map (\<lambda>(i, name, t). (i, sint t)) es = tp_ids (tape s)" "\<forall>(i, name, t) \<in> set es. name \<in> N"
    by (auto simp: recorded_def)
  have "desc_rows (es @ ds) = desc_rows es @ desc_rows ds" by (simp add: desc_rows_def)
  with assms b es desc_rows_lines [of ds] show ?thesis
    by (simp add: recorded_def logged_def described_def del: desc_rows_lines) (intro exI [of _ "es @ ds"], auto)
qed

definition recording :: "('n, 'w) env \<Rightarrow> string set \<Rightarrow> string \<times> string \<times> string \<Rightarrow> 'n state \<Rightarrow> 'w os \<Rightarrow> bool" where
  "recording E N b st s \<longleftrightarrow> sampling_laws E \<and> whole_messages (kern E) \<and> sound st \<and> named E N (event_configs st)
     \<and> recorded N b (csv st) (read_id st) s"

lemma recording_sound: "recording E N b st s \<Longrightarrow> sound st \<and> sound_laws (kern E)"
  by (simp add: recording_def sampling_laws_def sound_laws_def)

lemma flush_into_recorded:
  assumes "recording E N b st s" "\<forall>g \<in> set gs. healthy_group g" "flush_into E gs t st s = (out, st', s')"
  shows "recorded N b (csv st') (read_id st') s' \<and> event_configs st' = event_configs st"
proof -
  obtain rd c rid s1 where fl: "flush_groups E gs t (reader st) (csv st) (read_id st) s = (out, rd, c, rid, s1)"
      and st': "st' = st\<lparr>reader := rd, csv := c, read_id := rid\<rparr>" "s' = s1"
    using assms(3) by (auto simp: flush_into_def split: prod.splits)
  have rec: "recorded N b (csv st) (read_id st) s" and laws: "sampling_laws E" and rd: "reader_aligned (reader st)"
    using assms(1) by (auto simp: recording_def sound_def healthy_def)
  from recorded_basics [OF rec] have "distinct (csv_fds (csv st))" "tp_time (tape s) = None" by auto
  from flush_groups_taken [OF laws fl rd assms(2) this] recorded_taken [OF rec] st' show ?thesis by auto
qed

lemma flush_tids_recorded:
  "flush_tids E ts st s = (out, st', s') \<Longrightarrow> recording E N b st s \<Longrightarrow>
    recorded N b (csv st') (read_id st') s' \<and> event_configs st' = event_configs st"
proof (induction ts arbitrary: st s)
  case Nil
  then show ?case by (simp add: recording_def)
next
  case (Cons t ts)
  let ?gs = "case map_of (groups st) t of None \<Rightarrow> [] | Some gs \<Rightarrow> gs"
  obtain o1 st1 s1 where fl: "flush_into E ?gs t st s = (o1, st1, s1)" by (metis prod_cases3)
  have gs: "\<forall>g \<in> set ?gs. healthy_group g"
    using Cons.prems(2) by (cases "map_of (groups st) t")
      (fastforce simp: recording_def sound_def healthy_def dest: map_of_SomeD)+
  note one = flush_into_recorded [OF Cons.prems(2) gs fl]
  have laws: "allocator_laws (kern E)" "whole_reads (kern E)" and rd: "reader_aligned (reader st)"
    using Cons.prems(2) by (auto simp: recording_def sampling_laws_def sound_def healthy_def)
  have "sound st1"
    using flush_into_returns [OF laws rd gs fl] flush_into_quiet [OF fl] Cons.prems(2)
    by (auto simp: recording_def sound_def healthy_def)
  then have "recording E N b st1 s1" using one Cons.prems(2) by (simp add: recording_def)
  with Cons.IH [of st1 s1] Cons.prems(1) fl one show ?case by (cases o1) auto
qed

lemma flush_all_recording:
  assumes "recording E N b st s" "flush_all E st s = (out, st', s')"
  shows "recording E N b st' s'"
proof -
  have "sound_laws (kern E)" "sound st" using recording_sound [OF assms(1)] by auto
  then have "sound st'" using flush_all_sound assms(2) by blast
  with flush_tids_recorded [OF assms(2) [unfolded flush_all_def] assms(1)] assms(1) show ?thesis
    by (simp add: recording_def)
qed

lemma close_tid_recording:
  assumes "recording E N b st s" "close_tid E t st s = (out, st', s')"
  shows "recording E N b st' s'"
proof (cases "map_of (groups st) t")
  case (Some gs)
  let ?st = "st\<lparr>groups := AList.delete t (groups st)\<rparr>"
  obtain o1 st1 s1 where fl: "flush_into E gs t ?st s = (o1, st1, s1)" by (metis prod_cases3)
  have "sound_laws (kern E)" "sound st" using recording_sound [OF assms(1)] by auto
  then have "sound st'" using close_tid_sound assms(2) by blast
  moreover have "\<forall>g \<in> set gs. healthy_group g" "recording E N b ?st s"
    using assms(1) map_of_SomeD [OF Some] by (fastforce simp: recording_def sound_def healthy_def AList.delete_eq)+
  from flush_into_recorded [OF this(2,1) fl] have "recorded N b (csv st1) (read_id st1) s1"
    "event_configs st1 = event_configs st" by auto
  moreover from this(1) have "recorded N b (csv st1) (read_id st1) (drop_groups (kern E) gs s1)"
    by (rule recorded_steady [OF _ steady.kept_drop_groups])
  ultimately show ?thesis using assms Some fl by (auto simp: close_tid_def recording_def)
qed (use assms in \<open>auto simp: close_tid_def\<close>)

lemma open_tid_recording:
  assumes "recording E N b st s" "open_tid E t st s = (st', s')"
  shows "recording E N b st' s'"
proof (cases "map_of (groups st) t")
  case None
  obtain gs s1 where op: "open_groups E t (event_configs st) s = (gs, s1)" by force
  obtain c s2 where de: "describe_groups E t gs (csv st) s1 = (c, s2)" by force
  from assms(2) None op de have st': "st' = st\<lparr>csv := c, groups := AList.update t gs (groups st)\<rparr>" "s' = s2"
    by (auto simp: open_tid_def)
  have rec: "recorded N b (csv st) (read_id st) s" and names: "named E N (event_configs st)"
    using assms(1) by (auto simp: recording_def)
  note tape = open_groups_tape [OF op]
  have rec1: "recorded N b (csv st) (read_id st) s1"
    using recorded_opened [OF rec] tape open_groups_still [OF op] by blast
  have "writes_succeed (kern E)" using assms(1) by (simp add: recording_def sampling_laws_def)
  from describe_groups_taken [OF this de] recorded_basics [OF rec1] tape obtain ds where
    ds: "logged (csv st) s1 (desc_rows ds) c s2" "described ds s1 s2"
      "\<forall>(i, name, t) \<in> set ds. \<exists>g \<in> set gs. name \<in> name_str E ` set (group_names g)" by auto
  have "\<forall>(i, name, t) \<in> set ds. name \<in> N"
    using ds(3) tape names by (fastforce simp: named_def)
  from recorded_described [OF rec1 ds(1,2) this] have "recorded N b c (read_id st) s2" .
  moreover have "sound st'" using open_tid_sound [OF _ assms(2)] assms(1) by (simp add: recording_def)
  ultimately show ?thesis using assms(1) st' by (simp add: recording_def)
qed (use assms in \<open>auto simp: open_tid_def\<close>)

section \<open>The handlers and the loop\<close>

lemma recording_steady: "recording E N b st s \<Longrightarrow> steady s s' \<Longrightarrow> recording E N b st s'"
  by (auto simp: recording_def intro: recorded_steady)

lemma steady_receive: "message_read K q s = (r, s') \<Longrightarrow> steady s s'"
  by (auto simp: message_read_def mq_read_def steady_def hushed_def split: prod.splits if_splits
      dest!: sys_mq_receive_trace)

lemma steady_polls:
  "sys_epoll_ctl K epfd op fd ev s = (r, s') \<Longrightarrow> steady s s'"
  "sys_epoll_wait K epfd n t s = (q, evs, s') \<Longrightarrow> steady s s'"
  by (auto simp: steady_def hushed_def dest!: sys_epoll_ctl_trace sys_epoll_wait_trace)

lemma queue_handler_recording:
  assumes "recording E N b st s" "queue_handler E mq st s = (out, mq', st', s')"
  shows "recording E N b st' s'"
proof -
  obtain r s1 where read: "message_read (kern E) mq s = (r, s1)" by force
  note rec = recording_steady [OF assms(1) steady_receive [OF read]]
  have "recording E N b st (eprintln d s1)" for d by (rule recording_steady [OF rec steady.kept_eprintln])
  with assms(2) read rec show ?thesis
    by (auto simp: queue_handler_def split: outcome.splits sum.splits message_flag.splits prod.splits
        dest: open_tid_recording close_tid_recording)
qed

lemma timer_handler_recording:
  assumes "recording E N b st s" "timer_handler E t st s = (out, t', st', s')"
  shows "recording E N b st' s'"
proof -
  obtain r s1 where read: "timer_read (kern E) t s = (r, s1)" by force
  note rec = recording_steady [OF assms(1) steady.kept_timer_read [OF read]]
  have "recording E N b st (eprintln d s1)" for d by (rule recording_steady [OF rec steady.kept_eprintln])
  with assms(2) read rec show ?thesis
    by (auto simp: timer_handler_def Let_def split: outcome.splits sum.splits prod.splits if_splits
        dest: flush_all_recording)
qed

lemma source_handler_recording:
  assumes "recording E N b st s" "source_handler E p st s = (out, p', st', s')"
  shows "recording E N b st' s'"
proof (cases p)
  case (PSignal sfd)
  obtain o1 r st1 s1 where h: "signal_handler E sfd st s = (o1, r, st1, s1)" by (metis prod_cases4)
  from recording_steady [OF assms(1) steady.kept_signal_handler [OF h]] signal_handler_step [OF h] assms PSignal h
  show ?thesis by (auto simp: source_handler_def)
qed (use assms in \<open>auto simp: source_handler_def split: prod.splits
    dest: queue_handler_recording timer_handler_recording\<close>)

interpretation recorder: monitored_run E "recording E N b" "recording E N b" steady
  for E :: "('n, 'w) env" and N :: "string set" and b :: "string \<times> string \<times> string"
proof
  fix src src' :: "(pollable, 'n state, 'w) source" and c c' :: "'n state" and s s' :: "'w os" and out
  assume "monitor_source E src" "recording E N b c s" "call_func src c s = (out, src', c', s')"
  then show "monitor_source E src' \<and> recording E N b c' s' \<and> (returns out \<longrightarrow> recording E N b c' s')"
    by (auto simp: monitor_source_def call_func_def split: prod.splits intro: source_handler_recording)
qed (blast intro: recording_steady flush_all_recording dest: steady_polls)+

section \<open>The files of a run\<close>

text \<open>
  What is found in the three files: their headers, then a row for every sample and every counter on
  the tape, in order, and no other; the names are in \<open>N\<close>. Event rows refer to read rows, and (up to \<open>2 ^ 64\<close>
  attempts) the read ids are unique.
\<close>

definition faithful_files :: "string set \<Rightarrow> string \<Rightarrow> call list \<Rightarrow> bool" where
  "faithful_files N folder cs \<longleftrightarrow> (let p = tape_of cs; rows = sample_rows 0 (tp_attempts p) in
     \<exists>e q d ds. CFileOpen (path_join folder ''threadstat-event.csv'') e \<in> set cs
        \<and> CFileOpen (path_join folder ''threadstat-read.csv'') q \<in> set cs
        \<and> CFileOpen (path_join folder ''threadstat-event-description.csv'') d \<in> set cs
        \<and> file_text e cs = event_header @ newline @ concat (map event_line rows)
        \<and> file_text q cs = read_header @ newline @ concat (map read_line rows)
        \<and> file_text d cs = desc_header @ newline @ concat (map desc_line (desc_rows ds))
        \<and> map (\<lambda>(i, name, t). (i, sint t)) ds = tp_ids p \<and> (\<forall>(i, name, t) \<in> set ds. name \<in> N)
        \<and> set (event_refs rows) \<subseteq> set (read_ids rows)
        \<and> (length (tp_attempts p) \<le> 2 ^ 64 \<longrightarrow> distinct (read_ids rows)))"

text \<open>The names on the command line, as the lexer finds them, and as \<open>InternC\<close> prints them.\<close>

definition event_names :: "args \<Rightarrow> string set" where
  "event_names a = set (concat (group_lists (scan (join_with CHR '','' (events a)))))"

definition names_as_interned :: "('n, 'e, 'w, 'sl) host \<Rightarrow> bool" where
  "names_as_interned H \<longleftrightarrow> (\<forall>n. name_str (h_env H) n = in_cstr (h_intern H) n)"

lemma parse_named:
  assumes "interner_laws (h_intern H)" "names_as_interned H" "utf8_like (join_with CHR '','' (events a))"
    and "parse_event_groups K (h_intern H) (join_with CHR '','' (events a)) s = (Return (Inr cfgs), s')"
  shows "named (h_env H) (event_names a) cfgs"
proof -
  let ?str = "join_with CHR '','' (events a)" and ?I = "h_intern H"
  have "build_groups K ?I (scan ?str) [] s = (Return (Inr cfgs), s')"
    using assms(4) parse_scans [OF assms(3)] by metis
  from build_groups_names [OF assms(1) this]
  have names: "map (\<lambda>g. config_names ?I (elems g)) cfgs = group_lists (scan ?str)" by simp
  have "name_str (h_env H) ` pc_name ` set (elems cfg) \<subseteq> event_names a" if "cfg \<in> set cfgs" for cfg
  proof -
    from that names have "config_names ?I (elems cfg) \<in> set (group_lists (scan ?str))" by (metis image_eqI list.set_map)
    moreover have "name_str (h_env H) ` pc_name ` set (elems cfg) = set (config_names ?I (elems cfg))"
      using assms(2) by (auto simp: config_names_def names_as_interned_def)
    ultimately show ?thesis by (auto simp: event_names_def)
  qed
  then show ?thesis by (simp add: named_def)
qed

definition recorder_laws :: "('n, 'e, 'w, 'sl) host \<Rightarrow> args \<Rightarrow> ('w \<Rightarrow> int set) \<Rightarrow> bool" where
  "recorder_laws H a live \<longleftrightarrow> slab_laws (h_slab H) \<and> map_order_laws (h_env H) \<and> sampling_laws (h_env H)
     \<and> whole_messages (kern (h_env H)) \<and> file_laws (kern (h_env H)) live
     \<and> interner_laws (h_intern H) \<and> names_as_interned H
     \<and> utf8_like (join_with CHR '','' (events a)) \<and> length (join_with CHR '','' (events a)) < 2 ^ 58"

lemma state_drop_tape:
  assumes "tp_time (tape s) = None"
  shows "tape (state_drop E st s) = tape s"
proof -
  let ?s1 = "fold (\<lambda>t s. drop_groups (kern E) (the (map_of (groups st) t)) s) (map_order E (map fst (groups st))) s"
  have "tape ?s1 = tape s"
    using steady.kept_drop_all [where E = E and f = "\<lambda>t. the (map_of (groups st) t)" and s = s] assms
    by (simp add: steady_def hushed_def)
  then have "tape (reader_drop (kern E) (reader st) ?s1) = tape s"
    by (simp add: reader_drop_def os_simps split: option.splits)
  with hush.kept_csv_drop [where E = E and c = "csv st"] assms show ?thesis by (simp add: state_drop_def hushed_def)
qed

lemma state_scope_faithful:
  assumes laws: "recorder_laws H a live"
    and fresh: "\<forall>fd. file_text fd (trace s) = []" "tape s = blank"
    and sc: "state_scope H a mq s = Some (Return (), s')"
  shows "faithful_files (event_names a) (output_folder a) (trace s') \<and> tp_time (tape s') = None"
proof -
  let ?E = "h_env H" let ?K = "kern ?E" let ?N = "event_names a"
  have slab: "slab_laws (h_slab H)" and order: "map_order_laws ?E" and samp: "sampling_laws ?E"
    and whole: "whole_messages ?K" and fresh_fds: "file_laws ?K live" and int: "interner_laws (h_intern H)"
    and nm: "names_as_interned H" and utf: "utf8_like (join_with CHR '','' (events a))"
    and len: "length (join_with CHR '','' (events a)) < 2 ^ 58" using laws by (auto simp: recorder_laws_def)
  have wr: "writes_succeed ?K" using samp by (simp add: sampling_laws_def)
  obtain r1 s1 where parse: "parse_event_groups ?K (h_intern H) (join_with CHR '','' (events a)) s = (r1, s1)"
    by force
  then obtain configs where r1: "r1 = Return (Inr configs)"
    using sc by (auto simp: state_scope_def Let_def split: outcome.splits sum.splits)
  obtain r2 s2 where new: "state_new ?K configs (output_folder a) s1 = (r2, s2)" by force
  then obtain st where r2: "r2 = Return st"
    using sc parse r1 by (auto simp: state_scope_def Let_def split: outcome.splits)
  obtain c where c: "csv_open ?K (output_folder a) s1 = (Inr c, s2)"
      and st: "st = \<lparr>event_configs = configs, groups = [], reader = reader_new, csv = c, read_id = 0\<rparr>"
    using new r2 by (auto simp: state_new_def split: prod.splits sum.splits)
  have start: "file_text fd (trace s1) = []" "tape s1 = blank" for fd
    using steady.kept_parse [OF parse] fresh by (simp_all add: steady_def hushed_def blank_def)
  obtain e q d where opened: "trace s2 = trace s1 @ [CFileOpen (path_join (output_folder a) ''threadstat-event.csv'') e,
        CFileOpen (path_join (output_folder a) ''threadstat-read.csv'') q,
        CFileOpen (path_join (output_folder a) ''threadstat-event-description.csv'') d]"
      "c = \<lparr>cw_event = \<lparr>bw_fd = e, bw_buf = event_header @ newline\<rparr>,
            cw_read = \<lparr>bw_fd = q, bw_buf = read_header @ newline\<rparr>,
            cw_desc = \<lparr>bw_fd = d, bw_buf = desc_header @ newline\<rparr>\<rparr>"
    using csv_open_trace [where K = ?K and folder = "output_folder a" and s = s1] c by auto
  let ?b = "(event_header @ newline, read_header @ newline, desc_header @ newline)"
  have "recorded ?N ?b c 0 s2"
    using csv_open_distinct [OF fresh_fds c] start opened
    by (auto simp: recorded_def event_text_def read_text_def desc_text_def bw_text_def desc_rows_def blank_def)
  moreover have "sound st" using state_new_sound [OF parse_small [OF int utf len] new] parse r1 r2 by blast
  ultimately have rec: "recording ?E ?N ?b st s2"
    using samp whole parse_named [OF int nm utf] parse r1 by (auto simp: recording_def st)
  obtain st' s3 where inner: "signal_scope H a mq st s2 = Some (Return (), st', s3)" and s': "s' = state_drop ?E st' s3"
    using sc parse r1 new r2 by (auto simp: state_scope_def Let_def)
  have rec': "recorded ?N ?b (csv st') (read_id st') s3"
    using recorder.signal_scope_ended [OF refl slab rec inner] by (simp add: recording_def)
  note base = recorded_basics [OF rec']
  have "distinct_tids st" by (simp add: st distinct_tids_def)
  note ok = signal_scope_ok [OF slab this inner]
  have fds: "csv_fds (csv st') = [e, q, d]" and d': "distinct_tids st'"
    using ok opened st by (auto simp: scope_ok_def csv_fds_def)
  have tape: "tape s' = tape s3" using state_drop_tape base s' by blast
  have texts: "file_text e (trace s') = event_text (csv st') s3" "file_text q (trace s') = read_text (csv st') s3"
      "file_text d (trace s') = desc_text (csv st') s3"
    using state_drop_texts [OF wr, of "st'" s3] base fds s' by (auto simp: csv_fds_def)
  have "set (trace s2) \<subseteq> set (trace s3)" using ok by (auto simp: scope_ok_def conserves_def)
  then have "set (trace s2) \<subseteq> set (trace s')"
    using trace_prefix_state_drop [OF order d', of s3] s' by auto
  with opened(1) texts rec' tape base sample_refs [of 0 "tp_attempts (tape s3)"]
    sample_read_ids_distinct [of "tp_attempts (tape s3)" 0] show ?thesis
    unfolding faithful_files_def Let_def
    by (intro conjI exI [of _ e] exI [of _ q] exI [of _ d]) (auto simp: recorded_def)
qed

section \<open>The whole program\<close>

lemma main_faithful:
  assumes laws: "recorder_laws H a live" and run: "main_body H a (boot w) = Some (Return (), s')"
  shows "faithful_files (event_names a) (output_folder a) (trace s')"
proof -
  let ?E = "h_env H" let ?K = "kern ?E"
  let ?s0 = "println ''Parsed Args'' (boot w)"
  obtain r s1 where new: "mq_new ?K message_size MQ_NAME ?s0 = (r, s1)" by force
  then obtain mq where r: "r = Inr mq" using run by (auto simp: main_body_def Let_def split: sum.splits)
  let ?s1 = "println ''Opened Message Queue'' s1"
  obtain s2 where inner: "state_scope H a mq ?s1 = Some (Return (), s2)" and s': "s' = mq_drop ?K mq s2"
    using run new r by (auto simp: main_body_def Let_def)
  have "steady (boot w) ?s1"
    using steady.kept_trans [OF steady.kept_trans [OF steady.kept_println steady.kept_mq_new [OF new]] steady.kept_println] .
  then have "\<forall>fd. file_text fd (trace ?s1) = []" "tape ?s1 = blank"
    by (simp_all add: steady_def hushed_def boot_def tape_of_def blank_def)
  from state_scope_faithful [OF laws this inner]
  have ok: "faithful_files (event_names a) (output_folder a) (trace s2)" "tp_time (tape s2) = None" by auto
  have "trace s' = trace s2 @ [CMqUnlink (mq_name mq), CClose (mq_fd mq)] \<or>
      trace s' = trace s2 @ [CClose (mq_fd mq), CMqUnlink (mq_name mq)]"
    by (auto simp: s' mq_drop_def os_simps)
  with ok(1) show ?thesis unfolding faithful_files_def Let_def by (elim disjE exE conjE) auto
qed

section \<open>Reading the files\<close>

lemma csv_table_header:
  assumes "CHR ''\<newline>'' \<notin> set h"
  shows "tl (csv_table (h @ newline @ t)) = csv_table t"
  using split_on_append [OF assms, of t] by (simp add: csv_table_def newline_def map_tl)

lemma headers_clean: "CHR ''\<newline>'' \<notin> set event_header" "CHR ''\<newline>'' \<notin> set read_header" "CHR ''\<newline>'' \<notin> set desc_header"
  by (simp_all add: event_header_def read_header_def desc_header_def)

text \<open>What the tables hold, in terms of the attempts: each has its number as the read id.\<close>

fun event_table :: "u64 \<Rightarrow> attempt list \<Rightarrow> u64 list list" where
  "event_table k [] = []"
| "event_table k (None # as) = event_table (k + 1) as"
| "event_table k (Some (t, info, es) # as) = map (\<lambda>e. [k, ei_count e, ei_id e]) es @ event_table (k + 1) as"

fun read_table :: "u64 \<Rightarrow> attempt list \<Rightarrow> nat list list" where
  "read_table k [] = []"
| "read_table k (None # as) = read_table (k + 1) as"
| "read_table k (Some (t, info, es) # as) =
     [unat k, t, unat (gi_time_running info), unat (gi_time_enabled info)] # read_table (k + 1) as"

fun read_values :: "csv_row \<Rightarrow> (u64 \<times> nat \<times> u64 \<times> u64) list" where
  "read_values (ReadRow r t a b) = [(r, t, a, b)]"
| "read_values _ = []"

lemma read_lines_values:
  "concat (map read_line rows) =
     concat (map (\<lambda>(r, t, a, b). read_row r t a b @ newline) (concat (map read_values rows)))"
proof (induction rows)
  case (Cons row rows)
  then show ?case by (cases row) simp_all
qed simp

lemma read_rows_read_back:
  "map (map parse_digits) (csv_table (concat (map (\<lambda>(r, t, a, b). read_row r t a b @ newline) xs)))
     = map (\<lambda>(r, t, a, b). [Some (unat r), Some t, Some (unat a), Some (unat b)]) xs"
proof -
  have "csv_table (concat (map (\<lambda>r. join_with CHR '','' r @ newline)
      (map (\<lambda>(r, t, a, b). [show_u64 r, show_nat t, show_u64 a, show_u64 b]) xs)))
    = map (\<lambda>(r, t, a, b). [show_u64 r, show_nat t, show_u64 a, show_u64 b]) xs"
    by (rule csv_table_rows) (auto simp: show_u64_clean show_nat_clean)
  then show ?thesis by (simp add: read_row_def comp_def case_prod_unfold show_u64_def parse_digits_show)
qed

lemma sample_values:
  "map (\<lambda>(r, cnt, i). [r, cnt, i]) (concat (map event_values (sample_rows k as))) = event_table k as"
  "map (\<lambda>(r, t, a, b). [unat r, t, unat a, unat b]) (concat (map read_values (sample_rows k as))) = read_table k as"
proof -
  have ev: "map (\<lambda>(r, cnt, i). [r, cnt, i]) (concat (map event_values (map (\<lambda>e. EventRow k (ei_count e) (ei_id e)) es)))
      = map (\<lambda>e. [k, ei_count e, ei_id e]) es" for k es by (induction es) auto
  have rd: "concat (map read_values (map (\<lambda>e. EventRow k (ei_count e) (ei_id e)) es)) = []" for k es
    by (induction es) auto
  show "map (\<lambda>(r, cnt, i). [r, cnt, i]) (concat (map event_values (sample_rows k as))) = event_table k as"
    by (induction k as rule: event_table.induct) (simp_all add: attempt_rows_def ev del: map_map)
  show "map (\<lambda>(r, t, a, b). [unat r, t, unat a, unat b]) (concat (map read_values (sample_rows k as))) = read_table k as"
    by (induction k as rule: event_table.induct) (simp_all add: attempt_rows_def rd del: map_map)
qed

lemma event_file_table:
  "map (map decode_u64) (tl (csv_table (event_header @ newline @ concat (map event_line (sample_rows 0 as)))))
    = map (map Some) (event_table 0 as)"
proof -
  have "map (map decode_u64) (csv_table (concat (map event_line (sample_rows 0 as))))
      = map (map Some) (map (\<lambda>(r, cnt, i). [r, cnt, i]) (concat (map event_values (sample_rows 0 as))))"
    unfolding event_lines_values event_rows_read_back by (simp add: case_prod_unfold)
  then show ?thesis unfolding csv_table_header [OF headers_clean(1)] sample_values(1) .
qed

lemma read_file_table:
  "map (map parse_digits) (tl (csv_table (read_header @ newline @ concat (map read_line (sample_rows 0 as)))))
    = map (map Some) (read_table 0 as)"
proof -
  have "map (map parse_digits) (csv_table (concat (map read_line (sample_rows 0 as))))
      = map (map Some) (map (\<lambda>(r, t, a, b). [unat r, t, unat a, unat b]) (concat (map read_values (sample_rows 0 as))))"
    unfolding read_lines_values read_rows_read_back by (simp add: case_prod_unfold)
  then show ?thesis unfolding csv_table_header [OF headers_clean(2)] sample_values(2) .
qed

lemma desc_file_table:
  assumes "\<forall>(i, name, t) \<in> set ds. CHR '','' \<notin> set name \<and> CHR ''\<newline>'' \<notin> set name"
  shows "map (\<lambda>r. (decode_u64 (r ! 0), r ! 1, parse_i64 (r ! 2)))
      (tl (csv_table (desc_header @ newline @ concat (map desc_line (desc_rows ds)))))
    = map (\<lambda>(i, name, t). (Some i, name, Some (sint t))) ds"
proof -
  have "concat (map desc_values (desc_rows ds)) = ds" by (induction ds) (auto simp: desc_rows_def)
  with desc_rows_read_back [OF assms] show ?thesis
    unfolding csv_table_header [OF headers_clean(3)] desc_lines_values by simp
qed

lemma event_names_clean: "n \<in> event_names a \<Longrightarrow> CHR '','' \<notin> set n"
  using group_lists_tidy by (auto simp: event_names_def tidy_name_def)

end
