(* ===== verification/Last_Samples.thy ===== *)
theory Last_Samples
  imports Setup_Frame Panics
begin

text \<open>
  No count is lost. What a counter has counted since it was last read is gone when its descriptor is
  closed. The book of a run is read off its trace: the counters that are open, the leaders among
  them, and of the leaders in use those that have not been read since the loop last waited. The
  program closes no leader of which a read is due.
\<close>

section \<open>The book\<close>

text \<open>
  A leader is a counter opened in no group; it is in use from when its identifier is asked for,
  which is done for the counters of every group that could be opened, and for no others. A wait
  makes a read of every leader in use due. The book is sound as long as the kernel gives each
  counter a number that is a descriptor and no other open counter has.
\<close>

record book =
  bk_open :: "int set"
  bk_leaders :: "int set"
  bk_used :: "int set"
  bk_due :: "int set"
  bk_sound :: bool

fun enter :: "call \<Rightarrow> book \<Rightarrow> book" where
  "enter (CPerfOpen attr pid cpu grp flags ret) b =
     (if ret < 0 then b else b\<lparr>
        bk_sound := bk_sound b \<and> ret < 2 ^ 31 \<and> as_i32 ret \<notin> bk_open b,
        bk_open := insert (as_i32 ret) (bk_open b),
        bk_leaders := (if grp = -1 then insert (as_i32 ret) (bk_leaders b) else bk_leaders b)\<rparr>)"
| "enter (CIoctlId fd ret v) b =
     (if fd \<in> bk_leaders b then b\<lparr>bk_used := insert fd (bk_used b), bk_due := insert fd (bk_due b)\<rparr> else b)"
| "enter (CEpollWait epfd ret) b = b\<lparr>bk_due := bk_used b\<rparr>"
| "enter (CRead fd n ret bs) b = b\<lparr>bk_due := bk_due b - {fd}\<rparr>"
| "enter (CClose fd) b = b\<lparr>bk_open := bk_open b - {fd}, bk_leaders := bk_leaders b - {fd},
     bk_used := bk_used b - {fd}, bk_due := bk_due b - {fd}\<rparr>"
| "enter c b = b"

definition book_of :: "call list \<Rightarrow> book" where
  "book_of cs = fold enter cs \<lparr>bk_open = {}, bk_leaders = {}, bk_used = {}, bk_due = {}, bk_sound = True\<rparr>"

lemma book_of_simps [simp]:
  "book_of [] = \<lparr>bk_open = {}, bk_leaders = {}, bk_used = {}, bk_due = {}, bk_sound = True\<rparr>"
  "book_of (cs @ ds) = fold enter ds (book_of cs)"
  by (simp_all add: book_of_def)

lemma sound_before: "bk_sound (fold enter ds b) \<Longrightarrow> bk_sound b"
proof (induction ds arbitrary: b)
  case (Cons c ds)
  then have "bk_sound (enter c b)" by simp
  then show ?case by (cases c) (auto split: if_splits)
qed simp

text \<open>No call closed a leader of which a read was due.\<close>

definition none_lost :: "call list \<Rightarrow> bool" where
  "none_lost cs \<longleftrightarrow> (\<forall>p fd q. cs = p @ CClose fd # q \<longrightarrow> fd \<notin> bk_due (book_of p))"

lemma none_lost_Nil [simp]: "none_lost []"
  by (simp add: none_lost_def)

lemma none_lost_snoc:
  "none_lost (cs @ [c]) \<longleftrightarrow> none_lost cs \<and> (\<forall>fd. c = CClose fd \<longrightarrow> fd \<notin> bk_due (book_of cs))"
proof
  assume a: "none_lost (cs @ [c])"
  have "cs @ [c] = p @ CClose fd # (q @ [c])" if "cs = p @ CClose fd # q" for p fd q using that by simp
  with a show "none_lost cs \<and> (\<forall>fd. c = CClose fd \<longrightarrow> fd \<notin> bk_due (book_of cs))"
    unfolding none_lost_def by blast
next
  assume a: "none_lost cs \<and> (\<forall>fd. c = CClose fd \<longrightarrow> fd \<notin> bk_due (book_of cs))"
  show "none_lost (cs @ [c])"
    unfolding none_lost_def
  proof (intro allI impI)
    fix p fd q assume e: "cs @ [c] = p @ CClose fd # q"
    show "fd \<notin> bk_due (book_of p)"
    proof (cases q rule: rev_cases)
      case Nil
      with e a show ?thesis by simp
    next
      case (snoc q' x)
      with e have "cs = p @ CClose fd # q'" by simp
      with a show ?thesis by (auto simp: none_lost_def)
    qed
  qed
qed

lemma none_lost_append: "none_lost (cs @ ds) \<Longrightarrow> none_lost cs"
  by (induction ds rule: rev_induct) (simp_all add: none_lost_snoc del: append_assoc add: append_assoc [symmetric])

abbreviation book :: "'w os \<Rightarrow> book" where
  "book s \<equiv> book_of (trace s)"

section \<open>Calls that at most read\<close>

fun bookless :: "call \<Rightarrow> bool" where
  "bookless (CPerfOpen attr pid cpu grp flags ret) \<longleftrightarrow> False"
| "bookless (CIoctlId fd ret v) \<longleftrightarrow> False"
| "bookless (CEpollWait epfd ret) \<longleftrightarrow> False"
| "bookless c \<longleftrightarrow> True"

fun reads_of :: "call list \<Rightarrow> int set" where
  "reads_of [] = {}"
| "reads_of (CRead fd n ret bs # cs) = insert fd (reads_of cs)"
| "reads_of (c # cs) = reads_of cs"

lemma reads_of_append [simp]: "reads_of (cs @ ds) = reads_of cs \<union> reads_of ds"
  by (induction cs rule: reads_of.induct) auto

text \<open>From \<open>s\<close> to \<open>s'\<close> nothing is opened, closed or waited for, and at least \<open>R\<close> is read.\<close>

definition sampled :: "int set \<Rightarrow> 'w os \<Rightarrow> 'w os \<Rightarrow> bool" where
  "sampled R s s' \<longleftrightarrow> (\<exists>d. trace s' = trace s @ d \<and> list_all bookless d \<and> fds_closed d = {#} \<and> R \<subseteq> reads_of d)"

lemma fds_closed_append [simp]: "fds_closed (cs @ ds) = fds_closed cs + fds_closed ds"
  by (induction cs) (simp_all add: add.assoc)

lemma sampled_refl [simp]: "sampled {} s s"
  by (simp add: sampled_def)

lemma sampled_trans: "sampled R s1 s2 \<Longrightarrow> sampled Q s2 s3 \<Longrightarrow> sampled (R \<union> Q) s1 s3"
  unfolding sampled_def by (elim exE conjE, rename_tac d e, rule_tac x = "d @ e" in exI) auto

lemma sampled_less: "sampled R s s' \<Longrightarrow> Q \<subseteq> R \<Longrightarrow> sampled Q s s'"
  unfolding sampled_def by blast

lemma bookless_book:
  "list_all bookless d \<Longrightarrow> fds_closed d = {#} \<Longrightarrow> fold enter d b = b\<lparr>bk_due := bk_due b - reads_of d\<rparr>"
proof (induction d arbitrary: b)
  case (Cons c d)
  then show ?case by (cases c) (auto simp: Diff_insert2 [symmetric])
qed simp

lemma bookless_lost: "list_all bookless d \<Longrightarrow> fds_closed d = {#} \<Longrightarrow> none_lost (cs @ d) \<longleftrightarrow> none_lost cs"
proof (induction d arbitrary: cs)
  case (Cons c d)
  then have "none_lost ((cs @ [c]) @ d) \<longleftrightarrow> none_lost (cs @ [c])" by (intro Cons.IH) auto
  with Cons.prems show ?case by (cases c) (auto simp: none_lost_snoc)
qed simp

lemma sampled_book:
  assumes "sampled R s s'"
  obtains Q where "R \<subseteq> Q" "book s' = (book s)\<lparr>bk_due := bk_due (book s) - Q\<rparr>"
    "none_lost (trace s') \<longleftrightarrow> none_lost (trace s)"
  using assms by (auto simp: sampled_def bookless_book bookless_lost)

text \<open>The calls around the loop and those that write, which may close.\<close>

definition lull :: "'w os \<Rightarrow> 'w os \<Rightarrow> bool" where
  "lull s s' \<longleftrightarrow> (\<exists>d. trace s' = trace s @ d \<and> list_all bookless d)"

lemma lull_trans: "lull s1 s2 \<Longrightarrow> lull s2 s3 \<Longrightarrow> lull s1 s3"
  unfolding lull_def by (metis append_assoc list_all_append)

interpretation lull: file_frame E lull
  for E :: "('n, 'w) env"
  by unfold_locales (auto simp: lull_def os_simps intro: lull_trans [unfolded lull_def] split: prod.splits option.splits)

interpretation lulled: session_frame E lull
  for E :: "('n, 'w) env"
  by unfold_locales (auto simp: lull_def os_simps split: prod.splits option.splits)

lemma quiet_lull: "quiet s s' \<Longrightarrow> lull s s' \<Longrightarrow> sampled {} s s'"
  by (auto simp: quiet_def lull_def sampled_def)

section \<open>Opening and describing\<close>

definition fds_of :: "'n perf_stat_group list \<Rightarrow> int set" where
  "fds_of gs = (\<Union>g \<in> set gs. ps_fd ` set (elems (pg_fds g)))"

definition leaders_of :: "'n perf_stat_group list \<Rightarrow> int set" where
  "leaders_of gs = (\<Union>g \<in> set gs. {fd. leader_fd g = Return fd})"

lemma leaders_of_simps [simp]:
  "fds_of [] = {}" "leaders_of [] = {}"
  "fds_of (g # gs) = ps_fd ` set (elems (pg_fds g)) \<union> fds_of gs"
  "leaders_of (g # gs) = {fd. leader_fd g = Return fd} \<union> leaders_of gs"
  by (simp_all add: fds_of_def leaders_of_def)

lemma leaders_fds: "leaders_of gs \<subseteq> fds_of gs"
proof -
  have "leader_fd g = Return fd \<Longrightarrow> fd \<in> ps_fd ` set (elems (pg_fds g))" for g :: "'a perf_stat_group" and fd
    by (auto simp: leader_fd_def first_def split: outcome.splits list.splits)
  then show ?thesis by (fastforce simp: leaders_of_def fds_of_def)
qed

lemma perf_event_open_enters:
  assumes "perf_event_open K attr pid cpu grp flags s = (r, s')" "bk_sound (book s')"
  shows "case r of Inl e \<Rightarrow> book s' = book s
    | Inr fd \<Rightarrow> fd \<noteq> -1 \<and> fd \<notin> bk_open (book s) \<and> book s' = (book s)\<lparr>bk_open := insert fd (bk_open (book s)),
        bk_leaders := (if grp = -1 then insert fd (bk_leaders (book s)) else bk_leaders (book s))\<rparr>"
proof -
  obtain ret where t: "trace s' = trace s @ [CPerfOpen attr pid cpu grp flags ret]"
    "r = (if ret < 0 then Inl (last_os_error K s') else Inr (as_i32 ret))"
    using perf_event_open_trace [OF assms(1)] by blast
  have "as_i32 ret = ret" if "0 \<le> ret" "ret < 2 ^ 31" using that as_i32_id [of ret] by simp
  with t assms(2) show ?thesis by (cases "ret < 0") auto
qed

lemma perf_event_open_not_lost:
  "perf_event_open K attr pid cpu grp flags s = (r, s') \<Longrightarrow> none_lost (trace s') \<longleftrightarrow> none_lost (trace s)"
  by (erule perf_event_open_trace) (simp add: none_lost_snoc)

text \<open>Closing counters strikes them off the book; none is lost if none is due.\<close>

definition strike :: "int set \<Rightarrow> book \<Rightarrow> book" where
  "strike F b = b\<lparr>bk_open := bk_open b - F, bk_leaders := bk_leaders b - F,
     bk_used := bk_used b - F, bk_due := bk_due b - F\<rparr>"

lemma strike_strike: "strike G (strike F b) = strike (F \<union> G) b"
  by (simp add: strike_def Diff_Un [symmetric]) (simp add: Diff_eq Int_assoc)

lemma close_all_strikes:
  "book (close_all K pss s) = strike (ps_fd ` set pss) (book s)
   \<and> (ps_fd ` set pss \<inter> bk_due (book s) = {} \<longrightarrow> none_lost (trace (close_all K pss s)) = none_lost (trace s))"
proof (induction pss arbitrary: s)
  case Nil
  then show ?case by (simp add: close_all_def strike_def)
next
  case (Cons ps pss)
  let ?s1 = "sys_close K (ps_fd ps) s"
  have b: "book ?s1 = strike {ps_fd ps} (book s)" by (simp add: os_simps strike_def)
  have "none_lost (trace ?s1) = none_lost (trace s)" if "ps_fd ps \<notin> bk_due (book s)"
    using that by (auto simp: os_simps none_lost_snoc)
  moreover have "ps_fd ` set pss \<inter> bk_due (book ?s1) = {}" if "ps_fd ` set (ps # pss) \<inter> bk_due (book s) = {}"
    using that unfolding b by (auto simp: strike_def)
  ultimately show ?case
    using Cons.IH [of ?s1] b by (simp add: close_all_def strike_strike)
qed

lemma drop_groups_strikes:
  "book (drop_groups K gs s) = strike (fds_of gs) (book s)
   \<and> (fds_of gs \<inter> bk_due (book s) = {} \<longrightarrow> none_lost (trace (drop_groups K gs s)) = none_lost (trace s))"
proof (induction gs arbitrary: s)
  case Nil
  then show ?case by (simp add: drop_groups_def strike_def)
next
  case (Cons g gs)
  let ?s1 = "group_drop K g s"
  note c = close_all_strikes [of K "elems (pg_fds g)" s, folded group_drop_def]
  have "fds_of gs \<inter> bk_due (book ?s1) = {}" if "fds_of (g # gs) \<inter> bk_due (book s) = {}"
    using that c by (auto simp: strike_def)
  with Cons.IH [of ?s1] c show ?case
    by (auto simp: drop_groups_def strike_strike Int_Un_distrib2)
qed

text \<open>Opening counters: those opened are new, and only the first of a group is a leader.\<close>

definition admit :: "int set \<Rightarrow> int set \<Rightarrow> book \<Rightarrow> book" where
  "admit L F b = b\<lparr>bk_open := bk_open b \<union> F, bk_leaders := bk_leaders b \<union> L\<rparr>"

lemma admit_admit [simp]: "admit L' F' (admit L F b) = admit (L \<union> L') (F \<union> F') b"
  by (simp add: admit_def Un_assoc)

lemma admit_empty [simp]: "admit {} {} b = b"
  by (simp add: admit_def)

text \<open>A book as the program leaves it.\<close>

definition tidy_book :: "book \<Rightarrow> bool" where
  "tidy_book b \<longleftrightarrow> bk_due b \<subseteq> bk_used b \<and> bk_used b \<subseteq> bk_leaders b \<and> bk_leaders b \<subseteq> bk_open b"

lemma strike_admit: "tidy_book b \<Longrightarrow> F \<inter> bk_open b = {} \<Longrightarrow> L \<subseteq> F \<Longrightarrow> strike F (admit L F b) = b"
proof -
  assume a: "tidy_book b" "F \<inter> bk_open b = {}" "L \<subseteq> F"
  then have "bk_due b \<subseteq> bk_open b" "bk_used b \<subseteq> bk_open b" "bk_leaders b \<subseteq> bk_open b"
    unfolding tidy_book_def by blast+
  then have "bk_open b \<union> F - F = bk_open b" "bk_leaders b \<union> L - F = bk_leaders b" "bk_used b - F = bk_used b"
    "bk_due b - F = bk_due b" using a(2,3) by blast+
  then show ?thesis by (simp add: strike_def admit_def)
qed

lemma open_rest_enters:
  "open_rest K pid l acc cs s = (r, s') \<Longrightarrow> l \<noteq> -1 \<Longrightarrow> bk_sound (book s') \<Longrightarrow> tidy_book b \<Longrightarrow>
   book s = admit L (ps_fd ` set acc) b \<Longrightarrow> L \<subseteq> ps_fd ` set acc \<Longrightarrow> ps_fd ` set acc \<inter> bk_open b = {} \<Longrightarrow>
   none_lost (trace s) = none_lost (trace s')
   \<and> (case r of Inl e \<Rightarrow> book s' = b
      | Inr pss \<Rightarrow> (\<exists>qss. pss = acc @ qss) \<and> book s' = admit L (ps_fd ` set pss) b \<and> ps_fd ` set pss \<inter> bk_open b = {})"
proof (induction cs arbitrary: acc s)
  case Nil
  then show ?case by auto
next
  case (Cons c cs)
  obtain r1 s1 where o: "perf_event_open K (pc_attr c) pid (-1) l PERF_FLAG_FD_CLOEXEC s = (r1, s1)" by force
  note l = perf_event_open_not_lost [OF o]
  show ?case
  proof (cases r1)
    case (Inl e)
    with Cons.prems(1) o have s': "r = Inl e" "s' = close_all K acc s1" by simp_all
    have "bk_sound (book s1)" using Cons.prems(3) close_all_strikes [of K acc s1] unfolding s' by (simp add: strike_def)
    with perf_event_open_enters [OF o] Inl have b1: "book s1 = book s" by simp
    with Cons.prems(5) have "book s1 = admit L (ps_fd ` set acc) b" by simp
    moreover from this have "ps_fd ` set acc \<inter> bk_due (book s1) = {}"
      using Cons.prems(4,7) by (auto simp: admit_def tidy_book_def)
    ultimately show ?thesis
      using close_all_strikes [of K acc s1] s' l strike_admit [OF Cons.prems(4,7,6)] by auto
  next
    case (Inr fd)
    let ?acc = "acc @ [\<lparr>ps_fd = fd, ps_name = pc_name c\<rparr>]"
    from Cons.prems(1) o Inr have rest: "open_rest K pid l ?acc cs s1 = (r, s')" by simp
    have "\<exists>d. trace s' = trace s1 @ d" using open_rest_trace [OF rest] by (auto split: sum.splits)
    then have "bk_sound (book s1)" using Cons.prems(3) sound_before by auto
    with perf_event_open_enters [OF o] Inr Cons.prems(2)
    have b1: "fd \<notin> bk_open (book s)" "book s1 = admit {} {fd} (book s)" by (auto simp: admit_def)
    have "book s1 = admit L (ps_fd ` set ?acc) b" using b1(2) Cons.prems(5) by (simp add: insert_commute)
    moreover have "L \<subseteq> ps_fd ` set ?acc" "ps_fd ` set ?acc \<inter> bk_open b = {}"
      using Cons.prems(5-7) b1(1) by (auto simp: admit_def)
    ultimately have "none_lost (trace s1) = none_lost (trace s')
      \<and> (case r of Inl e \<Rightarrow> book s' = b
         | Inr pss \<Rightarrow> (\<exists>qss. pss = ?acc @ qss) \<and> book s' = admit L (ps_fd ` set pss) b \<and> ps_fd ` set pss \<inter> bk_open b = {})"
      using Cons.IH [OF rest Cons.prems(2-4)] by blast
    with l show ?thesis by (auto split: sum.splits)
  qed
qed

lemma group_new_enters:
  assumes new: "group_new K cs pid s = (r, s')" and sound: "bk_sound (book s')" and tidy: "tidy_book (book s)"
  shows "none_lost (trace s) = none_lost (trace s')
    \<and> (case r of Inl e \<Rightarrow> book s' = book s
      | Inr g \<Rightarrow> book s' = admit (leaders_of [g]) (fds_of [g]) (book s) \<and> fds_of [g] \<inter> bk_open (book s) = {})"
proof (cases cs)
  case Nil
  with new show ?thesis by (auto simp: group_new_def)
next
  case (Cons c it)
  let ?attr = "(pc_attr c)\<lparr>attr_read_format := GROUP_READ_FORMAT\<rparr>"
  obtain r1 s1 where o: "perf_event_open K ?attr pid (-1) (-1) PERF_FLAG_FD_CLOEXEC s = (r1, s1)" by force
  note l = perf_event_open_not_lost [OF o]
  show ?thesis
  proof (cases r1)
    case (Inl e)
    with new Cons o have "r = Inl (error_from_io e)" "s' = s1" by (simp_all add: group_new_def Let_def)
    with perf_event_open_enters [OF o] sound Inl l show ?thesis by simp
  next
    case (Inr fd)
    let ?acc = "[\<lparr>ps_fd = fd, ps_name = pc_name c\<rparr>]"
    obtain r2 s2 where rest: "open_rest K pid fd ?acc it s1 = (r2, s2)" by force
    have s2: "s' = s2" using new Cons o Inr rest by (auto simp: group_new_def Let_def split: sum.splits option.splits)
    have "\<exists>d. trace s2 = trace s1 @ d" using open_rest_trace [OF rest] by (auto split: sum.splits)
    then have "bk_sound (book s1)" using sound sound_before s2 by auto
    with perf_event_open_enters [OF o] Inr
    have b1: "fd \<noteq> -1" "fd \<notin> bk_open (book s)" "book s1 = admit {fd} {fd} (book s)" by (auto simp: admit_def)
    have "book s1 = admit {fd} (ps_fd ` set ?acc) (book s)" "{fd} \<subseteq> ps_fd ` set ?acc" "ps_fd ` set ?acc \<inter> bk_open (book s) = {}"
      using b1 by auto
    note opened = open_rest_enters [OF rest b1(1) _ tidy this]
    show ?thesis
    proof (cases r2)
      case (Inl e)
      with new Cons o \<open>r1 = Inr fd\<close> rest have "r = Inl (error_from_io e)" by (simp add: group_new_def Let_def)
      with opened sound s2 l Inl show ?thesis by simp
    next
      case (Inr pss)
      with opened sound s2 obtain qss where pss: "pss = ?acc @ qss" by auto
      with new Cons o \<open>r1 = Inr fd\<close> rest Inr have "r = Inr \<lparr>pg_fds = NonEmpty pss\<rparr>"
        by (simp add: group_new_def Let_def from_iter_def)
      with opened sound s2 l Inr pss show ?thesis by (simp add: leader_fd_def first_def)
    qed
  qed
qed

lemma eprintln_book [simp]: "book (eprintln d s) = book s" "none_lost (cs @ [CStderr d]) = none_lost cs"
  by (simp_all add: eprintln_def none_lost_snoc)

lemma open_groups_enters:
  "open_groups E t cfgs s = (gs, s') \<Longrightarrow> bk_sound (book s') \<Longrightarrow> tidy_book (book s) \<Longrightarrow>
   none_lost (trace s') = none_lost (trace s) \<and> book s' = admit (leaders_of gs) (fds_of gs) (book s)
   \<and> fds_of gs \<inter> bk_open (book s) = {}"
proof (induction cfgs arbitrary: gs s)
  case Nil
  then show ?case by simp
next
  case (Cons cfg cfgs)
  obtain r s1 where new: "group_new (kern E) (elems cfg) (sint t) s = (r, s1)" by force
  have grows: "\<exists>d. trace s' = trace u @ d" if "open_groups E t cfgs u = (hs, s')" for hs u
    using open_groups_conserves [OF that] by (auto simp: conserves_def)
  show ?case
  proof (cases r)
    case (Inl e)
    let ?u = "eprintln (OpenEventsFailed t e) s1"
    have rest: "open_groups E t cfgs ?u = (gs, s')" using Cons.prems(1) new Inl by simp
    have "bk_sound (book ?u)" using grows [OF rest] Cons.prems(2) sound_before by auto
    with group_new_enters [OF new _ Cons.prems(3)] Inl have "none_lost (trace s1) = none_lost (trace s)" "book ?u = book s"
      by simp_all
    with Cons.IH [OF rest Cons.prems(2)] Cons.prems(3) show ?thesis by simp
  next
    case (Inr g)
    obtain hs where rest: "open_groups E t cfgs s1 = (hs, s')" "gs = g # hs"
      using Cons.prems(1) new Inr by (auto split: prod.splits)
    have "bk_sound (book s1)" using grows [OF rest(1)] Cons.prems(2) sound_before by auto
    with group_new_enters [OF new _ Cons.prems(3)] Inr
    have one: "none_lost (trace s1) = none_lost (trace s)" "book s1 = admit (leaders_of [g]) (fds_of [g]) (book s)"
      "fds_of [g] \<inter> bk_open (book s) = {}" by simp_all
    have "tidy_book (book s1)" using Cons.prems(3) leaders_fds [of "[g]"] one(2)
      by (auto simp: tidy_book_def admit_def)
    from Cons.IH [OF rest(1) Cons.prems(2) this] one rest(2) show ?thesis
      by (auto simp: admit_def Un_ac)
  qed
qed

text \<open>Asking for identifiers puts leaders in use, of the groups described and no others.\<close>

definition uses :: "int set \<Rightarrow> book \<Rightarrow> book \<Rightarrow> bool" where
  "uses F b b' \<longleftrightarrow> bk_open b' = bk_open b \<and> bk_leaders b' = bk_leaders b \<and> bk_sound b' = bk_sound b
     \<and> bk_used b' \<subseteq> bk_used b \<union> (F \<inter> bk_leaders b) \<and> bk_due b' \<subseteq> bk_due b \<union> bk_used b'
     \<and> bk_used b \<subseteq> bk_used b'"

lemma uses_refl [simp]: "uses {} b b"
  by (simp add: uses_def)

lemma uses_trans: "uses F b b1 \<Longrightarrow> uses G b1 b2 \<Longrightarrow> uses (F \<union> G) b b2"
  unfolding uses_def by blast

lemma sampled_uses: "sampled R s s' \<Longrightarrow> uses {} (book s) (book s') \<and> (none_lost (trace s') = none_lost (trace s))"
  by (erule sampled_book) (auto simp: uses_def)

lemma name_and_id_uses:
  assumes "name_and_id K ps s = (r, s')"
  shows "uses {ps_fd ps} (book s) (book s') \<and> none_lost (trace s') = none_lost (trace s)"
proof -
  obtain ret v where "trace s' = trace s @ [CIoctlId (ps_fd ps) ret v]"
    using assms by (auto simp: name_and_id_def get_id_def split: prod.splits if_splits dest!: sys_ioctl_id_trace)
  then show ?thesis by (auto simp: uses_def none_lost_snoc)
qed

lemma write_desc_sampled:
  fixes E :: "('n, 'w) env"
  assumes "write_desc (kern E) i n t c s = (r, c', s')"
  shows "sampled {} s s'"
  by (rule quiet_lull [OF quiet_write_desc [OF assms] lull.kept_write_desc [OF assms]])

lemma describe_group_uses:
  "describe_group E t pss c s = (c', s') \<Longrightarrow>
     uses (ps_fd ` set pss) (book s) (book s') \<and> none_lost (trace s') = none_lost (trace s)"
proof (induction pss arbitrary: c s)
  case Nil
  then show ?case by simp
next
  case (Cons ps pss)
  obtain r s1 where n: "name_and_id (kern E) ps s = (r, s1)" by force
  note one = name_and_id_uses [OF n]
  have "\<exists>c2 s2. describe_group E t pss c2 s2 = (c', s') \<and> uses {} (book s1) (book s2)
      \<and> none_lost (trace s2) = none_lost (trace s1)"
  proof (cases r)
    case (Inl e)
    with Cons.prems n show ?thesis by (intro exI [of _ c] exI [of _ s1]) simp
  next
    case (Inr v)
    obtain nm i where v: "v = (nm, i)" by force
    obtain q c2 s2 where w: "write_desc (kern E) i (name_str E nm) t c s1 = (q, c2, s2)" by (metis prod_cases3)
    from sampled_uses [OF write_desc_sampled [OF w]] Cons.prems n Inr v w show ?thesis
      by (cases q) (auto intro!: exI)
  qed
  then obtain c2 s2 where two: "describe_group E t pss c2 s2 = (c', s')" "uses {} (book s1) (book s2)"
    "none_lost (trace s2) = none_lost (trace s1)" by blast
  from uses_trans [OF uses_trans [OF conjunct1 [OF one] two(2)] conjunct1 [OF Cons.IH [OF two(1)]]]
    Cons.IH [OF two(1)] one two(3) show ?case by simp
qed

lemma describe_groups_uses:
  "describe_groups E t gs c s = (c', s') \<Longrightarrow>
     uses (fds_of gs) (book s) (book s') \<and> none_lost (trace s') = none_lost (trace s)"
proof (induction gs arbitrary: c s)
  case Nil
  then show ?case by simp
next
  case (Cons g gs)
  obtain c1 s1 where one: "describe_group E t (elems (pg_fds g)) c s = (c1, s1)" by force
  with Cons.prems have rest: "describe_groups E t gs c1 s1 = (c', s')" by simp
  from uses_trans [OF conjunct1 [OF describe_group_uses [OF one]] conjunct1 [OF Cons.IH [OF rest]]]
    describe_group_uses [OF one] Cons.IH [OF rest] show ?case by simp
qed

section \<open>Reading\<close>

lemma ensure_sized_sampled: "ensure_sized K cnt rd s = (out, rd', s') \<Longrightarrow> sampled {} s s'"
  by (auto simp: ensure_sized_def Let_def split: option.splits if_splits prod.splits
      simp: sampled_def dest!: sys_alloc_trace sys_realloc_trace)

lemma group_read_sampled:
  assumes "group_read K Z g a buf s = (out, buf', s')"
  shows "sampled {} s s' \<and> (returns out \<longrightarrow> sampled (leaders_of [g]) s s')"
proof (cases "leader_fd g")
  case (Return fd)
  obtain ret bs s1 where call: "sys_read K fd (length buf) s = (ret, bs, s1)" by (metis prod_cases3)
  with assms Return have "s' = s1" by (auto simp: group_read_def Let_def)
  with sys_read_trace [OF call] have "sampled (leaders_of [g]) s s'" by (auto simp: sampled_def Return)
  with sampled_less [OF this] show ?thesis by simp
qed (use assms in \<open>auto simp: group_read_def\<close>)

lemma read_group_sampled:
  assumes "read_group K Z g rd s = (out, rd', s')"
  shows "sampled {} s s' \<and> (returns out \<longrightarrow> sampled (leaders_of [g]) s s')"
proof -
  obtain o1 rd1 s1 where sized: "ensure_sized K (group_len g) rd s = (o1, rd1, s1)" by (metis prod_cases3)
  note one = ensure_sized_sampled [OF sized]
  show ?thesis
  proof (cases "\<exists>u b. o1 = Return u \<and> rd1 = Some b")
    case False
    with sized assms one show ?thesis by (cases o1; cases rd1) (auto simp: read_group_def)
  next
    case True
    then obtain u b where ub: "o1 = Return u" "rd1 = Some b" by blast
    obtain o2 buf s2 where rd: "group_read K Z g (blk_addr b) (take (necessary_buffer_size (group_len g)) (blk_mem b)) s1
        = (o2, buf, s2)" by (metis prod_cases3)
    note two = group_read_sampled [OF rd]
    have "s' = s2" "returns out \<Longrightarrow> returns o2"
      using assms sized ub rd by (auto simp: read_group_def Let_def split: outcome.splits)
    with two sampled_trans [OF one, of _ s2] show ?thesis by fastforce
  qed
qed

lemma write_sample_sampled: "write_sample E rid ts info es c s = (c', s') \<Longrightarrow> sampled {} s s'"
  by (rule quiet_lull [OF quiet_write_sample lull.kept_write_sample])

lemma timestamp_sampled: "timestamp E s = (ts, s') \<Longrightarrow> sampled {} s s'"
  by (auto simp: timestamp_def split: prod.splits simp: sampled_def dest!: sys_now_trace)

lemma eprintln_sampled: "sampled {} s (eprintln d s)"
  by (simp add: sampled_def eprintln_def)

lemma flush_groups_sampled:
  "flush_groups E gs t rd c rid s = (out, rd', c', rid', s') \<Longrightarrow>
     sampled {} s s' \<and> (returns out \<longrightarrow> sampled (leaders_of gs) s s')"
proof (induction gs arbitrary: rd c rid s)
  case Nil
  then show ?case by simp
next
  case (Cons g gs)
  obtain ts s1 where now: "timestamp E s = (ts, s1)" by force
  obtain r rd1 s2 where read: "read_group (kern E) (casts E) g rd s1 = (r, rd1, s2)" by (metis prod_cases3)
  note clock = timestamp_sampled [OF now] and one = read_group_sampled [OF read]
  from sampled_trans [OF clock conjunct1 [OF one]] have any: "sampled {} s s2" by simp
  show ?case
  proof (cases r)
    case (Return v)
    with sampled_trans [OF clock, of "leaders_of [g]" s2] one have here: "sampled (leaders_of [g]) s s2" by simp
    have "\<exists>c1 s3. flush_groups E gs t rd1 c1 (rid + 1) s3 = (out, rd', c', rid', s') \<and> sampled {} s2 s3"
    proof (cases v)
      case (Inl e)
      with Cons.prems now read Return eprintln_sampled show ?thesis by auto
    next
      case (Inr p)
      obtain info es where p: "p = (info, es)" by force
      obtain c1 s3 where w: "write_sample E rid ts info es c s2 = (c1, s3)" by force
      with write_sample_sampled [OF w] Cons.prems now read Return Inr p show ?thesis by auto
    qed
    then obtain c1 s3 where rest: "flush_groups E gs t rd1 c1 (rid + 1) s3 = (out, rd', c', rid', s')"
      "sampled {} s2 s3" by blast
    note two = Cons.IH [OF rest(1)] and upto = sampled_trans [OF here rest(2)]
    from sampled_trans [OF upto, of "{}" s'] sampled_trans [OF upto, of "leaders_of gs" s'] two
    show ?thesis by (auto intro: sampled_less)
  qed (use Cons.prems now read any in auto)
qed

section \<open>The state and its book\<close>

definition state_leaders :: "'n state \<Rightarrow> int set" where
  "state_leaders st = {fd. \<exists>t gs. map_of (groups st) t = Some gs \<and> fd \<in> leaders_of gs}"

definition held_fds :: "'n state \<Rightarrow> int set" where
  "held_fds st = {fd. \<exists>t gs. map_of (groups st) t = Some gs \<and> fd \<in> fds_of gs}"

definition apart :: "'n state \<Rightarrow> bool" where
  "apart st \<longleftrightarrow> (\<forall>t u gs hs. map_of (groups st) t = Some gs \<longrightarrow> map_of (groups st) u = Some hs \<longrightarrow> t \<noteq> u \<longrightarrow>
     fds_of gs \<inter> fds_of hs = {})"

text \<open>
  The invariant: if the book is sound, nothing was lost, the leaders in use are leaders of threads
  in the state, and no two threads there share a counter.
\<close>

definition covered :: "'n state \<Rightarrow> 'w os \<Rightarrow> bool" where
  "covered st s \<longleftrightarrow> (bk_sound (book s) \<longrightarrow> none_lost (trace s) \<and> tidy_book (book s)
     \<and> bk_used (book s) \<subseteq> state_leaders st \<and> held_fds st \<subseteq> bk_open (book s) \<and> apart st)"

lemma tidy_sampled: "tidy_book b \<Longrightarrow> tidy_book (b\<lparr>bk_due := bk_due b - Q\<rparr>)"
  by (auto simp: tidy_book_def)

lemma covered_sampled:
  assumes "covered st s" "sampled R s s'" "groups st' = groups st"
  shows "covered st' s'"
proof -
  obtain Q where "book s' = (book s)\<lparr>bk_due := bk_due (book s) - Q\<rparr>" "none_lost (trace s') = none_lost (trace s)"
    using sampled_book [OF assms(2)] by blast
  with assms(1,3) show ?thesis
    by (simp add: covered_def tidy_sampled state_leaders_def held_fds_def apart_def)
qed

lemma state_lookup: "map_of (groups st) t = Some gs \<Longrightarrow> leaders_of gs \<subseteq> state_leaders st \<and> fds_of gs \<subseteq> held_fds st"
  by (auto simp: state_leaders_def held_fds_def)

lemma open_tid_covered:
  assumes cov: "covered st s" and op: "open_tid E t st s = (st', s')"
  shows "covered st' s'"
proof (cases "map_of (groups st) t")
  case (Some gs)
  with op cov show ?thesis by (simp add: open_tid_def)
next
  case None
  obtain gs s1 where og: "open_groups E t (event_configs st) s = (gs, s1)" by force
  obtain c s2 where dg: "describe_groups E t gs (csv st) s1 = (c, s2)" by force
  have st': "groups st' = AList.update t gs (groups st)" "s' = s2"
    using op None og dg by (auto simp: open_tid_def)
  have look: "map_of (groups st') u = (if u = t then Some gs else map_of (groups st) u)" for u
    by (simp add: st' update_conv')
  show ?thesis
    unfolding covered_def
  proof
    assume sound: "bk_sound (book s')"
    note two = describe_groups_uses [OF dg]
    have sound1: "bk_sound (book s1)" using sound two by (simp add: st' uses_def)
    then have "bk_sound (book s)" using open_groups_conserves [OF og] sound_before by (auto simp: conserves_def)
    with cov have inv: "none_lost (trace s)" "tidy_book (book s)" "bk_used (book s) \<subseteq> state_leaders st"
      "held_fds st \<subseteq> bk_open (book s)" "apart st" by (simp_all add: covered_def)
    from open_groups_enters [OF og sound1 inv(2)]
    have one: "none_lost (trace s1)" "book s1 = admit (leaders_of gs) (fds_of gs) (book s)" "fds_of gs \<inter> bk_open (book s) = {}"
      using inv(1) by simp_all
    have flags: "held_fds st' = fds_of gs \<union> held_fds st" "state_leaders st' = leaders_of gs \<union> state_leaders st"
      using None by (auto simp: held_fds_def state_leaders_def look split: if_splits) (metis option.distinct(1))+
    have b2: "bk_open (book s2) = bk_open (book s) \<union> fds_of gs" "bk_leaders (book s2) = bk_leaders (book s) \<union> leaders_of gs"
      "bk_used (book s2) \<subseteq> bk_used (book s) \<union> (fds_of gs \<inter> (bk_leaders (book s) \<union> leaders_of gs))"
      "bk_due (book s2) \<subseteq> bk_due (book s) \<union> bk_used (book s2)" "bk_used (book s) \<subseteq> bk_used (book s2)"
      using two one(2) by (simp_all add: uses_def admit_def)
    have "fds_of gs \<inter> bk_leaders (book s) = {}" using one(3) inv(2) by (auto simp: tidy_book_def)
    then have used: "bk_used (book s2) \<subseteq> bk_used (book s) \<union> leaders_of gs" using b2(3) by blast
    have "tidy_book (book s2)"
      using inv(2) b2 used leaders_fds [of gs] by (auto simp: tidy_book_def)
    moreover have "apart st'"
      using inv(4,5) one(3) None by (auto simp: apart_def look held_fds_def split: if_splits) blast+
    ultimately show "none_lost (trace s') \<and> tidy_book (book s') \<and> bk_used (book s') \<subseteq> state_leaders st'
        \<and> held_fds st' \<subseteq> bk_open (book s') \<and> apart st'"
      using two one(1) used inv(3,4) flags b2(1) by (auto simp: st')
  qed
qed

lemma flush_into_sampled:
  "flush_into E gs t st s = (out, st', s') \<Longrightarrow>
     sampled {} s s' \<and> (returns out \<longrightarrow> sampled (leaders_of gs) s s') \<and> groups st' = groups st"
  by (auto simp: flush_into_def split: prod.splits dest: flush_groups_sampled)

lemma close_tid_covered:
  assumes cov: "covered st s" and cl: "close_tid E t st s = (out, st', s')" and ret: "returns out"
  shows "covered st' s'"
proof (cases "map_of (groups st) t")
  case None
  with cl cov show ?thesis by (simp add: close_tid_def)
next
  case (Some gs)
  obtain st1 s1 where fl: "flush_into E gs t (st\<lparr>groups := AList.delete t (groups st)\<rparr>) s = (out, st1, s1)"
    and st': "st' = st1" "s' = drop_groups (kern E) gs s1"
    using cl Some by (auto simp: close_tid_def split: prod.splits)
  note one = flush_into_sampled [OF fl]
  then obtain Q where Q: "leaders_of gs \<subseteq> Q" "book s1 = (book s)\<lparr>bk_due := bk_due (book s) - Q\<rparr>"
    "none_lost (trace s1) = none_lost (trace s)" using ret sampled_book by blast
  have look: "map_of (groups st') u = (if u = t then None else map_of (groups st) u)" for u
    using one by (simp add: st' delete_conv')
  note two = drop_groups_strikes [of "kern E" gs s1, folded st'(2)]
  show ?thesis
    unfolding covered_def
  proof
    assume "bk_sound (book s')"
    then have "bk_sound (book s)" using two Q(2) by (simp add: strike_def)
    with cov have inv: "none_lost (trace s)" "tidy_book (book s)" "bk_used (book s) \<subseteq> state_leaders st"
      "held_fds st \<subseteq> bk_open (book s)" "apart st" by (simp_all add: covered_def)
    have others: "fds_of gs \<inter> fds_of hs = {}" if "map_of (groups st) u = Some hs" "u \<noteq> t" for u hs
      using inv(5) Some that by (auto simp: apart_def)
    have mine: "state_leaders st \<inter> fds_of gs \<subseteq> leaders_of gs"
    proof
      fix fd assume "fd \<in> state_leaders st \<inter> fds_of gs"
      then obtain u hs where "map_of (groups st) u = Some hs" "fd \<in> leaders_of hs" "fd \<in> fds_of gs"
        by (auto simp: state_leaders_def)
      with others [of u hs] leaders_fds [of hs] Some show "fd \<in> leaders_of gs" by (cases "u = t") auto
    qed
    have "fds_of gs \<inter> bk_due (book s1) = {}"
      using mine inv(2,3) Q(1,2) by (auto simp: tidy_book_def)
    with two Q(3) inv(1) have "none_lost (trace s')" by simp
    moreover have b: "book s' = strike (fds_of gs) ((book s)\<lparr>bk_due := bk_due (book s) - Q\<rparr>)" using two Q(2) by simp
    have "tidy_book (book s')" unfolding b using inv(2) by (auto simp: tidy_book_def strike_def)
    moreover have "bk_used (book s') \<subseteq> state_leaders st'"
    proof
      fix fd assume "fd \<in> bk_used (book s')"
      then have "fd \<in> state_leaders st" "fd \<notin> fds_of gs" using inv(3) by (auto simp: b strike_def)
      then obtain u hs where "map_of (groups st) u = Some hs" "fd \<in> leaders_of hs" "fd \<notin> fds_of gs"
        by (auto simp: state_leaders_def)
      moreover from this Some leaders_fds [of gs] have "u \<noteq> t" by auto
      ultimately show "fd \<in> state_leaders st'" using look by (force simp: state_leaders_def)
    qed
    moreover have "held_fds st' \<subseteq> bk_open (book s')"
      using inv(4) others by (auto simp: b strike_def held_fds_def look split: if_splits)
    moreover have "apart st'" using inv(5) by (simp add: apart_def look)
    ultimately show "none_lost (trace s') \<and> tidy_book (book s') \<and> bk_used (book s') \<subseteq> state_leaders st'
        \<and> held_fds st' \<subseteq> bk_open (book s') \<and> apart st'" by simp
  qed
qed

section \<open>The handlers\<close>

definition leaders_at :: "'n state \<Rightarrow> i32 \<Rightarrow> int set" where
  "leaders_at st t = (case map_of (groups st) t of None \<Rightarrow> {} | Some gs \<Rightarrow> leaders_of gs)"

lemma flush_tids_sampled:
  "flush_tids E ts st s = (out, st', s') \<Longrightarrow>
     sampled {} s s' \<and> (returns out \<longrightarrow> sampled (\<Union>t \<in> set ts. leaders_at st t) s s') \<and> groups st' = groups st"
proof (induction ts arbitrary: st s)
  case Nil
  then show ?case by simp
next
  case (Cons t ts)
  let ?gs = "case map_of (groups st) t of None \<Rightarrow> [] | Some gs \<Rightarrow> gs"
  obtain o1 st1 s1 where fl: "flush_into E ?gs t st s = (o1, st1, s1)" by (metis prod_cases3)
  have here: "leaders_of ?gs = leaders_at st t" by (simp add: leaders_at_def split: option.split)
  note one = flush_into_sampled [OF fl, unfolded here]
  show ?case
  proof (cases o1)
    case (Return u)
    with Cons.prems fl have "flush_tids E ts st1 s1 = (out, st', s')" by simp
    note two = Cons.IH [OF this]
    have "leaders_at st1 = leaders_at st" using one by (auto simp: leaders_at_def)
    with one two Return sampled_trans [of "{}" s s1 "{}" s'] sampled_trans [of "leaders_at st t" s s1 _ s'] show ?thesis
      by auto
  qed (use Cons.prems fl one in auto)
qed

lemma flush_all_sampled:
  assumes "flush_all E st s = (out, st', s')"
  shows "sampled {} s s' \<and> groups st' = groups st
    \<and> (map_order_laws E \<longrightarrow> returns out \<longrightarrow> sampled (state_leaders st) s s')"
proof -
  have "state_leaders st \<subseteq> (\<Union>t \<in> set (map_order E (map fst (groups st))). leaders_at st t)" if "map_order_laws E"
  proof -
    have "set (map_order E (map fst (groups st))) = fst ` set (groups st)"
      using that by (metis list.set_map map_order_laws_def set_mset_mset)
    moreover have "leaders_at st t = leaders_of gs \<and> t \<in> fst ` set (groups st)" if "map_of (groups st) t = Some gs" for t gs
      using that by (force simp: leaders_at_def dest: map_of_SomeD)
    ultimately show ?thesis by (fastforce simp: state_leaders_def)
  qed
  with flush_tids_sampled [OF assms [unfolded flush_all_def]] sampled_less show ?thesis by blast
qed

lemma message_read_sampled: "message_read K q s = (r, s') \<Longrightarrow> sampled {} s s'"
  by (auto simp: message_read_def mq_read_def sampled_def split: prod.splits if_splits dest!: sys_mq_receive_trace)

lemma queue_handler_covered:
  assumes "covered st s" "queue_handler E mq st s = (out, mq', st', s')" "returns out"
  shows "covered st' s'"
proof -
  obtain r s1 where read: "message_read (kern E) mq s = (r, s1)" by force
  note cov = covered_sampled [OF assms(1) message_read_sampled [OF read] HOL.refl]
  note said = covered_sampled [OF cov eprintln_sampled HOL.refl]
  from assms(2,3) read said show ?thesis
    by (auto simp: queue_handler_def split: outcome.splits sum.splits message_flag.splits prod.splits
        dest: open_tid_covered [OF cov] close_tid_covered [OF cov])
qed

lemma timer_handler_covered:
  assumes "covered st s" "timer_handler E t st s = (out, t', st', s')"
  shows "covered st' s'"
proof -
  obtain r s1 where read: "timer_read (kern E) t s = (r, s1)" by force
  have "sampled {} s s1"
    by (rule quiet_lull [OF inert_quiet [OF inert_timer_read [OF read]] lull.kept_timer_read [OF read]])
  note cov = covered_sampled [OF assms(1) this HOL.refl]
  note said = covered_sampled [OF cov eprintln_sampled HOL.refl]
  have flushed: "covered st2 s3" if "flush_all E st s2 = (o2, st2, s3)" "covered st s2" for o2 st2 s2 s3
    using flush_all_sampled [OF that(1)] covered_sampled [OF that(2)] by blast
  from assms(2) read cov said show ?thesis
    by (auto simp: timer_handler_def Let_def split: outcome.splits sum.splits prod.splits if_splits dest: flushed)
qed

lemma source_handler_covered:
  assumes "covered st s" "source_handler E p st s = (out, p', st', s')" "returns out"
  shows "covered st' s'"
proof (cases p)
  case (PSignal sfd)
  obtain o1 r st1 s1 where h: "signal_handler E sfd st s = (o1, r, st1, s1)" by (metis prod_cases4)
  note step = signal_handler_step [OF h]
  then have "sampled {} s s1" using quiet_lull [OF inert_quiet lull.kept_signal_handler [OF h]] by blast
  with covered_sampled [OF assms(1)] step assms(2) PSignal h show ?thesis by (auto simp: source_handler_def)
qed (use assms in \<open>auto simp: source_handler_def split: prod.splits
    dest: queue_handler_covered timer_handler_covered\<close>)

section \<open>The program\<close>

text \<open>Before the loop no leader is known; after the last flush no read is due.\<close>

definition clear :: "'w os \<Rightarrow> bool" where
  "clear s \<longleftrightarrow> none_lost (trace s) \<and> bk_leaders (book s) = {} \<and> bk_used (book s) = {} \<and> bk_due (book s) = {}"

definition paid :: "'w os \<Rightarrow> bool" where
  "paid s \<longleftrightarrow> (bk_sound (book s) \<longrightarrow> none_lost (trace s) \<and> bk_due (book s) = {})"

lemma bookless_steps:
  "list_all bookless d \<Longrightarrow> bk_sound (fold enter d b) = bk_sound b \<and> bk_leaders (fold enter d b) \<subseteq> bk_leaders b
     \<and> bk_used (fold enter d b) \<subseteq> bk_used b \<and> bk_due (fold enter d b) \<subseteq> bk_due b"
proof (induction d arbitrary: b)
  case (Cons c d)
  have "bk_sound (enter c b) = bk_sound b \<and> bk_leaders (enter c b) \<subseteq> bk_leaders b \<and> bk_used (enter c b) \<subseteq> bk_used b
      \<and> bk_due (enter c b) \<subseteq> bk_due b"
    using Cons.prems by (cases c) auto
  with Cons.IH [of "enter c b"] Cons.prems show ?case by auto
qed simp

lemma bookless_none_lost:
  "list_all bookless d \<Longrightarrow> none_lost cs \<Longrightarrow> bk_due (book_of cs) = {} \<Longrightarrow> none_lost (cs @ d)"
proof (induction d arbitrary: cs)
  case (Cons c d)
  have "bk_due (book_of (cs @ [c])) = {}" using bookless_steps [of "[c]" "book_of cs"] Cons.prems by simp
  moreover have "none_lost (cs @ [c])" using Cons.prems by (auto simp: none_lost_snoc)
  ultimately have "none_lost ((cs @ [c]) @ d)" using Cons by (intro Cons.IH) auto
  then show ?case by simp
qed simp

lemma clear_lull: "clear s \<Longrightarrow> lull s s' \<Longrightarrow> clear s'"
  using bookless_steps bookless_none_lost by (fastforce simp: clear_def lull_def)

lemma paid_lull: "paid s \<Longrightarrow> lull s s' \<Longrightarrow> paid s'"
  using bookless_steps bookless_none_lost by (fastforce simp: paid_def lull_def)

lemma epoll_ctl_sampled: "sys_epoll_ctl K epfd op fd ev s = (r, s') \<Longrightarrow> sampled {} s s'"
  by (auto simp: sampled_def dest!: sys_epoll_ctl_trace)

lemma epoll_wait_covered:
  assumes "sys_epoll_wait K epfd n t s = (r, evs, s')" "covered st s"
  shows "covered st s'"
  using assms(2) sys_epoll_wait_trace [OF assms(1)] by (auto simp: covered_def none_lost_snoc tidy_book_def)

interpretation sampler: staged_run E covered "\<lambda>_ _. True" lull
    "\<lambda>st s. groups st = [] \<and> clear s" "\<lambda>st s. map_order_laws E \<longrightarrow> paid s"
  for E :: "('n, 'w) env"
proof
  fix src src' :: "(pollable, 'n state, 'w) source" and c c' :: "'n state" and s s' :: "'w os" and out
  assume a: "monitor_source E src" "covered c s" "call_func src c s = (out, src', c', s')"
  then obtain r where "source_handler E (src_r src) c s = (out, r, c', s')" "src' = src\<lparr>src_r := r\<rparr>"
    by (auto simp: monitor_source_def call_func_def split: prod.splits)
  with a source_handler_covered show "monitor_source E src' \<and> True \<and> (returns out \<longrightarrow> covered c' s')"
    by (auto simp: monitor_source_def)
next
  fix st :: "'n state" and s s' :: "'w os"
  assume "groups st = [] \<and> clear s"
  then show "covered st s"
    by (simp add: covered_def clear_def tidy_book_def state_leaders_def held_fds_def apart_def)
next
  fix st :: "'n state" and s :: "'w os" and msg
  assume "covered st s"
  moreover have "sampled {} s (println msg s)" by (simp add: sampled_def println_def)
  ultimately show "covered st (println msg s)" by (rule covered_sampled) (rule HOL.refl)
next
  fix st st' :: "'n state" and s s' :: "'w os" and out
  assume a: "covered st s" "flush_all E st s = (out, st', s')"
  have "paid s'" if "map_order_laws E" "returns out"
  proof -
    have "sampled (state_leaders st) s s'" using flush_all_sampled [OF a(2)] that by simp
    then show ?thesis by (rule sampled_book) (use a(1) in \<open>auto simp: paid_def covered_def tidy_book_def\<close>)
  qed
  then show "True \<and> (returns out \<longrightarrow> map_order_laws E \<longrightarrow> paid s')" by simp
next
  fix st :: "'n state" and s s' :: "'w os" and epfd op fd ev r
  assume "covered st s" "sys_epoll_ctl (kern E) epfd op fd ev s = (r, s')"
  from covered_sampled [OF this(1) epoll_ctl_sampled [OF this(2)] HOL.refl] show "covered st s'" .
qed (auto intro: epoll_wait_covered clear_lull paid_lull)

lemma state_drop_lull:
  fixes E :: "('n, 'w) env" and s :: "'w os"
  shows "lull s (state_drop E st s)"
proof -
  have "lull t (reader_drop (kern E) rd t)" for rd and t :: "'w os"
    by (cases rd) (auto simp: reader_drop_def lull_def os_simps)
  from lull_trans [OF lull_trans [OF lulled.kept_drop_all this] lull.kept_csv_drop] show ?thesis
    unfolding state_drop_def .
qed

lemma state_scope_paid:
  assumes laws: "slab_laws (h_slab H)" "map_order_laws (h_env H)" and start: "clear s"
    and sc: "state_scope H a mq s = Some (Return u, s')"
  shows "paid s'"
proof -
  let ?E = "h_env H" let ?K = "kern ?E"
  obtain r1 s1 where parse: "parse_event_groups ?K (h_intern H) (join_with CHR '','' (events a)) s = (r1, s1)" by force
  then obtain cfgs where cfgs: "r1 = Return (Inr cfgs)"
    using sc by (auto simp: state_scope_def Let_def split: outcome.splits sum.splits)
  obtain r2 s2 where new: "state_new ?K cfgs (output_folder a) s1 = (r2, s2)" by force
  with sc parse cfgs obtain st where st: "r2 = Return st"
    by (auto simp: state_scope_def Let_def split: outcome.splits)
  obtain st' s3 where inner: "signal_scope H a mq st s2 = Some (Return u, st', s3)" and s': "s' = state_drop ?E st' s3"
    using sc parse cfgs new st by (auto simp: state_scope_def Let_def)
  have "groups st = []" using new st by (auto simp: state_new_def split: prod.splits sum.splits)
  moreover have "clear s2"
    using clear_lull [OF clear_lull [OF start lulled.kept_parse [OF parse]] lulled.kept_state_new [OF new]] .
  ultimately have "paid s3"
    using sampler.signal_scope_closed [OF refl laws(1) _ inner, unfolded sampler.closed_def] laws(2) by simp
  then show ?thesis unfolding s' by (rule paid_lull [OF _ state_drop_lull])
qed

lemma main_paid:
  assumes laws: "slab_laws (h_slab H)" "map_order_laws (h_env H)"
    and run: "main_body H a (boot w) = Some (Return u, s')"
  shows "paid s'"
proof -
  let ?K = "kern (h_env H)" let ?s0 = "println ''Parsed Args'' (boot w)"
  obtain r s1 where new: "mq_new ?K message_size MQ_NAME ?s0 = (r, s1)" by force
  then obtain mq where mq: "r = Inr mq" using run by (auto simp: main_body_def Let_def split: sum.splits)
  have "clear (boot w)" by (simp add: clear_def boot_def)
  from clear_lull [OF clear_lull [OF clear_lull [OF this lulled.kept_println] lulled.kept_mq_new [OF new]] lulled.kept_println]
  have start: "clear (println ''Opened Message Queue'' s1)" .
  obtain s2 where "state_scope H a mq (println ''Opened Message Queue'' s1) = Some (Return u, s2)" "s' = mq_drop ?K mq s2"
    using run new mq by (auto simp: main_body_def Let_def)
  with paid_lull [OF state_scope_paid [OF laws start] lulled.kept_mq_drop] show ?thesis by blast
qed

section \<open>When the book is sound\<close>

fun perf_rets :: "call list \<Rightarrow> int list" where
  "perf_rets [] = []"
| "perf_rets (CPerfOpen attr pid cpu grp flags ret # cs) = ret # perf_rets cs"
| "perf_rets (c # cs) = perf_rets cs"

lemma perf_rets_append [simp]: "perf_rets (cs @ ds) = perf_rets cs @ perf_rets ds"
  by (induction cs rule: perf_rets.induct) auto

lemma bookless_rets: "list_all bookless d \<Longrightarrow> perf_rets d = []"
  by (induction d rule: perf_rets.induct) auto

lemma lull_rets: "lull s s' \<Longrightarrow> perf_rets (trace s') = perf_rets (trace s)"
  by (auto simp: lull_def bookless_rets)

text \<open>The book is sound if the kernel gave each counter another number.\<close>

lemma sound_if_distinct:
  "distinct (perf_rets cs) \<Longrightarrow> \<forall>r \<in> set (perf_rets cs). r < 2 ^ 31 \<Longrightarrow>
     bk_sound (book_of cs) \<and> bk_open (book_of cs) \<subseteq> set (perf_rets cs)"
proof (induction cs rule: rev_induct)
  case (snoc c cs)
  then have ih: "bk_sound (book_of cs)" "bk_open (book_of cs) \<subseteq> set (perf_rets cs)" by auto
  have id: "as_i32 r = r" if "0 \<le> r" "r < 2 ^ 31" for r using that as_i32_id [of r] by simp
  show ?case
  proof (cases c)
    case (CPerfOpen attr pid cpu grp flags ret)
    with ih snoc.prems id [of ret] show ?thesis by (cases "ret < 0") auto
  qed (use ih in auto)
qed simp

section \<open>A tick\<close>

text \<open>
  \<^bold>\<open>C14.\<close> Every tick is a sample of everything. When the timer has expired and a flush cannot fail,
  the handler of the timer reads the leader of every group of every watched thread, opens and closes
  nothing, says so when it fell behind, and answers that the loop go on.
\<close>

theorem tick_reads_every_group:
  assumes "sound_laws (kern E)" "map_order_laws E" "sound st" "timer_read (kern E) t s = (Inr n, s1)"
    and "timer_handler E t st s = (out, t', st', s')"
  shows "out = Return (Inr Continue) \<and> groups st' = groups st \<and> (\<exists>d. trace s' = trace s1 @ d
    \<and> state_leaders st \<subseteq> reads_of d \<and> fds_opened d = {#} \<and> fds_closed d = {#}
    \<and> (n \<noteq> 1 \<longrightarrow> CStderr (FlushFellBehind n) \<in> set d))"
proof -
  define s2 where "s2 = (if n \<noteq> 1 then eprintln (FlushFellBehind n) s1 else s1)"
  obtain o1 st1 s3 where fl: "flush_all E st s2 = (o1, st1, s3)" by (metis prod_cases3)
  have ret: "o1 = Return ()" using flush_all_sound [OF assms(1,3) fl] by simp
  with assms(4,5) fl have res: "out = Return (Inr Continue)" "st' = st1" "s' = s3"
    by (simp_all add: timer_handler_def s2_def Let_def)
  from flush_all_sampled [OF fl] assms(2) ret obtain d where d: "trace s3 = trace s2 @ d" "fds_closed d = {#}"
      "state_leaders st \<subseteq> reads_of d" "groups st1 = groups st" by (auto simp: sampled_def)
  have "fds_opened d = {#}" using flush_all_quiet [OF fl] d(1) by (auto simp: quiet_def)
  with d res show ?thesis
    by (intro conjI exI [of _ "(if n \<noteq> 1 then [CStderr (FlushFellBehind n)] else []) @ d"])
      (auto simp: s2_def eprintln_def)
qed

theorem tick_reads_every_group_witness:
  "\<exists>st' s'. timer_handler idle_env \<lparr>timer_raw = 5\<rparr> one_thread (boot ()) = (Return (Inr Continue), \<lparr>timer_raw = 5\<rparr>, st', s')
    \<and> 7 \<in> reads_of (trace s')"
proof -
  let ?t = "\<lparr>timer_raw = 5\<rparr>" and ?K = "kern idle_env"
  obtain r bs s1 where call: "sys_read ?K (timer_raw ?t) 8 (boot ()) = (r, bs, s1)" by (metis prod_cases3)
  then have "r = 8" by (auto simp: os_simps idle_env_def idle_kernel_def)
  with call obtain n where rd: "timer_read ?K ?t (boot ()) = (Inr n, s1)" by (auto simp: timer_read_def)
  obtain out t' st' s' where h: "timer_handler idle_env ?t one_thread (boot ()) = (out, t', st', s')" by (metis prod_cases4)
  have "whole_messages ?K" by (auto simp: whole_messages_def idle_env_def idle_kernel_def split: prod.splits)
  then have laws: "sound_laws ?K" using idle_env_laws by (simp add: sound_laws_def)
  have "sound one_thread"
    by (simp add: sound_def one_thread_def no_state_def healthy_def healthy_group_def reader_new_def small_configs_def
        reader_aligned_def countable_group_def group_len_def header_size_def entry_size_def)
  from tick_reads_every_group [OF laws idle_env_laws(3) this rd h]
  have "out = Return (Inr Continue)" "state_leaders one_thread \<subseteq> reads_of (trace s')" by auto
  moreover have "7 \<in> state_leaders one_thread"
    by (simp add: state_leaders_def one_thread_def leader_fd_def first_def)
  moreover have "t' = ?t" using timer_handler_step [OF h] h rd by (auto simp: timer_handler_def Let_def split: prod.splits outcome.splits)
  ultimately show ?thesis using h by auto
qed

end
