(* ===== verification/Recorded_Files.thy ===== *)
theory Recorded_Files
  imports Recording Last_Samples
begin

text \<open>
  The files of a run of the program record what the kernel delivered (\<open>Recording\<close>), and can be read
  back; and a run of the program in which a thread is watched, sampled and described.
\<close>

section \<open>A run with a sample\<close>

text \<open>
  In the first round the queue announces thread 42 and then SIGINT is pending; every counter is
  opened at descriptor 7 with identifier 3 and reads 5.
\<close>

definition busy_sample :: "byte list" where
  "busy_sample = sample \<lparr>nr = 1, time_enabled = 9, time_running = 7\<rparr> [\<lparr>ev_value = 5, ev_id = 3\<rparr>]"

definition busy_kernel :: "int kernel" where
  "busy_kernel = stop_kernel\<lparr>
     k_epoll_wait := (\<lambda>epfd n t w. (2, [\<lparr>ee_events = 1, ee_data = 1\<rparr>, \<lparr>ee_events = 1, ee_data = 0\<rparr>], w)),
     k_mq_receive := (\<lambda>fd n w. if n = message_size
        then (8, message_image \<lparr>m_tid = 42, m_flags = MESSAGE_FLAG_ADD_PROCESS\<rparr>, w) else (-1, [], w)),
     k_ioctl_id := (\<lambda>fd w. (0, 3, w)),
     k_now := (\<lambda>w. (1000, w)),
     k_read := (\<lambda>fd n w. if n = 40 then (40, busy_sample, w) else (int n, replicate n 0, w))\<rparr>"

definition busy_host ::
    "(string, unit, int, (nat \<times> (pollable, string state, int) source) list) host" where
  "busy_host = stop_host\<lparr>h_env := (h_env stop_host)\<lparr>kern := busy_kernel\<rparr>\<rparr>"

lemma busy_parts [simp]:
  "kern (h_env busy_host) = busy_kernel" "h_slab busy_host = assoc_slab" "h_intern busy_host = plain_interner"
  "casts (h_env busy_host) = sized_casts" "map_order (h_env busy_host) ks = ks" "name_str (h_env busy_host) n = n"
  by (simp_all add: busy_host_def stop_host_def)

lemma length_busy_sample [simp]: "length busy_sample = 40"
  by (simp add: busy_sample_def length_sample header_size_def entry_size_def)

lemma busy_laws: "recorder_laws busy_host stop_args (\<lambda>w. {0..<w})"
proof -
  have "sampling_laws (h_env busy_host)"
    by (auto simp: sampling_laws_def busy_kernel_def stop_kernel_def idle_kernel_def allocator_laws_def
        whole_reads_def writes_succeed_def sized_casts_laws)
  moreover have "whole_messages busy_kernel"
    by (auto simp: whole_messages_def busy_kernel_def msg.length_enc message_size_def)
  moreover have "file_laws busy_kernel (\<lambda>w. {0..<w})"
    by (auto simp: file_laws_def busy_kernel_def stop_kernel_def)
  ultimately show ?thesis
    by (simp add: recorder_laws_def assoc_slab_laws map_order_laws_def plain_interner_laws names_as_interned_def
        stop_args_def utf8_like_def continuation_def) (simp add: plain_interner_def)
qed

text \<open>The set-up, with no sample on the tape.\<close>

lemma busy_parse:
  assumes "pfm_cell s = None"
  shows "\<exists>cfg s'. parse_event_groups busy_kernel plain_interner ''a'' s = (Return (Inr [new_single cfg]), s')
     \<and> world s' = world s"
proof -
  have t: "trim ''a'' = ''a''" by (rule trim_plain) (simp_all add: plain_char_def)
  show ?thesis
    by (simp add: parse_event_groups_def parse_loop.simps scan_while.simps is_separator_def
        is_ascii_whitespace_def is_name_char_def str_slice_def is_char_boundary_def continuation_def t
        parse_bare_def plain_interner_def Let_def from_pfm_string_def get_perf_attr_array_def os_simps
        busy_kernel_def stop_kernel_def idle_kernel_def pfm_force_def assms PFM_SUCCESS_def) blast
qed

abbreviation rets :: "'w os \<Rightarrow> int list" where
  "rets s \<equiv> perf_rets (trace s)"

lemma busy_message:
  "\<exists>s1. message_read busy_kernel mq s = (Return (Inr \<lparr>m_tid = 42, m_flags = MESSAGE_FLAG_ADD_PROCESS\<rparr>), s1)
    \<and> steady s s1 \<and> rets s1 = rets s"
proof -
  obtain r bs s1 where call: "sys_mq_receive busy_kernel (mq_fd mq) message_size s = (r, bs, s1)" by (metis prod_cases3)
  then have r: "r = 8" "bs = message_image \<lparr>m_tid = 42, m_flags = MESSAGE_FLAG_ADD_PROCESS\<rparr>"
    by (auto simp: os_simps busy_kernel_def)
  have st: "steady s s1 \<and> rets s1 = rets s" using sys_mq_receive_trace [OF call] by (simp add: steady_def hushed_def)
  have "length bs = message_size" by (simp add: r msg.length_enc)
  from assume_init_full [OF this] call r st show ?thesis
    by (simp add: message_read_def mq_read_def message_size_def msg.dec_enc cast_unsigned_def)
qed

definition busy_group :: "string perf_config \<Rightarrow> string perf_stat_group" where
  "busy_group cfg = \<lparr>pg_fds = NonEmpty [\<lparr>ps_fd = 7, ps_name = pc_name cfg\<rparr>]\<rparr>"

lemma busy_open:
  assumes "groups st = []" "event_configs st = [new_single cfg]" "tp_time (tape s) = None"
  shows "\<exists>st' s'. open_tid (h_env busy_host) 42 st s = (st', s') \<and> groups st' = [(42, [busy_group cfg])]
    \<and> reader st' = reader st \<and> tp_attempts (tape s') = tp_attempts (tape s) \<and> tp_time (tape s') = None
    \<and> rets s' = rets s @ [7]"
proof -
  obtain s1 where op: "open_groups (h_env busy_host) 42 [new_single cfg] s = ([busy_group cfg], s1)"
      "tape s1 = (tape s)\<lparr>tp_tid := 42\<rparr>" "rets s1 = rets s @ [7]"
    by (simp add: group_new_def new_single_def Let_def perf_event_open_def os_simps busy_kernel_def stop_kernel_def
        idle_kernel_def from_iter_def busy_group_def as_i32_def)
  obtain s2 where id: "name_and_id busy_kernel \<lparr>ps_fd = 7, ps_name = pc_name cfg\<rparr> s1 = (Inr (pc_name cfg, 3), s2)"
      "tape s2 = (tape s1)\<lparr>tp_ids := tp_ids (tape s1) @ [(3, tp_tid (tape s1))]\<rparr>" "rets s2 = rets s1"
    by (simp add: name_and_id_def get_id_def os_simps busy_kernel_def)
  obtain r c s3 where w: "write_desc busy_kernel 3 (pc_name cfg) 42 (csv st) s2 = (r, c, s3)" by (metis prod_cases3)
  have "tape s3 = tape s2"
    using hush.kept_write_desc [where E = "h_env busy_host", simplified, OF w] op(2) id(2) assms(3) by (simp add: hushed_def)
  moreover have "rets s3 = rets s2" using lull_rets [OF lull.kept_write_desc [where E = "h_env busy_host", simplified, OF w]] .
  moreover have "tape (eprintln d s3) = tape s3" "rets (eprintln d s3) = rets s3" for d by (simp_all add: eprintln_def)
  ultimately show ?thesis using assms op id w
    by (cases r) (auto simp: open_tid_def busy_group_def)
qed

lemma busy_read:
  assumes "tp_time (tape s) = Some t"
  shows "\<exists>rd' s'. read_group busy_kernel sized_casts (busy_group cfg) None s =
      (Return (Inr (sample_view busy_sample)), rd', s')
    \<and> tape s' = (tape s)\<lparr>tp_time := None, tp_attempts := tp_attempts (tape s) @ [Some (t, sample_view busy_sample)]\<rparr>
    \<and> rets s' = rets s"
proof -
  let ?g = "busy_group cfg"
  have g: "group_len ?g = 1" "elems (pg_fds ?g) \<noteq> []" "ps_fd (hd (elems (pg_fds ?g))) = 7" "countable_group 1"
    by (simp_all add: busy_group_def group_len_def countable_group_def header_size_def entry_size_def)
  have n: "necessary_buffer_size 1 = 40"
    using necessary_buffer_size_exact [OF g(4)] by (simp add: header_size_def entry_size_def)
  obtain s1 where sized: "ensure_sized busy_kernel 1 None s = (Return (), Some \<lparr>blk_addr = 4096, blk_mem = uninit 40\<rparr>, s1)"
    using n by (simp add: ensure_sized_def get_layout_from_count_def os_simps busy_kernel_def stop_kernel_def idle_kernel_def)
  have len: "length (uninit 40) = header_size + group_len ?g * entry_size"
    by (simp add: g header_size_def entry_size_def uninit_def)
  obtain s2 where call: "sys_read busy_kernel 7 40 s1 = (40, busy_sample, s2)"
    by (simp add: os_simps busy_kernel_def)
  have init: "assume_init (fill (uninit 40) (map Some busy_sample)) = Return busy_sample"
    by (subst fill_exact) (simp_all add: uninit_def)
  have whole: "sys_read busy_kernel (ps_fd (hd (elems (pg_fds ?g)))) (length (uninit 40)) s1 = (40, busy_sample, s2)"
    using call by (simp add: g uninit_def)
  have addr: "8 dvd (4096 :: nat)" by simp
  from group_read_result [OF sized_casts_laws addr g(2) len whole _ init]
  have "group_read busy_kernel sized_casts ?g 4096 (uninit 40) s1 =
      (Return (Inr (header_of (take header_size busy_sample),
         map entry_of (chunks entry_size 1 (drop header_size busy_sample)))),
       fill (uninit 40) (map Some busy_sample), s2)" by (simp add: g)
  then have "\<exists>rd'. read_group busy_kernel sized_casts ?g None s = (Return (Inr (sample_view busy_sample)), rd', s2)"
    using sized n by (simp add: read_group_def g uninit_def sample_view_def viewed_def decoded_def header_size_def entry_size_def)
  moreover have "tape s2 = (tape s)\<lparr>tp_time := None, tp_attempts := tp_attempts (tape s) @ [Some (t, sample_view busy_sample)]\<rparr>"
    using sys_read_trace [OF call] ensure_sized_tape [OF sized] assms by simp
  moreover have "rets s2 = rets s"
    using sys_read_trace [OF call] ensure_sized_sampled [OF sized] by (auto simp: sampled_def bookless_rets)
  ultimately show ?thesis by blast
qed

lemma busy_flush:
  assumes "groups st = [(42, [busy_group cfg])]" "reader st = None" "tp_time (tape s) = None"
  shows "\<exists>st' s'. flush_all (h_env busy_host) st s = (Return (), st', s') \<and> groups st' = groups st \<and> tp_time (tape s') = None
    \<and> tp_attempts (tape s') = tp_attempts (tape s) @ [Some (1000, sample_view busy_sample)] \<and> rets s' = rets s"
proof -
  let ?E = "h_env busy_host"
  obtain s1 where now: "timestamp ?E s = (1000, s1)" "tape s1 = (tape s)\<lparr>tp_time := Some 1000\<rparr>" "rets s1 = rets s"
    by (simp add: timestamp_def os_simps busy_kernel_def)
  then obtain rd s2 where read: "read_group busy_kernel sized_casts (busy_group cfg) None s1 =
        (Return (Inr (sample_view busy_sample)), rd, s2)"
      "tape s2 = (tape s)\<lparr>tp_time := None, tp_attempts := tp_attempts (tape s) @ [Some (1000, sample_view busy_sample)]\<rparr>"
      "rets s2 = rets s"
    using busy_read [of s1 1000 cfg] by auto
  obtain info es where v: "sample_view busy_sample = (info, es)" by force
  obtain c s3 where w: "write_sample ?E (read_id st) 1000 info es (csv st) s2 = (c, s3)" by force
  have "tape s3 = tape s2" "rets s3 = rets s2"
    using hush.kept_write_sample [OF w] lull_rets [OF lull.kept_write_sample [OF w]] read(2) by (simp_all add: hushed_def)
  with assms now read v w show ?thesis
    by (simp add: flush_all_def flush_into_def)
qed

lemma busy_run:
  assumes sig: "map_of (sources p) 0 = Some \<lparr>src_fd = fd, src_r = PSignal sfd, src_func = source_handler (h_env busy_host)\<rparr>"
    and que: "map_of (sources p) 1 = Some \<lparr>src_fd = fd', src_r = PQueue mq, src_func = source_handler (h_env busy_host)\<rparr>"
    and st: "groups st = []" "event_configs st = [new_single cfg]" and t: "tp_time (tape s) = None"
  shows "\<exists>p' st' s'. run busy_kernel assoc_slab p st s = Some (Return (Inr ()), p', st', s')
    \<and> groups st' = [(42, [busy_group cfg])] \<and> reader st' = reader st
    \<and> tp_attempts (tape s') = tp_attempts (tape s) \<and> tp_time (tape s') = None \<and> rets s' = rets s @ [7]"
proof -
  let ?E = "h_env busy_host"
  let ?q = "\<lparr>ee_events = 1, ee_data = 1\<rparr> :: epoll_event" and ?s = "\<lparr>ee_events = 1, ee_data = 0\<rparr> :: epoll_event"
  obtain s1 where w: "wait_ready busy_kernel (poller_fd p) zero_events s = Some (Inr (2, fill zero_events [?q, ?s]), s1)"
      "tape s1 = tape s" "rets s1 = rets s"
    by (simp add: wait_ready.simps os_simps busy_kernel_def)
  have take: "take 2 (fill zero_events [?q, ?s]) = [?q, ?s]" "\<not> length (fill zero_events [?q, ?s]) < 2"
    by (simp_all add: zero_events_def COUNT_def fill_def)
  obtain s2 where msg: "message_read busy_kernel mq s1 = (Return (Inr \<lparr>m_tid = 42, m_flags = MESSAGE_FLAG_ADD_PROCESS\<rparr>), s2)"
      "tape s2 = tape s" "rets s2 = rets s"
    using busy_message [of mq s1] w(2,3) t by (auto simp: steady_def hushed_def)
  have act: "try_from \<lparr>m_tid = 42, m_flags = MESSAGE_FLAG_ADD_PROCESS\<rparr> = Inr \<lparr>tid = 42, flag = AddProcess\<rparr>"
    by (simp add: try_from_def)
  obtain st' s3 where op: "open_tid ?E 42 st s2 = (st', s3)" "groups st' = [(42, [busy_group cfg])]"
      "reader st' = reader st" "tp_attempts (tape s3) = tp_attempts (tape s)" "tp_time (tape s3) = None" "rets s3 = rets s @ [7]"
    using busy_open [OF st, of s2] msg(2,3) t by auto
  define p1 where "p1 = p\<lparr>sources := AList.update 1
      \<lparr>src_fd = fd', src_r = PQueue mq, src_func = source_handler ?E\<rparr> (sources p)\<rparr>"
  have one: "handle_event busy_kernel assoc_slab ?q p st s1 = (Return (Inr NextEvent), p1, st', s3)"
    using que msg(1) act op(1) by (simp add: handle_event_def READABLE_def HANGUP_def EPOLLIN_def EPOLLERR_def
        EPOLLHUP_def call_func_def source_handler_def queue_handler_def resolve_action_def p1_def)
  obtain bs s4 where rd: "signal_read busy_kernel sfd s3 = (Return (Inr bs), s4)" "tape s4 = tape s3" "rets s4 = rets s3"
  proof -
    obtain r bs s4 where call: "sys_read busy_kernel (signal_raw sfd) siginfo_size s3 = (r, bs, s4)" by (metis prod_cases3)
    then have r: "r = int siginfo_size" "bs = replicate siginfo_size 0"
      by (auto simp: os_simps busy_kernel_def siginfo_size_def)
    have "signal_read busy_kernel sfd s3 = (Return (Inr bs), s4)"
      using call r assume_init_full [of bs siginfo_size] by (simp add: signal_read_def)
    moreover have "tape s4 = tape s3" "rets s4 = rets s3" using sys_read_trace [OF call] op(5) by simp_all
    ultimately show ?thesis using that by blast
  qed
  have "\<exists>p'. handle_event busy_kernel assoc_slab ?s p1 st' s3 = (Return (Inr StopNow), p', st', s4)"
    using sig rd(1) by (simp add: handle_event_def READABLE_def HANGUP_def EPOLLIN_def EPOLLERR_def EPOLLHUP_def
        call_func_def source_handler_def signal_handler_def resolve_action_def p1_def update_conv')
  then obtain p' where two: "handle_event busy_kernel assoc_slab ?s p1 st' s3 = (Return (Inr StopNow), p', st', s4)" ..
  have "poll_once busy_kernel assoc_slab p st s = Some (Return (Inr Stop), p', st', s4)"
    using w(1) take one two by (simp add: poll_once_def)
  then have "run busy_kernel assoc_slab p st s = Some (Return (Inr ()), p', st', s4)"
    by (simp add: run_unfold run_result_def)
  with op rd show ?thesis by auto
qed

lemma busy_poll_scope:
  assumes st: "groups st = []" "event_configs st = [new_single cfg]" "reader st = None" and t: "tp_time (tape s) = None"
  shows "\<exists>st' s'. poll_scope busy_host [PSignal sfd, PQueue mq] st s = Some (Return (), st', s')
    \<and> groups st' = [(42, [busy_group cfg])] \<and> tp_time (tape s') = None
    \<and> tp_attempts (tape s') = tp_attempts (tape s) @ [Some (1000, sample_view busy_sample)] \<and> rets s' = rets s @ [7]"
proof -
  let ?H = "busy_host" let ?E = "h_env ?H"
  obtain p0 :: "(nat \<times> (pollable, string state, int) source) list poller" and s1
    where new: "poller_new busy_kernel assoc_slab s = (Return p0, s1)" "sources p0 = []"
    by (simp add: poller_new_def epoll_create_def os_simps busy_kernel_def stop_kernel_def idle_kernel_def)
  have "\<exists>p s2. register_all ?H [PSignal sfd, PQueue mq] p0 s1 = (Return (), p, s2)
      \<and> map_of (sources p) 0 = Some \<lparr>src_fd = signal_raw sfd, src_r = PSignal sfd, src_func = source_handler ?E\<rparr>
      \<and> map_of (sources p) 1 = Some \<lparr>src_fd = mq_fd mq, src_r = PQueue mq, src_func = source_handler ?E\<rparr>"
    using new(2) by (simp add: register_mut_def Let_def os_simps signal_pollable_fd_def mq_pollable_fd_def
        busy_kernel_def stop_kernel_def idle_kernel_def)
  then obtain p s2 where reg: "register_all ?H [PSignal sfd, PQueue mq] p0 s1 = (Return (), p, s2)"
      "map_of (sources p) 0 = Some \<lparr>src_fd = signal_raw sfd, src_r = PSignal sfd, src_func = source_handler ?E\<rparr>"
      "map_of (sources p) 1 = Some \<lparr>src_fd = mq_fd mq, src_r = PQueue mq, src_func = source_handler ?E\<rparr>"
    by blast
  have t2: "tape s2 = tape s"
    using steady.kept_poller_new [where E = ?E, simplified, OF new(1)] steady.kept_register_all [OF refl reg(1)] t
    by (simp add: steady_def hushed_def)
  have r2: "rets s2 = rets s"
    using lull_rets [OF lull_trans [OF lulled.kept_poller_new [where E = ?E, simplified, OF new(1)]
        lulled.kept_register_all [OF refl reg(1)]]] .
  obtain p' st' s3 where run: "run busy_kernel assoc_slab p st s2 = Some (Return (Inr ()), p', st', s3)"
      "groups st' = [(42, [busy_group cfg])]" "reader st' = None"
      "tp_attempts (tape s3) = tp_attempts (tape s)" "tp_time (tape s3) = None" "rets s3 = rets s @ [7]"
    using busy_run [OF reg(2,3) st(1,2), of s2] t2 r2 t st(3) by auto
  let ?s3 = "println ''Finished the polling loop'' s3"
  have "tape ?s3 = tape s3" "rets ?s3 = rets s3"
    using steady.kept_println run(5) by (simp_all add: steady_def hushed_def println_def)
  with busy_flush [OF run(2,3), of ?s3] run(2,4-6) obtain st2 s4 where fl: "flush_all ?E st' ?s3 = (Return (), st2, s4)"
      "tp_time (tape s4) = None" "tp_attempts (tape s4) = tp_attempts (tape s) @ [Some (1000, sample_view busy_sample)]" "rets s4 = rets s @ [7]"
      "groups st2 = [(42, [busy_group cfg])]"
    by auto
  have "tape (sys_close busy_kernel fd s4) = tape s4" "rets (sys_close busy_kernel fd s4) = rets s4" for fd
    by (simp_all add: os_simps)
  with new reg(1) run fl show ?thesis by (simp add: poll_scope_def after_loop_def loop_result_def poller_drop_def)
qed

text \<open>The scopes of \<open>main\<close> in this run, and \<open>main\<close> itself.\<close>

lemma busy_scopes:
  "\<exists>mq s1 cfg s2 st s3 st' s4.
     mq_new busy_kernel message_size MQ_NAME (println ''Parsed Args'' (boot 20)) = (Inr mq, s1)
   \<and> parse_event_groups busy_kernel plain_interner ''a'' (println ''Opened Message Queue'' s1)
       = (Return (Inr [new_single cfg]), s2)
   \<and> state_new busy_kernel [new_single cfg] ''out'' s2 = (Return st, s3)
   \<and> signal_scope busy_host stop_args mq st s3 = Some (Return (), st', s4)
   \<and> groups st' = [(42, [busy_group cfg])]
   \<and> tp_time (tape s4) = None \<and> tp_attempts (tape s4) = [Some (1000, sample_view busy_sample)] \<and> rets s4 = [7]"
proof -
  let ?H = "busy_host" and ?E = "h_env busy_host"
  note same = steady_def hushed_def
  let ?s0 = "println ''Parsed Args'' (boot 20) :: int os"
  obtain mq s1 where mq: "mq_new busy_kernel message_size MQ_NAME ?s0 = (Inr mq, s1)" "world s1 = 20" "pfm_cell s1 = None"
    by (simp add: mq_new_def mq_open_queue_def os_simps busy_kernel_def stop_kernel_def idle_kernel_def boot_def Let_def)
  let ?s1 = "println ''Opened Message Queue'' s1"
  have "steady (boot 20) ?s1"
    using steady.kept_trans [OF steady.kept_trans [OF steady.kept_println
        steady.kept_mq_new [where E = ?E, simplified, OF mq(1)]] steady.kept_println] .
  moreover have l1: "lull (boot 20) ?s1"
    using lull_trans [OF lull_trans [OF lulled.kept_println lulled.kept_mq_new [where E = ?E, simplified, OF mq(1)]]
        lulled.kept_println] .
  ultimately have t1: "tape ?s1 = blank" by (simp add: same boot_def tape_of_def blank_def)
  have "world ?s1 = 20" "pfm_cell ?s1 = None" using mq by (simp_all add: println_def)
  with busy_parse [of ?s1] obtain cfg s2 where
    parse: "parse_event_groups busy_kernel plain_interner ''a'' ?s1 = (Return (Inr [new_single cfg]), s2)" "world s2 = 20"
    by auto
  have t2: "tape s2 = blank"
    using steady.kept_parse [where E = ?E, simplified, OF parse(1)] t1 by (simp add: same blank_def)
  note headers = write_header [OF headers_fit(1)] write_header [OF headers_fit(2)] write_header [OF headers_fit(3)]
  have "\<exists>c s3. csv_open busy_kernel ''out'' s2 = (Inr c, s3)"
    using parse(2) by (simp add: csv_open_def open_file_def path_join_def sys_file_open_def busy_kernel_def
        stop_kernel_def headers Let_def del: write_pieces.simps)
  then obtain c s3 where csv: "csv_open busy_kernel ''out'' s2 = (Inr c, s3)" by blast
  have t3: "tape s3 = blank" using csv_open_trace [where K = busy_kernel and folder = "''out''" and s = s2] csv t2 by auto
  let ?st = "\<lparr>event_configs = [new_single cfg], groups = [], reader = reader_new, csv = c, read_id = 0\<rparr>"
  have state: "state_new busy_kernel [new_single cfg] ''out'' s2 = (Return ?st, s3)" using csv by (simp add: state_new_def)
  obtain s4 where bl: "Signals.block busy_kernel [SIGINT] s3 = (Inr (), s4)"
    by (simp add: Signals.block_def get_mask_def os_simps busy_kernel_def stop_kernel_def idle_kernel_def)
  obtain sfd s5 where sfd: "signal_fd_new busy_kernel [SIGINT] s4 = (Inr sfd, s5)"
    by (simp add: signal_fd_new_def get_mask_def os_simps busy_kernel_def stop_kernel_def idle_kernel_def)
  let ?s5 = "println ''Setup Signal Handling'' s5"
  have "steady s3 ?s5"
    using steady.kept_trans [OF steady.kept_trans [OF steady.kept_block [where E = ?E, simplified, OF bl]
        steady.kept_signal_fd_new [where E = ?E, simplified, OF sfd]] steady.kept_println] .
  then have "tape ?s5 = blank" using t3 by (simp add: same blank_def)
  moreover have "lull ?s1 ?s5"
    using lull_trans [OF lull_trans [OF lulled.kept_parse [where E = ?E, simplified, OF parse(1)]
        lulled.kept_state_new [where E = ?E, simplified, OF state]] lull_trans [OF lull_trans [OF
          lulled.kept_block [where E = ?E, simplified, OF bl]
          lulled.kept_signal_fd_new [where E = ?E, simplified, OF sfd]] lulled.kept_println]] .
  from lull_rets [OF lull_trans [OF l1 this]] have "rets ?s5 = []" by (simp add: boot_def)
  ultimately obtain st' s6 where
    poll: "poll_scope ?H [PSignal sfd, PQueue mq] ?st ?s5 = Some (Return (), st', s6)" "tp_time (tape s6) = None"
      "tp_attempts (tape s6) = [Some (1000, sample_view busy_sample)]" "rets s6 = [7]"
      "groups st' = [(42, [busy_group cfg])]"
    using busy_poll_scope [of ?st cfg ?s5 sfd mq]
    by (auto simp: reader_new_def blank_def)
  have "timer_scope ?H stop_args sfd mq ?st s5 = Some (Return (), st', s6)"
    using poll by (simp add: timer_scope_def timer_setup_def stop_args_def timer_drop_def)
  then have scope: "signal_scope ?H stop_args mq ?st s3 = Some (Return (), st', sys_close busy_kernel (signal_raw sfd) s6)"
    using bl sfd by (simp add: signal_scope_def)
  let ?s7 = "sys_close busy_kernel (signal_raw sfd) s6"
  have "tape ?s7 = tape s6" "rets ?s7 = rets s6" by (simp_all add: os_simps)
  with mq(1) parse(1) state scope poll show ?thesis by (metis (no_types, lifting))
qed

lemma busy_main:
  "\<exists>s'. main_body busy_host stop_args (boot 20) = Some (Return (), s')
    \<and> tp_attempts (tape s') = [Some (1000, sample_view busy_sample)] \<and> rets s' = [7]"
proof -
  let ?E = "h_env busy_host"
  obtain mq s1 cfg s2 st s3 st' s4 where run:
    "mq_new busy_kernel message_size MQ_NAME (println ''Parsed Args'' (boot 20)) = (Inr mq, s1)"
    "parse_event_groups busy_kernel plain_interner ''a'' (println ''Opened Message Queue'' s1)
       = (Return (Inr [new_single cfg]), s2)"
    "state_new busy_kernel [new_single cfg] ''out'' s2 = (Return st, s3)"
    "signal_scope busy_host stop_args mq st s3 = Some (Return (), st', s4)"
    and t: "tp_time (tape s4) = None" "tp_attempts (tape s4) = [Some (1000, sample_view busy_sample)]" "rets s4 = [7]"
    using busy_scopes by blast
  have "tape (mq_drop busy_kernel mq (state_drop ?E st' s4)) = tape s4"
    using state_drop_tape [of s4 ?E st'] t(1) by (simp add: mq_drop_def os_simps)
  moreover have "rets (mq_drop busy_kernel mq (state_drop ?E st' s4)) = [7]"
    using lull_rets [OF state_drop_lull [of s4 ?E st']] t(3) by (simp add: mq_drop_def os_simps)
  ultimately show ?thesis using run t(2) by (simp add: main_body_def state_scope_def stop_args_def)
qed

lemma busy_view: "event_table 0 [Some (1000, sample_view busy_sample)] = [[0, 5, 3]]"
proof -
  have "sample_view busy_sample = decoded \<lparr>nr = 1, time_enabled = 9, time_running = 7\<rparr> [\<lparr>ev_value = 5, ev_id = 3\<rparr>]"
    using viewed_sample [of "[\<lparr>ev_value = 5, ev_id = 3\<rparr>]" "\<lparr>nr = 1, time_enabled = 9, time_running = 7\<rparr>"]
    by (simp add: sample_view_def header_size_def entry_size_def busy_sample_def length_sample)
  then show ?thesis by (simp add: decoded_def)
qed

text \<open>
  \<^bold>\<open>C1.\<close> The files record what the kernel delivered, all of it and nothing else. When a run returns,
  on a kernel that delivers whole records and whose writes succeed, the event and read files hold
  their header and then one row for every counter, or sample, that the reads of the counters
  delivered during the run, in order, each with the time the clock gave before it and numbered by
  the attempts made; the description file holds one row for every identifier that the kernel gave,
  in order, with the thread the counter was opened for and a name from the command line. Nothing
  is left in a buffer, lost or doubled.
\<close>

theorem main_files_faithful:
  assumes "recorder_laws H a live" "main_body H a (boot w) = Some (Return (), s')"
  shows "faithful_files (event_names a) (output_folder a) (trace s')"
  by (rule main_faithful [OF assms])

theorem main_files_faithful_witness:
  "\<exists>s'. main_body busy_host stop_args (boot 20) = Some (Return (), s')
    \<and> faithful_files (event_names stop_args) ''out'' (trace s')
    \<and> tp_attempts (tape s') = [Some (1000, sample_view busy_sample)]"
proof -
  obtain s' where run: "main_body busy_host stop_args (boot 20) = Some (Return (), s')"
    "tp_attempts (tape s') = [Some (1000, sample_view busy_sample)]" using busy_main by blast
  from main_files_faithful [OF busy_laws run(1)] run show ?thesis by (auto simp: stop_args_def)
qed

text \<open>
  \<^bold>\<open>C37.\<close> The files can be read back. Split into lines and fields, the three files of a run that
  returns decode, after their headers, to exactly the numbers that the kernel delivered during the
  run: for each attempt its number, the count and the identifier of each event; for each sample its
  number, its time and the times it was running and enabled; for each counter its identifier and
  thread, and a name of the command line (if those hold no newline).
\<close>

theorem main_files_read_back:
  assumes "recorder_laws H a live" "main_body H a (boot w) = Some (Return (), s')"
    and "\<forall>n \<in> event_names a. CHR ''\<newline>'' \<notin> set n"
  shows "\<exists>e q d. CFileOpen (path_join (output_folder a) ''threadstat-event.csv'') e \<in> set (trace s')
    \<and> CFileOpen (path_join (output_folder a) ''threadstat-read.csv'') q \<in> set (trace s')
    \<and> CFileOpen (path_join (output_folder a) ''threadstat-event-description.csv'') d \<in> set (trace s')
    \<and> map (map decode_u64) (tl (csv_table (file_text e (trace s'))))
        = map (map Some) (event_table 0 (tp_attempts (tape s')))
    \<and> map (map parse_digits) (tl (csv_table (file_text q (trace s'))))
        = map (map Some) (read_table 0 (tp_attempts (tape s')))
    \<and> map (\<lambda>r. (decode_u64 (r ! 0), parse_i64 (r ! 2))) (tl (csv_table (file_text d (trace s'))))
        = map (\<lambda>(i, t). (Some i, Some t)) (tp_ids (tape s'))
    \<and> (\<forall>r \<in> set (tl (csv_table (file_text d (trace s')))). r ! 1 \<in> event_names a)"
proof -
  obtain e q d ds where f: "CFileOpen (path_join (output_folder a) ''threadstat-event.csv'') e \<in> set (trace s')"
      "CFileOpen (path_join (output_folder a) ''threadstat-read.csv'') q \<in> set (trace s')"
      "CFileOpen (path_join (output_folder a) ''threadstat-event-description.csv'') d \<in> set (trace s')"
      "file_text e (trace s') = event_header @ newline @ concat (map event_line (sample_rows 0 (tp_attempts (tape s'))))"
      "file_text q (trace s') = read_header @ newline @ concat (map read_line (sample_rows 0 (tp_attempts (tape s'))))"
      "file_text d (trace s') = desc_header @ newline @ concat (map desc_line (desc_rows ds))"
      "map (\<lambda>(i, name, t). (i, sint t)) ds = tp_ids (tape s')" "\<forall>(i, name, t) \<in> set ds. name \<in> event_names a"
    using main_faithful [OF assms(1,2)] unfolding faithful_files_def Let_def by blast
  let ?T = "tl (csv_table (file_text d (trace s')))"
  have "\<forall>(i, name, t) \<in> set ds. CHR '','' \<notin> set name \<and> CHR ''\<newline>'' \<notin> set name"
    using f(8) assms(3) event_names_clean by fastforce
  from desc_file_table [OF this] have T: "map (\<lambda>r. (decode_u64 (r ! 0), r ! 1, parse_i64 (r ! 2))) ?T
      = map (\<lambda>(i, name, t). (Some i, name, Some (sint t))) ds" by (simp add: f(6))
  from arg_cong [OF this, of "map (\<lambda>(x, n, y). (x, y))"] f(7) [symmetric]
  have ids: "map (\<lambda>r. (decode_u64 (r ! 0), parse_i64 (r ! 2))) ?T = map (\<lambda>(i, t). (Some i, Some t)) (tp_ids (tape s'))"
    by (simp add: comp_def case_prod_unfold)
  from arg_cong [OF T, of "map (\<lambda>(x, n, y). n)"] have "map (\<lambda>r. r ! 1) ?T = map (\<lambda>(i, name, t). name) ds"
    by (simp add: comp_def case_prod_unfold)
  then have "(\<lambda>r. r ! 1) ` set ?T = (\<lambda>(i, name, t). name) ` set ds" by (metis list.set_map)
  with f(8) have "\<forall>r \<in> set ?T. r ! 1 \<in> event_names a" by fastforce
  with f(1-5) ids event_file_table read_file_table show ?thesis
    by (intro exI [of _ e] exI [of _ q] exI [of _ d]) simp
qed

theorem main_files_read_back_witness:
  "\<exists>s' e. main_body busy_host stop_args (boot 20) = Some (Return (), s')
    \<and> CFileOpen ''out/threadstat-event.csv'' e \<in> set (trace s')
    \<and> map (map decode_u64) (tl (csv_table (file_text e (trace s')))) = [[Some 0, Some 5, Some 3]]"
proof -
  obtain s' where run: "main_body busy_host stop_args (boot 20) = Some (Return (), s')"
    "tp_attempts (tape s') = [Some (1000, sample_view busy_sample)]" using busy_main by blast
  have join: "join_with CHR '','' (events stop_args) = ''a''" by (simp add: stop_args_def)
  have t: "trim ''a'' = ''a''" by (rule trim_plain) (simp_all add: plain_char_def)
  have "scan ''a'' = [Bare ''a'']"
    by (simp add: scan.simps is_separator_def is_ascii_whitespace_def is_name_char_def t)
  then have "\<forall>n \<in> event_names stop_args. CHR ''\<newline>'' \<notin> set n"
    unfolding event_names_def join by (simp add: group_lists_def)
  from main_files_read_back [OF busy_laws run(1) this] run show ?thesis
    by (auto simp: stop_args_def path_join_def busy_view)
qed

text \<open>
  \<^bold>\<open>C12.\<close> The files are faithful at every moment of a run, not only after it. Whatever a handler of
  a source is given (a message, an expiry or a signal) and however it ends, it keeps the record: the
  text of each file, what is still in its buffer included, is what it began with and then exactly
  the rows of the samples that were read off the counters so far, with the time the clock gave
  before each, their counts and identifiers, and of the identifiers given so far; and the read id is
  the number of the attempts to read.
\<close>

theorem handlers_keep_record:
  assumes "sampling_laws E" "whole_messages (kern E)" "sound st" "named E N (event_configs st)"
    and "recorded N b (csv st) (read_id st) s" "source_handler E p st s = (out, p', st', s')"
  shows "recorded N b (csv st') (read_id st') s'"
proof -
  have "recording E N b st s" using assms(1-5) by (simp add: recording_def)
  from source_handler_recording [OF this assms(6)] show ?thesis by (simp add: recording_def)
qed

theorem handlers_keep_record_witness:
  "\<exists>out t st' s'. source_handler (h_env busy_host) (PTimer \<lparr>timer_raw = 5\<rparr>) one_thread (boot 20) = (out, t, st', s')
    \<and> recorded {} ([], [], []) (csv st') (read_id st') s'
    \<and> tp_attempts (tape s') = [Some (1000, sample_view busy_sample)]"
proof -
  let ?E = "h_env busy_host" and ?t = "\<lparr>timer_raw = 5\<rparr>" and ?cfg = "\<lparr>pc_attr = zeroed_attr, pc_name = ''cycles''\<rparr>"
  obtain out t st' s' where h: "source_handler ?E (PTimer ?t) one_thread (boot 20) = (out, t, st', s')" by (metis prod_cases4)
  obtain r s1 where read: "timer_read busy_kernel ?t (boot 20) = (r, s1)" by force
  have zeros: "le_nat (replicate k 0) = 0" for k by (induction k) simp_all
  have "fill (nat_le 8 0) (replicate 8 0) = replicate 8 0" by (rule fill_exact) simp
  with read zeros [of 8] have r: "r = Inr 0"
    by (auto simp: timer_read_def os_simps busy_kernel_def le_u64_def u64_le_def split: prod.splits)
  let ?s2 = "eprintln (FlushFellBehind 0) s1"
  have "tape ?s2 = blank"
    using steady.kept_timer_read [where E = ?E, simplified, OF read] steady.kept_eprintln
    by (simp add: steady_def hushed_def boot_def tape_of_def blank_def eprintln_def)
  moreover have "groups one_thread = [(42, [busy_group ?cfg])]" "reader one_thread = None"
    by (simp_all add: one_thread_def no_state_def busy_group_def reader_new_def)
  ultimately obtain st2 s3 where "flush_all ?E one_thread ?s2 = (Return (), st2, s3)"
      "tp_attempts (tape s3) = [Some (1000, sample_view busy_sample)]"
    using busy_flush [of one_thread ?cfg ?s2] by (auto simp: blank_def)
  with h read r have tape: "tp_attempts (tape s') = [Some (1000, sample_view busy_sample)]"
    by (simp add: source_handler_def timer_handler_def)
  have "sampling_laws ?E" "whole_messages (kern ?E)" using busy_laws by (simp_all add: recorder_laws_def)
  moreover have "sound one_thread"
    by (simp add: sound_def one_thread_def no_state_def healthy_def healthy_group_def reader_new_def small_configs_def
        reader_aligned_def countable_group_def group_len_def header_size_def entry_size_def)
  moreover have "named ?E {} (event_configs one_thread)" by (simp add: named_def one_thread_def no_state_def)
  moreover have "recorded {} ([], [], []) (csv one_thread) (read_id one_thread) (boot 20 :: int os)"
    by (simp add: recorded_def one_thread_def no_state_def three_files_def csv_fds_def bw_new_def event_text_def
        read_text_def desc_text_def bw_text_def boot_def desc_rows_def tape_of_def blank_def)
  ultimately have "recorded {} ([], [], []) (csv st') (read_id st') s'"
    by (rule handlers_keep_record [OF _ _ _ _ _ h])
  with h tape show ?thesis by blast
qed

text \<open>
  \<^bold>\<open>C6.\<close> No count is lost. When a run returns, a last read(2) of every group was made before its
  counters were closed, and after the last wait for events, whether its thread had ended or the
  monitor was stopped: no call of the run closes the leader of a group of which a read was due. (If
  the kernel gives a counter the number of another that is open, nothing is said.)
\<close>

theorem main_loses_no_count:
  assumes "slab_laws (h_slab H)" "map_order_laws (h_env H)"
    and "main_body H a (boot w) = Some (Return (), s')" "bk_sound (book_of (trace s'))"
  shows "\<forall>p fd q. trace s' = p @ CClose fd # q \<longrightarrow> fd \<notin> bk_due (book_of p)"
  using main_paid [OF assms(1-3)] assms(4) by (simp add: paid_def none_lost_def)

theorem main_loses_no_count_witness:
  "\<exists>s'. main_body busy_host stop_args (boot 20) = Some (Return (), s') \<and> perf_rets (trace s') = [7]
    \<and> (\<forall>p fd q. trace s' = p @ CClose fd # q \<longrightarrow> fd \<notin> bk_due (book_of p))"
proof -
  obtain s' where run: "main_body busy_host stop_args (boot 20) = Some (Return (), s')" "rets s' = [7]"
    using busy_main by blast
  have "bk_sound (book s')" using sound_if_distinct [of "trace s'"] run(2) by simp
  from main_loses_no_count [OF _ _ run(1) this] run show ?thesis
    by (simp add: assoc_slab_laws map_order_laws_def)
qed

end
