(* ===== verification/Watched_Groups.thy ===== *)
theory Watched_Groups
  imports Recorded_Files
begin

text \<open>
  The shape of the monitor's state: which groups of counters it holds, for which threads. Nothing
  that can happen in a run, failures and panics included, changes the shape.
\<close>

definition asked_names :: "'n perf_config non_empty \<Rightarrow> 'n list" where
  "asked_names cfg = map pc_name (elems cfg)"

text \<open>
  One entry for each thread, and for each thread groups that are, in the order of the command line
  and with their counters in order, groups that were asked for (those that could not be opened are
  left out). No group is without a counter.
\<close>

definition well_formed :: "'n state \<Rightarrow> bool" where
  "well_formed st \<longleftrightarrow> distinct_tids st \<and> (\<forall>cfg \<in> set (event_configs st). elems cfg \<noteq> [])
     \<and> (\<forall>(t, gs) \<in> set (groups st). subseq (map group_names gs) (map asked_names (event_configs st)))"

lemma group_new_names:
  assumes "group_new K cs pid s = (Inr g, s')"
  shows "group_names g = map pc_name cs"
proof (cases cs)
  case Nil
  with assms show ?thesis by (simp add: group_new_def)
next
  case (Cons c it)
  have names: "map ps_name (counters cfgs rets) = map pc_name cfgs" if "length rets = length cfgs" for cfgs :: "'a perf_config list" and rets
    using that by (induction cfgs rets rule: list_induct2') simp_all
  from group_new_trace [OF assms [unfolded Cons]] obtain ret rets where "length rets = length it"
    "g = \<lparr>pg_fds = NonEmpty (counters (c # it) (ret # rets))\<rparr>" by auto
  with names [of "ret # rets" "c # it"] Cons show ?thesis by (simp add: group_names_def)
qed

lemma open_groups_names:
  "open_groups E t cfgs s = (gs, s') \<Longrightarrow> subseq (map group_names gs) (map asked_names cfgs)"
proof (induction cfgs arbitrary: gs s)
  case (Cons cfg cfgs)
  obtain r s1 where new: "group_new (kern E) (elems cfg) (sint t) s = (r, s1)" by force
  show ?case
  proof (cases r)
    case (Inl e)
    with Cons new show ?thesis by (auto intro: subseq_Cons')
  next
    case (Inr g)
    with Cons new group_new_names [of "kern E" "elems cfg" "sint t" s g s1] show ?thesis
      by (auto simp: asked_names_def split: prod.splits)
  qed
qed simp

lemma open_tid_well_formed:
  assumes "well_formed st" "open_tid E t st s = (st', s')"
  shows "well_formed st' \<and> event_configs st' = event_configs st"
proof -
  have up: "set (AList.update t gs al) \<subseteq> insert (t, gs) (set al)" for gs and al :: "(i32 \<times> 'a perf_stat_group list) list"
    by (induction al) auto
  have "\<forall>(u, gs) \<in> set (groups st'). subseq (map group_names gs) (map asked_names (event_configs st))"
  proof (cases "map_of (groups st) t")
    case None
    obtain gs s1 where og: "open_groups E t (event_configs st) s = (gs, s1)" by force
    then have "groups st' = AList.update t gs (groups st)"
      using assms(2) None by (auto simp: open_tid_def split: prod.splits)
    with open_groups_names [OF og] up [of gs "groups st"] assms(1) show ?thesis by (auto simp: well_formed_def)
  qed (use assms in \<open>auto simp: open_tid_def well_formed_def\<close>)
  with open_tid_monitored [OF assms(2)] assms(1) show ?thesis by (simp add: well_formed_def)
qed

lemma close_tid_well_formed:
  assumes "well_formed st" "close_tid E t st s = (out, st', s')"
  shows "well_formed st' \<and> event_configs st' = event_configs st"
proof -
  have "set (groups st') \<subseteq> set (groups st)"
    using assms(2) flush_into_quiet(2) by (fastforce simp: close_tid_def AList.delete_eq split: option.splits prod.splits)
  with close_tid_monitored [OF assms(2)] assms(1) show ?thesis by (auto simp: well_formed_def)
qed

lemma well_formed_same:
  "well_formed st \<Longrightarrow> groups st' = groups st \<Longrightarrow> event_configs st' = event_configs st \<Longrightarrow> well_formed st'"
  by (simp add: well_formed_def distinct_tids_def)

lemma source_handler_well_formed:
  assumes wf: "well_formed st" and h: "source_handler E p st s = (out, p', st', s')"
  shows "well_formed st' \<and> event_configs st' = event_configs st"
proof (cases p)
  case (PSignal sfd)
  obtain o1 r st1 s1 where "signal_handler E sfd st s = (o1, r, st1, s1)" by (metis prod_cases4)
  with signal_handler_step [OF this] wf h PSignal show ?thesis by (auto simp: source_handler_def)
next
  case (PQueue q)
  with wf h show ?thesis
    by (auto simp: source_handler_def queue_handler_def split: prod.splits outcome.splits sum.splits message_flag.splits
        dest: open_tid_well_formed close_tid_well_formed)
next
  case (PTimer t)
  have "well_formed st2 \<and> event_configs st2 = event_configs st" if "flush_all E st s2 = (o2, st2, s3)" for o2 st2 s2 s3
    using flush_all_quiet [OF that] well_formed_same [OF wf] by simp
  with wf h PTimer show ?thesis
    by (auto simp: source_handler_def timer_handler_def Let_def split: prod.splits outcome.splits sum.splits if_splits)
qed

interpretation shaped: monitored_run E "\<lambda>st _. well_formed st \<and> event_configs st = cfgs"
    "\<lambda>st _. well_formed st \<and> event_configs st = cfgs" "\<lambda>_ _. True"
  for E :: "('n, 'w) env" and cfgs :: "'n perf_config non_empty list"
proof
  fix src src' :: "(pollable, 'n state, 'w) source" and c c' :: "'n state" and s s' :: "'w os" and out
  assume a: "monitor_source E src" "well_formed c \<and> event_configs c = cfgs" "call_func src c s = (out, src', c', s')"
  then obtain r where "source_handler E (src_r src) c s = (out, r, c', s')" "src' = src\<lparr>src_r := r\<rparr>"
    by (auto simp: monitor_source_def call_func_def split: prod.splits)
  with a source_handler_well_formed [OF conjunct1 [OF a(2)] this(1)] show "monitor_source E src' \<and> (well_formed c' \<and> event_configs c' = cfgs)
      \<and> (returns out \<longrightarrow> well_formed c' \<and> event_configs c' = cfgs)"
    by (auto simp: monitor_source_def)
next
  fix st st' :: "'n state" and s s' :: "'w os" and out
  assume "well_formed st \<and> event_configs st = cfgs" "flush_all E st s = (out, st', s')"
  with flush_all_quiet well_formed_same show "(well_formed st' \<and> event_configs st' = cfgs)
      \<and> (returns out \<longrightarrow> well_formed st' \<and> event_configs st' = cfgs)" by metis
qed auto

text \<open>The parser gives no group without an event.\<close>

lemma build_groups_inhabited:
  "build_groups K I items gs0 os = (Return (Inr hs), os') \<Longrightarrow> \<forall>g \<in> set gs0. elems g \<noteq> [] \<Longrightarrow>
     \<forall>g \<in> set hs. elems g \<noteq> []"
proof (induction items arbitrary: gs0 os)
  case (Cons item items)
  obtain o1 os1 where one: "(case item of Bracketed names \<Rightarrow> parse_bracket K I names gs0 os
      | Bare name \<Rightarrow> parse_bare K I name gs0 os) = (o1, os1)" by force
  then obtain gs where gs: "o1 = Return (Inr gs)" "build_groups K I items gs os1 = (Return (Inr hs), os')"
    using Cons.prems(1) by (auto split: outcome.splits sum.splits)
  have "\<forall>g \<in> set gs. elems g \<noteq> []"
    using one gs(1) Cons.prems(2)
    by (cases item) (auto simp: parse_bracket_def parse_bare_def from_iter_def new_single_def
        split: prod.splits sum.splits option.splits if_splits outcome.splits list.splits)
  from Cons.IH [OF gs(2) this] show ?case .
qed simp

lemma parse_inhabited:
  assumes "utf8_like str" "parse_event_groups K I str s = (Return (Inr cfgs), s')"
  shows "\<forall>cfg \<in> set cfgs. elems cfg \<noteq> []"
proof -
  have "build_groups K I (scan str) [] s = (Return (Inr cfgs), s')" using assms(2) parse_scans [OF assms(1)] by metis
  from build_groups_inhabited [OF this] show ?thesis by simp
qed

text \<open>
  \<^bold>\<open>C13.\<close> The state keeps its shape. From the state that \<open>main\<close> makes, whatever messages, signals and
  ticks arrive and whatever fails, and however the loop and the tear-down end, also in a panic: the
  configurations are those that were parsed, every thread has one entry, and its groups are groups
  of the command line, in their order, each with all its counters in order, and at least one.
\<close>

theorem state_keeps_shape:
  assumes "slab_laws (h_slab H)" "utf8_like (join_with CHR '','' (events a))"
    and "parse_event_groups (kern (h_env H)) (h_intern H) (join_with CHR '','' (events a)) s0 = (Return (Inr cfgs), s1)"
    and "state_new (kern (h_env H)) cfgs (output_folder a) s1 = (Return st, s2)"
    and "signal_scope H a mq st s2 = Some (out, st', s3)"
  shows "event_configs st' = cfgs \<and> distinct_tids st'
    \<and> (\<forall>(t, gs) \<in> set (groups st'). subseq (map group_names gs) (map asked_names cfgs) \<and> [] \<notin> group_names ` set gs)"
proof -
  note ne = parse_inhabited [OF assms(2,3)]
  then have "well_formed st \<and> event_configs st = cfgs"
    using assms(4) by (auto simp: state_new_def well_formed_def distinct_tids_def split: prod.splits sum.splits)
  from shaped.signal_scope_ended [OF refl assms(1) this assms(5)]
  have wf: "well_formed st'" "event_configs st' = cfgs" by (auto simp: shaped.ended_def)
  have "group_names g \<noteq> []" if "subseq (map group_names gs) (map asked_names cfgs)" "g \<in> set gs" for g gs
  proof -
    have "group_names g \<in> set (map asked_names cfgs)"
      using list_emb_set [OF that(1), of "group_names g"] that(2) by auto
    with ne show ?thesis by (auto simp: asked_names_def)
  qed
  with wf show ?thesis by (fastforce simp: well_formed_def)
qed

theorem state_keeps_shape_witness:
  "\<exists>cfgs s0 s1 st s2 mq st' s3.
     parse_event_groups busy_kernel plain_interner ''a'' s0 = (Return (Inr cfgs), s1)
   \<and> state_new busy_kernel cfgs ''out'' s1 = (Return st, s2)
   \<and> signal_scope busy_host stop_args mq st s2 = Some (Return (), st', s3)
   \<and> event_configs st' = cfgs \<and> monitored st' = {42}
   \<and> (\<forall>(t, gs) \<in> set (groups st'). subseq (map group_names gs) (map asked_names cfgs))"
proof -
  obtain mq s0 cfg s1 st s2 st' s3 where run:
    "parse_event_groups busy_kernel plain_interner ''a'' s0 = (Return (Inr [new_single cfg]), s1)"
    "state_new busy_kernel [new_single cfg] ''out'' s1 = (Return st, s2)"
    "signal_scope busy_host stop_args mq st s2 = Some (Return (), st', s3)" "groups st' = [(42, [busy_group cfg])]"
    using busy_scopes by blast
  have arg: "join_with CHR '','' (events stop_args) = ''a''" "output_folder stop_args = ''out''"
    by (simp_all add: stop_args_def)
  have "utf8_like ''a''" by (simp add: utf8_like_def continuation_def)
  from state_keeps_shape [where H = busy_host and a = stop_args, unfolded arg busy_parts(1-3),
      OF assoc_slab_laws this run(1-3)]
  have "event_configs st' = [new_single cfg]"
    "\<forall>(t, gs) \<in> set (groups st'). subseq (map group_names gs) (map asked_names [new_single cfg])"
    by blast+
  moreover have "monitored st' = {42}" using run(4) by (simp add: monitored_def)
  ultimately show ?thesis using run(1-3) by blast
qed

end
