(* ===== verification/Heap_Discipline.thy ===== *)
theory Heap_Discipline
  imports Recorded_Files
begin

text \<open>
  The blocks of the heap. The reader of the counters (\<open>group_reader.rs\<close>) allocates, resizes and frees
  its buffer by hand. Here the calls of a run are replayed on a heap: every call of the allocator
  must respect its contract (a size that is not zero and not too large, a block that is live, the
  size it was allocated with), and after the last drop no block is left.
\<close>

section \<open>The contract of the allocator\<close>

type_synonym heap = "nat \<rightharpoonup> nat"

text \<open>
  One call on a heap of live blocks with their sizes; \<open>None\<close> when the call breaks the contract of
  \<open>std::alloc\<close>. An allocation that fails returns null and leaves the heap as it is.
\<close>

definition size_ok :: "nat \<Rightarrow> bool" where
  "size_ok n \<longleftrightarrow> 0 < n \<and> n \<le> 2 ^ 63 - 8"

fun heap_call :: "call \<Rightarrow> heap \<Rightarrow> heap option" where
  "heap_call (CAlloc n p) h =
     (if size_ok n then Some (if p = 0 then h else h(p \<mapsto> n)) else None)"
| "heap_call (CRealloc p old n q) h =
     (if size_ok n \<and> h p = Some old then Some (if q = 0 then h else h(p := None, q \<mapsto> n)) else None)"
| "heap_call (CDealloc p old) h = (if h p = Some old then Some (h(p := None)) else None)"
| "heap_call c h = Some h"

fun replay :: "call list \<Rightarrow> heap \<Rightarrow> heap option" where
  "replay [] h = Some h"
| "replay (c # cs) h = (case heap_call c h of None \<Rightarrow> None | Some h' \<Rightarrow> replay cs h')"

lemma replay_append:
  "replay (cs @ ds) h = (case replay cs h of None \<Rightarrow> None | Some h' \<Rightarrow> replay ds h')"
  by (induction cs arbitrary: h) (simp_all split: option.splits)

text \<open>An allocation that failed.\<close>

fun failed_alloc :: "call \<Rightarrow> bool" where
  "failed_alloc (CRealloc p old n q) \<longleftrightarrow> q = 0"
| "failed_alloc c \<longleftrightarrow> False"

text \<open>The calls that have nothing to do with the heap.\<close>

fun heap_free :: "call \<Rightarrow> bool" where
  "heap_free (CAlloc n p) \<longleftrightarrow> False"
| "heap_free (CRealloc p old n q) \<longleftrightarrow> False"
| "heap_free (CDealloc p old) \<longleftrightarrow> False"
| "heap_free c \<longleftrightarrow> True"

lemma replay_heap_free: "list_all heap_free cs \<Longrightarrow> replay cs h = Some h"
proof (induction cs)
  case (Cons c cs)
  then show ?case by (cases c) auto
qed simp

definition untouched :: "'w os \<Rightarrow> 'w os \<Rightarrow> bool" where
  "untouched s s' \<longleftrightarrow> (\<exists>d. trace s' = trace s @ d \<and> list_all heap_free d)"

interpretation bystander: program_frame E untouched
  for E :: "('n, 'w) env"
proof
  fix s1 s2 s3 :: "'w os"
  assume "untouched s1 s2" "untouched s2 s3"
  then show "untouched s1 s3" unfolding untouched_def by (metis append_assoc list_all_append)
qed (auto simp: untouched_def os_simps split: prod.splits option.splits)

section \<open>The reader's block\<close>

definition heap_of :: "perf_group_reader \<Rightarrow> heap" where
  "heap_of rd = (case rd of None \<Rightarrow> Map.empty | Some b \<Rightarrow> [blk_addr b \<mapsto> length (blk_mem b)])"

text \<open>
  Since \<open>s0\<close> every call respected the contract, and the live blocks are those of the reader:
  \<open>owned\<close>; or the reader lost its block when a reallocation failed: \<open>lost\<close>.
\<close>

definition owned :: "'w os \<Rightarrow> perf_group_reader \<Rightarrow> 'w os \<Rightarrow> bool" where
  "owned s0 rd s \<longleftrightarrow> (\<exists>d. trace s = trace s0 @ d \<and> replay d Map.empty = Some (heap_of rd))"

definition lost :: "'w os \<Rightarrow> perf_group_reader \<Rightarrow> 'w os \<Rightarrow> bool" where
  "lost s0 rd s \<longleftrightarrow> rd = None
     \<and> (\<exists>d h. trace s = trace s0 @ d \<and> replay d Map.empty = Some h \<and> list_ex failed_alloc d)"

lemma owned_start: "owned s None s"
  by (simp add: owned_def heap_of_def)

lemma owned_untouched: "owned s0 rd s \<Longrightarrow> untouched s s' \<Longrightarrow> owned s0 rd s'"
  by (auto simp: owned_def untouched_def replay_append replay_heap_free)

lemma lost_untouched: "lost s0 rd s \<Longrightarrow> untouched s s' \<Longrightarrow> lost s0 rd s'"
  by (fastforce simp: lost_def untouched_def replay_append replay_heap_free)

text \<open>After an outcome: the block is owned if it returned, and owned or lost in any case.\<close>

definition settled :: "'a outcome \<Rightarrow> 'w os \<Rightarrow> perf_group_reader \<Rightarrow> 'w os \<Rightarrow> bool" where
  "settled out s0 rd s \<longleftrightarrow> (owned s0 rd s \<or> lost s0 rd s) \<and> (returns out \<longrightarrow> owned s0 rd s)"

lemma settled_simps [simp]:
  "settled (Return x) s0 rd s \<longleftrightarrow> owned s0 rd s"
  "settled (Panic m) s0 rd s \<longleftrightarrow> owned s0 rd s \<or> lost s0 rd s"
  "settled Undefined s0 rd s \<longleftrightarrow> owned s0 rd s \<or> lost s0 rd s"
  by (auto simp: settled_def)

lemma settled_owned: "owned s0 rd s \<Longrightarrow> settled out s0 rd s"
  by (simp add: settled_def)

lemma settled_untouched: "settled out s0 rd s \<Longrightarrow> untouched s s' \<Longrightarrow> settled out s0 rd s'"
  using owned_untouched lost_untouched by (fastforce simp: settled_def)

lemma settled_out: "settled out s0 rd s \<Longrightarrow> (returns out' \<Longrightarrow> returns out) \<Longrightarrow> settled out' s0 rd s"
  by (auto simp: settled_def)

lemma owned_call:
  assumes "owned s0 rd s" "trace s' = trace s @ [c]" "heap_call c (heap_of rd) = Some (heap_of rd')"
  shows "owned s0 rd' s'"
  using assms by (auto simp: owned_def replay_append)

lemma ensure_sized_settled:
  assumes "countable_group cnt" "owned s0 rd s" "ensure_sized K cnt rd s = (out, rd', s')"
  shows "settled out s0 rd' s'"
proof -
  let ?n = "header_size + cnt * entry_size"
  have n: "necessary_buffer_size cnt = ?n" "get_layout_from_count cnt = Some ?n" "size_ok ?n"
    using assms(1) necessary_buffer_size_exact get_layout_exact
    by (auto simp: countable_group_def size_ok_def header_size_def)
  show ?thesis
  proof (cases rd)
    case None
    obtain p s1 where call: "sys_alloc K ?n 8 s = (p, s1)" by force
    note tr = sys_alloc_trace [OF call]
    have "owned s0 (if p = 0 then None else Some \<lparr>blk_addr = p, blk_mem = uninit ?n\<rparr>) s1"
      using n(3) None tr by (intro owned_call [OF assms(2), of _ "CAlloc ?n p"]) (auto simp: heap_of_def)
    with assms(3) None n call show ?thesis
      by (auto simp: ensure_sized_def Let_def settled_def split: if_splits)
  next
    case (Some b)
    show ?thesis
    proof (cases "length (blk_mem b) < ?n")
      case False
      with assms(2,3) Some n show ?thesis by (auto simp: ensure_sized_def Let_def)
    next
      case True
      obtain q s1 where call: "sys_realloc K (blk_addr b) (length (blk_mem b)) ?n s = (q, s1)" by force
      note tr = sys_realloc_trace [OF call]
      let ?c = "CRealloc (blk_addr b) (length (blk_mem b)) ?n q"
      show ?thesis
      proof (cases "q = 0")
        case False
        have "owned s0 (Some \<lparr>blk_addr = q, blk_mem = blk_mem b @ uninit (?n - length (blk_mem b))\<rparr>) s1"
          using n(3) Some tr True False by (intro owned_call [OF assms(2), of _ ?c]) (auto simp: heap_of_def)
        with assms(3) Some True n call False show ?thesis by (auto simp: ensure_sized_def Let_def)
      next
        case True
        from assms(2) obtain d where d: "trace s = trace s0 @ d" "replay d Map.empty = Some (heap_of rd)"
          by (auto simp: owned_def)
        have "replay (d @ [?c]) Map.empty = Some (heap_of rd)"
          using d(2) n(3) Some True by (simp add: replay_append heap_of_def)
        then have "lost s0 None s1"
          unfolding lost_def using d(1) tr True by (intro conjI exI [of _ "d @ [?c]"]) auto
        with assms(3) Some \<open>length (blk_mem b) < ?n\<close> n call True show ?thesis
          by (auto simp: ensure_sized_def Let_def)
      qed
    qed
  qed
qed

lemma read_group_settled:
  fixes E :: "('n, 'w) env" and g :: "'n perf_stat_group"
  assumes "countable_group (group_len g)" "owned s0 rd s" "read_group (kern E) Z g rd s = (out, rd', s')"
  shows "settled out s0 rd' s'"
proof -
  let ?K = "kern E"
  obtain o1 rd1 s1 where sized: "ensure_sized ?K (group_len g) rd s = (o1, rd1, s1)" by (metis prod_cases3)
  note one = ensure_sized_settled [OF assms(1,2) sized]
  show ?thesis
  proof (cases "\<exists>u b. o1 = Return u \<and> rd1 = Some b")
    case False
    with sized assms(3) one show ?thesis
      by (cases o1; cases rd1) (auto simp: read_group_def settled_def)
  next
    case True
    then obtain u b where ub: "o1 = Return u" "rd1 = Some b" by blast
    let ?n = "necessary_buffer_size (group_len g)"
    obtain o2 buf s2 where rd: "group_read ?K Z g (blk_addr b) (take ?n (blk_mem b)) s1 = (o2, buf, s2)"
      by (metis prod_cases3)
    from owned_untouched [OF _ bystander.kept_group_read [OF rd]] one ub have "owned s0 (Some b) s2" by simp
    moreover have "length buf = length (take ?n (blk_mem b))"
      using rd by (auto simp: group_read_def Let_def split: outcome.splits prod.splits)
    then have "length (buf @ drop ?n (blk_mem b)) = length (blk_mem b)" by simp
    ultimately have "owned s0 (Some (b\<lparr>blk_mem := buf @ drop ?n (blk_mem b)\<rparr>)) s2"
      by (simp add: owned_def heap_of_def)
    then have "owned s0 rd' s'" using assms(3) sized ub rd by (auto simp: read_group_def Let_def)
    then show ?thesis by (rule settled_owned)
  qed
qed


section \<open>Flushing and closing\<close>

definition all_countable :: "'n perf_stat_group list \<Rightarrow> bool" where
  "all_countable gs \<longleftrightarrow> (\<forall>g \<in> set gs. countable_group (group_len g))"

definition roomy :: "'n state \<Rightarrow> bool" where
  "roomy st \<longleftrightarrow> small_configs (event_configs st) \<and> (\<forall>(t, gs) \<in> set (groups st). all_countable gs)"

lemma roomy_lookup: "roomy st \<Longrightarrow> map_of (groups st) t = Some gs \<Longrightarrow> all_countable gs"
  by (auto simp: roomy_def dest: map_of_SomeD)

lemma flush_groups_settled:
  "all_countable gs \<Longrightarrow> owned s0 rd s \<Longrightarrow> flush_groups E gs t rd c rid s = (out, rd', c', rid', s') \<Longrightarrow>
    settled out s0 rd' s'"
proof (induction gs arbitrary: rd c rid s)
  case (Cons g gs)
  have cnt: "countable_group (group_len g)" "all_countable gs" using Cons.prems(1) by (auto simp: all_countable_def)
  obtain ts s1 where now: "timestamp E s = (ts, s1)" by force
  obtain r rd1 s2 where read: "read_group (kern E) (casts E) g rd s1 = (r, rd1, s2)" by (metis prod_cases3)
  note st = read_group_settled [OF cnt(1) owned_untouched [OF Cons.prems(2) bystander.kept_timestamp [OF now]] read]
  show ?case
  proof (cases r)
    case (Return v)
    then have own: "owned s0 rd1 s2" using st by simp
    show ?thesis
    proof (cases v)
      case (Inl e)
      with Cons.prems(3) now read Return show ?thesis
        using Cons.IH [OF cnt(2) owned_untouched [OF own bystander.kept_eprintln]] by simp
    next
      case (Inr p)
      obtain info es where p: "p = (info, es)" by force
      obtain c1 s3 where w: "write_sample E rid ts info es c s2 = (c1, s3)" by force
      with Cons.prems(3) now read Return Inr p show ?thesis
        using Cons.IH [OF cnt(2) owned_untouched [OF own bystander.kept_write_sample [OF w]]] by simp
    qed
  qed (use Cons.prems(3) now read st in auto)
qed (auto simp: settled_owned)

lemma flush_into_settled:
  assumes "all_countable gs" "owned s0 (reader st) s" "flush_into E gs t st s = (out, st', s')"
  shows "settled out s0 (reader st') s' \<and> event_configs st' = event_configs st \<and> groups st' = groups st"
  using assms flush_groups_settled by (fastforce simp: flush_into_def split: prod.splits)

lemma flush_tids_settled:
  "roomy st \<Longrightarrow> owned s0 (reader st) s \<Longrightarrow> flush_tids E ts st s = (out, st', s') \<Longrightarrow>
    settled out s0 (reader st') s' \<and> event_configs st' = event_configs st \<and> groups st' = groups st"
proof (induction ts arbitrary: st s)
  case (Cons t ts)
  let ?gs = "case map_of (groups st) t of None \<Rightarrow> [] | Some gs \<Rightarrow> gs"
  obtain o1 st1 s1 where fl: "flush_into E ?gs t st s = (o1, st1, s1)" by (metis prod_cases3)
  have "all_countable ?gs" using roomy_lookup [OF Cons.prems(1)] by (cases "map_of (groups st) t") (auto simp: all_countable_def)
  note one = flush_into_settled [OF this Cons.prems(2) fl]
  show ?case
  proof (cases o1)
    case (Return u)
    with one have "owned s0 (reader st1) s1" "roomy st1" using Cons.prems(1) by (simp_all add: roomy_def)
    with Cons.IH [of st1 s1] Cons.prems(3) fl Return one show ?thesis by simp
  qed (use Cons.prems(3) fl one in auto)
qed (auto simp: settled_owned)

lemma flush_all_settled:
  assumes "roomy st" "owned s0 (reader st) s" "flush_all E st s = (out, st', s')"
  shows "settled out s0 (reader st') s' \<and> roomy st'"
  using flush_tids_settled [OF assms(1,2) assms(3) [unfolded flush_all_def]] assms(1) by (simp add: roomy_def)

lemma close_tid_settled:
  assumes "roomy st" "owned s0 (reader st) s" "close_tid E t st s = (out, st', s')"
  shows "settled out s0 (reader st') s' \<and> roomy st'"
proof (cases "map_of (groups st) t")
  case (Some gs)
  let ?st = "st\<lparr>groups := AList.delete t (groups st)\<rparr>"
  obtain o1 st1 s1 where fl: "flush_into E gs t ?st s = (o1, st1, s1)" by (metis prod_cases3)
  have "owned s0 (reader ?st) s" using assms(2) by simp
  note one = flush_into_settled [OF roomy_lookup [OF assms(1) Some] this fl]
  have "roomy st1" using one assms(1) by (auto simp: roomy_def AList.delete_eq)
  with one assms(3) Some fl settled_untouched [OF _ bystander.kept_drop_groups] show ?thesis
    by (auto simp: close_tid_def)
qed (use assms in \<open>auto simp: close_tid_def\<close>)

lemma open_groups_countable: "open_groups E t cfgs s = (gs, s') \<Longrightarrow> small_configs cfgs \<Longrightarrow> all_countable gs"
  using open_groups_sound by (fastforce simp: all_countable_def healthy_group_def)

lemma open_tid_settled:
  assumes "roomy st" "owned s0 (reader st) s" "open_tid E t st s = (st', s')"
  shows "owned s0 (reader st') s' \<and> roomy st'"
proof
  have "reader st' = reader st" using assms(3) by (auto simp: open_tid_def split: if_splits prod.splits)
  then show "owned s0 (reader st') s'"
    using owned_untouched [OF assms(2) bystander.kept_open_tid [OF assms(3)]] by simp
  have up: "set (AList.update t gs al) \<subseteq> insert (t, gs) (set al)" for gs and al :: "(i32 \<times> 'a perf_stat_group list) list"
    by (induction al) auto
  show "roomy st'"
    using assms(1,3) by (auto simp: open_tid_def roomy_def split: if_splits prod.splits
        dest!: open_groups_countable subsetD [OF up])
qed

section \<open>The handlers\<close>

lemma queue_handler_settled:
  assumes "roomy st" "owned s0 (reader st) s" "queue_handler E mq st s = (out, mq', st', s')"
  shows "settled out s0 (reader st') s' \<and> roomy st'"
proof -
  obtain r s1 where read: "message_read (kern E) mq s = (r, s1)" by force
  have "untouched s s1"
    using read by (auto simp: message_read_def mq_read_def untouched_def split: prod.splits if_splits
        dest!: sys_mq_receive_trace)
  note own = owned_untouched [OF assms(2) this]
  note close = close_tid_settled [OF assms(1) own] and opened = open_tid_settled [OF assms(1) own]
  have "owned s0 (reader st) (eprintln d s1)" for d by (rule owned_untouched [OF own bystander.kept_eprintln])
  with assms(1,3) read own show ?thesis
    by (auto simp: queue_handler_def settled_owned split: outcome.splits sum.splits message_flag.splits prod.splits
        dest!: close opened)
qed

lemma timer_handler_settled:
  assumes "roomy st" "owned s0 (reader st) s" "timer_handler E t st s = (out, t', st', s')"
  shows "settled out s0 (reader st') s' \<and> roomy st'"
proof -
  obtain r s1 where read: "timer_read (kern E) t s = (r, s1)" by force
  note own = owned_untouched [OF assms(2) bystander.kept_timer_read [OF read]]
  note flush = flush_all_settled [OF assms(1) own]
    flush_all_settled [OF assms(1) owned_untouched [OF own bystander.kept_eprintln]]
  from assms(1,3) read own show ?thesis
    by (auto simp: timer_handler_def Let_def settled_owned split: outcome.splits sum.splits prod.splits if_splits
        dest!: flush)
qed

lemma source_handler_settled:
  assumes "roomy st" "owned s0 (reader st) s" "source_handler E p st s = (out, p', st', s')"
  shows "settled out s0 (reader st') s' \<and> roomy st'"
proof (cases p)
  case (PSignal sfd)
  obtain o1 r st1 s1 where h: "signal_handler E sfd st s = (o1, r, st1, s1)" by (metis prod_cases4)
  from owned_untouched [OF assms(2) bystander.kept_signal_handler [OF h]] signal_handler_step [OF h] assms PSignal h
  show ?thesis by (auto simp: source_handler_def settled_owned)
qed (use assms in \<open>auto simp: source_handler_def split: prod.splits
    dest: queue_handler_settled timer_handler_settled\<close>)

lemma untouched_polls:
  "sys_epoll_ctl K epfd op fd ev s = (r, s') \<Longrightarrow> untouched s s'"
  "sys_epoll_wait K epfd n t s = (q, evs, s') \<Longrightarrow> untouched s s'"
  by (auto simp: untouched_def dest!: sys_epoll_ctl_trace sys_epoll_wait_trace)

interpretation tidy: monitored_run E
    "\<lambda>st s. roomy st \<and> owned s0 (reader st) s" "\<lambda>st s. owned s0 (reader st) s \<or> lost s0 (reader st) s"
    untouched
  for E :: "('n, 'w) env" and s0 :: "'w os"
proof
  fix src src' :: "(pollable, 'n state, 'w) source" and c c' :: "'n state" and s s' :: "'w os" and out
  assume a: "monitor_source E src" "roomy c \<and> owned s0 (reader c) s" "call_func src c s = (out, src', c', s')"
  then obtain r where h: "source_handler E (src_r src) c s = (out, r, c', s')" "src' = src\<lparr>src_r := r\<rparr>"
    by (auto simp: monitor_source_def call_func_def split: prod.splits)
  with a source_handler_settled [OF _ _ h(1)]
  show "monitor_source E src' \<and> (owned s0 (reader c') s' \<or> lost s0 (reader c') s')
      \<and> (returns out \<longrightarrow> roomy c' \<and> owned s0 (reader c') s')"
    by (auto simp: monitor_source_def settled_def)
next
  fix st st' :: "'n state" and s s' :: "'w os" and out
  assume a: "roomy st \<and> owned s0 (reader st) s" "flush_all E st s = (out, st', s')"
  then have "settled out s0 (reader st') s' \<and> roomy st'" using flush_all_settled by blast
  then show "(owned s0 (reader st') s' \<or> lost s0 (reader st') s')
      \<and> (returns out \<longrightarrow> roomy st' \<and> owned s0 (reader st') s')"
    by (auto simp: settled_def)
qed (blast intro: owned_untouched lost_untouched dest: untouched_polls)+

section \<open>The program\<close>

declare settled_simps(2,3) [simp del]

lemma reader_drop_settled:
  assumes "settled out s0 rd s"
  shows "settled out s0 None (reader_drop K rd s)"
proof (cases rd)
  case (Some b)
  with assms have "owned s0 (Some b) s" by (simp add: settled_def lost_def)
  then have "owned s0 None (reader_drop K rd s)"
    unfolding Some by (rule owned_call) (auto simp: reader_drop_def os_simps heap_of_def)
  then show ?thesis by (rule settled_owned)
qed (use assms in \<open>simp add: reader_drop_def\<close>)

lemma state_drop_settled:
  assumes "settled out s0 (reader st) s"
  shows "settled out s0 None (state_drop E st s)"
proof -
  note groups = settled_untouched [OF assms bystander.kept_drop_all]
  from settled_untouched [OF reader_drop_settled [OF groups] bystander.kept_csv_drop] show ?thesis
    by (simp add: state_drop_def)
qed

lemma state_scope_settled:
  assumes laws: "slab_laws (h_slab H)" "interner_laws (h_intern H)"
    and arg: "utf8_like (join_with CHR '','' (events a))" "length (join_with CHR '','' (events a)) < 2 ^ 58"
    and own: "owned s0 None s" and sc: "state_scope H a mq s = Some (out, s')"
  shows "settled out s0 None s'"
proof -
  let ?E = "h_env H" let ?K = "kern ?E"
  obtain r1 s1 where parse: "parse_event_groups ?K (h_intern H) (join_with CHR '','' (events a)) s = (r1, s1)" by force
  note own1 = owned_untouched [OF own bystander.kept_parse [OF parse]]
  show ?thesis
  proof (cases "\<exists>cfgs. r1 = Return (Inr cfgs)")
    case True
    then obtain cfgs where cfgs: "r1 = Return (Inr cfgs)" ..
    have small: "small_configs cfgs" using parse_small [OF laws(2) arg] parse cfgs by blast
    obtain r2 s2 where new: "state_new ?K cfgs (output_folder a) s1 = (r2, s2)" by force
    note own2 = owned_untouched [OF own1 bystander.kept_state_new [OF new]]
    show ?thesis
    proof (cases r2)
      case (Return st)
      with new small own2 have st: "roomy st" "owned s0 (reader st) s2"
        by (auto simp: state_new_def roomy_def reader_new_def split: prod.splits sum.splits)
      obtain st' s3 where inner: "signal_scope H a mq st s2 = Some (out, st', s3)" and s': "s' = state_drop ?E st' s3"
        using sc parse cfgs new Return by (auto simp: state_scope_def Let_def)
      have "settled out s0 (reader st') s3"
        using tidy.signal_scope_ended [OF refl laws(1) _ inner] st by (simp add: tidy.ended_def settled_def)
      then show ?thesis unfolding s' by (rule state_drop_settled)
    qed (use sc parse cfgs new settled_owned [OF own2] in \<open>auto simp: state_scope_def Let_def\<close>)
  next
    case False
    with sc parse settled_owned [OF own1] show ?thesis
      by (auto simp: state_scope_def Let_def split: outcome.splits sum.splits)
  qed
qed

lemma main_settled:
  assumes laws: "slab_laws (h_slab H)" "interner_laws (h_intern H)"
    and arg: "utf8_like (join_with CHR '','' (events a))" "length (join_with CHR '','' (events a)) < 2 ^ 58"
    and run: "main_body H a s = Some (out, s')"
  shows "settled out s None s'"
proof -
  let ?K = "kern (h_env H)"
  obtain r s1 where new: "mq_new ?K message_size MQ_NAME (println ''Parsed Args'' s) = (r, s1)" by force
  note own = owned_untouched [OF owned_untouched [OF owned_start bystander.kept_println] bystander.kept_mq_new [OF new]]
  note inner = settled_untouched [OF state_scope_settled [OF laws arg owned_untouched [OF own bystander.kept_println]]
      bystander.kept_mq_drop]
  from run new settled_owned [OF own] inner show ?thesis
    by (fastforce simp: main_body_def Let_def split: sum.splits)
qed

text \<open>
  \<^bold>\<open>C5.\<close> The manual memory management of the reader is right over a whole run. Replayed on a heap,
  every call of the allocator that a run of \<open>main\<close> makes respects the contract of \<open>std::alloc\<close>: the
  sizes are not zero and not too large, what is resized or freed is a live block, and with the size
  it has (so nothing is freed twice or used after it was freed). A run that returns has freed every
  block; one that panics has too, unless a reallocation failed.
\<close>

theorem main_heap_disciplined:
  assumes "slab_laws (h_slab H)" "interner_laws (h_intern H)"
    and "utf8_like (join_with CHR '','' (events a))" "length (join_with CHR '','' (events a)) < 2 ^ 58"
    and "main_body H a s = Some (out, s')"
  shows "\<exists>d h. trace s' = trace s @ d \<and> replay d Map.empty = Some h
    \<and> (h = Map.empty \<or> (\<not> returns out \<and> list_ex failed_alloc d))"
  using main_settled [OF assms] unfolding settled_def owned_def lost_def by (auto simp: heap_of_def)

theorem main_heap_disciplined_witness:
  "\<exists>s' d. main_body busy_host stop_args (boot 20) = Some (Return (), s') \<and> trace s' = d
     \<and> replay d Map.empty = Some Map.empty"
proof -
  obtain s' where run: "main_body busy_host stop_args (boot 20) = Some (Return (), s')" using busy_main by blast
  have "slab_laws (h_slab busy_host)" "interner_laws (h_intern busy_host)"
    "utf8_like (join_with CHR '','' (events stop_args))" "length (join_with CHR '','' (events stop_args)) < 2 ^ 58"
    using busy_laws by (simp_all add: recorder_laws_def)
  from main_heap_disciplined [OF this run] run show ?thesis by (auto simp: boot_def)
qed

end
