(* ===== verification/Diagnostics.thy ===== *)
theory Diagnostics
  imports Perf_Group Mqueue Message
begin

text \<open>
  The texts of the errors (\<open>perf-ffi/src/error.rs\<close>, \<open>mqueue/src/lib.rs\<close>,
  \<open>threadstat-message/src/lib.rs\<close>) and of the lines that the program prints on stderr. The texts
  of the standard library's errors and of the crate zerocopy's are parameters.
\<close>

record texts =
  tx_io :: "io_error \<Rightarrow> string"
  tx_io_debug :: "io_error \<Rightarrow> string"
  tx_header_cast :: "cast_error \<Rightarrow> string"
  tx_entry_cast :: "cast_error \<Rightarrow> string"

fun perf_error_text :: "texts \<Rightarrow> perf_error \<Rightarrow> string" where
  "perf_error_text T (IO e) = tx_io T e"
| "perf_error_text T (HeaderCast e) = tx_header_cast T e"
| "perf_error_text T (EntryCast e) = tx_entry_cast T e"
| "perf_error_text T Empty = ''Inputted iterator is empty''"

fun mq_error_text :: "texts \<Rightarrow> mq_error \<Rightarrow> string" where
  "mq_error_text T (MqIO e) = ''IO Error: '' @ tx_io T e"
| "mq_error_text T WrongSize = ''Incorrect mqueue size read''"

fun mq_error_debug :: "texts \<Rightarrow> mq_error \<Rightarrow> string" where
  "mq_error_debug T (MqIO e) = ''IO Error: '' @ tx_io_debug T e"
| "mq_error_debug T WrongSize = ''Incorrect mqueue size read''"

definition unknown_flag_text :: "u32 \<Rightarrow> string" where
  "unknown_flag_text f = ''unknown message flag: '' @ show_nat (unat f)"

text \<open>The arguments of the \<open>eprintln!\<close>s, in \<open>state.rs\<close>, \<open>handlers.rs\<close> and \<open>main.rs\<close>.\<close>

fun diag_text :: "texts \<Rightarrow> diag \<Rightarrow> string" where
  "diag_text T (OpenEventsFailed t e) =
     ''failed to open events for tid '' @ show_int (sint t) @ '': '' @ perf_error_text T e"
| "diag_text T (DescWriteError e) = ''desc csv write error: '' @ tx_io T e"
| "diag_text T (ReadWriteError e) = ''read csv write error: '' @ tx_io T e"
| "diag_text T (EventWriteError e) = ''event csv write error: '' @ tx_io T e"
| "diag_text T (GroupReadError t e) =
     ''read error for tid '' @ show_int (sint t) @ '': '' @ perf_error_text T e"
| "diag_text T (BadMessage f) = ''mqueue bad message: '' @ unknown_flag_text f"
| "diag_text T (MqueueReadError e) = ''mqueue read error: '' @ mq_error_text T e"
| "diag_text T (FlushFellBehind n) =
     ''flush fell behind: '' @ show_nat (unat n) @ '' periods elapsed since the previous flush''"

fun stderr_of :: "texts \<Rightarrow> call \<Rightarrow> string" where
  "stderr_of T (CStderr d) = diag_text T d @ ''\<newline>''"
| "stderr_of T _ = []"

text \<open>What a run has printed on stderr, from its trace.\<close>

definition stderr_text :: "texts \<Rightarrow> call list \<Rightarrow> string" where
  "stderr_text T cs = concat (map (stderr_of T) cs)"

text \<open>A line about a rejected message identifies the flags that were received.\<close>

lemma bad_message_flags: "diag_text T (BadMessage f) = diag_text T (BadMessage g) \<longleftrightarrow> f = g"
  by (auto simp: unknown_flag_text_def word_unat_eq_iff dest!: show_nat_inj)

text \<open>A line about missed periods tells how many.\<close>

lemma fell_behind_count: "diag_text T (FlushFellBehind n) = diag_text T (FlushFellBehind m) \<longleftrightarrow> n = m"
  by (auto simp: word_unat_eq_iff dest!: show_nat_inj)

lemma stderr_eprintln:
  "stderr_text T (trace (eprintln d s)) = stderr_text T (trace s) @ diag_text T d @ ''\<newline>''"
  by (simp add: stderr_text_def eprintln_def)

end
