(* ===== verification/Unit_Tests.thy ===== *)
theory Unit_Tests
  imports Poll Timer_Fd Mqueue
begin

text \<open>
  The unit tests of the repository, run on the model. Each test is a definition over the kernel
  and the slab, its closures written as handlers (a variable that a closure captures is part of
  the context), and a lemma states its assertions on a simulated kernel whose world holds pipes,
  a timer and the epoll set. What a test sets up before its first modelled call (making a pipe,
  writing to it, dropping its writer) is its initial world.
\<close>

section \<open>A kernel with pipes and a timer\<close>

text \<open>
  A pipe is its buffered bytes and whether its writer is open. The timer is its interval (zero for
  a oneshot) and its next expiry, in nanoseconds on the world's clock. A read of the timer waits
  for the next expiry and counts all that are due; a wait with nothing ready waits for the timer.
\<close>

record pipe_world =
  pw_pipes :: "(int \<times> byte list \<times> bool) list"
  pw_timer :: "(nat \<times> nat) option"
  pw_now :: nat
  pw_interest :: "(int \<times> u64) list"

definition TIMER :: int where "TIMER = 5"

definition pipe_flags :: "pipe_world \<Rightarrow> int \<Rightarrow> u32" where
  "pipe_flags w fd =
     (if fd = TIMER then
        (case pw_timer w of None \<Rightarrow> 0 | Some (interval, expiry) \<Rightarrow> if expiry \<le> pw_now w then 1 else 0)
      else case map_of (pw_pipes w) fd of
          None \<Rightarrow> 0
        | Some (buf, writer) \<Rightarrow> (if buf = [] then 0 else 1) OR (if writer then 0 else 0x10))"

definition ready_events :: "pipe_world \<Rightarrow> epoll_event list" where
  "ready_events w = concat (map (\<lambda>(fd, d).
     if pipe_flags w fd = 0 then [] else [\<lparr>ee_events = pipe_flags w fd, ee_data = d\<rparr>]) (pw_interest w))"

definition until_expiry :: "pipe_world \<Rightarrow> pipe_world" where
  "until_expiry w =
     (case pw_timer w of None \<Rightarrow> w | Some (interval, expiry) \<Rightarrow> w\<lparr>pw_now := max (pw_now w) expiry\<rparr>)"

text \<open>The world when a wait for events returns.\<close>

definition after_wait :: "pipe_world \<Rightarrow> pipe_world" where
  "after_wait w =
     (case pw_timer w of None \<Rightarrow> w | Some _ \<Rightarrow> if ready_events w = [] then until_expiry w else w)"

definition timer_sim_read :: "pipe_world \<Rightarrow> int \<times> byte list \<times> pipe_world" where
  "timer_sim_read w =
     (let w' = until_expiry w in
      case pw_timer w' of
        None \<Rightarrow> (-1, [], w')
      | Some (interval, expiry) \<Rightarrow>
          (let n = (if interval = 0 then 1 else 1 + (pw_now w' - expiry) div interval) in
           (8, u64_le (of_nat n),
            w'\<lparr>pw_timer := if interval = 0 then None else Some (interval, expiry + n * interval)\<rparr>)))"

definition pipe_sim_read :: "int \<Rightarrow> nat \<Rightarrow> pipe_world \<Rightarrow> int \<times> byte list \<times> pipe_world" where
  "pipe_sim_read fd n w =
     (case map_of (pw_pipes w) fd of
        None \<Rightarrow> (-1, [], w)
      | Some (buf, writer) \<Rightarrow>
          (int (length (take n buf)), take n buf,
           w\<lparr>pw_pipes := AList.update fd (drop n buf, writer) (pw_pipes w)\<rparr>))"

definition pipe_kernel :: "pipe_world kernel" where
  "pipe_kernel = idle_kernel\<lparr>
     k_epoll_ctl := (\<lambda>epfd op fd ev w.
       (0, w\<lparr>pw_interest := (case ev of None \<Rightarrow> AList.delete fd (pw_interest w)
          | Some e \<Rightarrow> pw_interest w @ [(fd, ee_data e)])\<rparr>)),
     k_epoll_wait := (\<lambda>epfd n t w.
       let evs = take n (ready_events (after_wait w)) in (int (length evs), evs, after_wait w)),
     k_timerfd_settime := (\<lambda>fd flags spec w.
       (0, w\<lparr>pw_timer := if it_value spec = ZERO then None
          else Some (nat (timespec_ns (it_interval spec)), pw_now w + nat (timespec_ns (it_value spec)))\<rparr>)),
     k_read := (\<lambda>fd n w. if fd = TIMER then timer_sim_read w else pipe_sim_read fd n w)\<rparr>"

definition pipes :: "(int \<times> byte list \<times> bool) list \<Rightarrow> pipe_world os" where
  "pipes ps = boot \<lparr>pw_pipes = ps, pw_timer = None, pw_now = 0, pw_interest = []\<rparr>"

section \<open>The tests of \<open>poll\<close>\<close>

text \<open>\<open>PipeEnd\<close>, with its read of at most 16 bytes.\<close>

type_synonym pipe_end = int

definition pipe_end_read :: "'w kernel \<Rightarrow> pipe_end \<Rightarrow> 'w os \<Rightarrow> (io_error + nat) \<times> 'w os" where
  "pipe_end_read K fd s =
     (case sys_read K fd 16 s of (n, bs, s') \<Rightarrow>
        (if n < 0 then Inl (last_os_error K s') else Inr (nat n), s'))"

text \<open>Register the sources with their handlers and run; the result and the context afterwards.\<close>

fun register_each ::
    "'w kernel \<Rightarrow> ('p, 'c, 'w, 'sl) slab \<Rightarrow> ('p \<Rightarrow> int) \<Rightarrow> ('p \<times> ('p, 'c, 'w) handler) list \<Rightarrow>
       'sl poller \<Rightarrow> 'w os \<Rightarrow> unit outcome \<times> 'sl poller \<times> 'w os" where
  "register_each K S fd [] p s = (Return (), p, s)"
| "register_each K S fd ((src, h) # rest) p s =
     (case register_mut K S fd src h p s of
        (Return _, p', s') \<Rightarrow> register_each K S fd rest p' s'
      | halted \<Rightarrow> halted)"

definition run_sources ::
    "'w kernel \<Rightarrow> ('p, 'c, 'w, 'sl) slab \<Rightarrow> ('p \<Rightarrow> int) \<Rightarrow> ('p \<times> ('p, 'c, 'w) handler) list \<Rightarrow> 'c \<Rightarrow> 'w os \<Rightarrow>
       ((io_error + unit) outcome \<times> 'c) option" where
  "run_sources K S fd srcs ctx s =
     (case poller_new K S s of
        (Panic m, s1) \<Rightarrow> Some (Panic m, ctx)
      | (Undefined, s1) \<Rightarrow> Some (Undefined, ctx)
      | (Return p, s1) \<Rightarrow>
          (case register_each K S fd srcs p s1 of
             (Panic m, p', s2) \<Rightarrow> Some (Panic m, ctx)
           | (Undefined, p', s2) \<Rightarrow> Some (Undefined, ctx)
           | (Return _, p', s2) \<Rightarrow> map_option (\<lambda>(out, p'', ctx', s3). (out, ctx')) (run K S p' ctx s2)))"

text \<open>The closures of the tests; the first two give up after five calls, so that a spin ends.\<close>

definition continue_handler :: "'w kernel \<Rightarrow> (pipe_end, nat, 'w) handler" where
  "continue_handler K fd calls s =
     (let calls' = calls + 1 in
      if calls' > 5 then (Return (Inr Stop), fd, calls', s)
      else case pipe_end_read K fd s of
          (Inl e, s') \<Rightarrow> (Return (Inl e), fd, calls', s')
        | (Inr _, s') \<Rightarrow> (Return (Inr Continue), fd, calls', s'))"

definition remove_handler :: "'w kernel \<Rightarrow> (pipe_end, nat, 'w) handler" where
  "remove_handler K fd calls s =
     (case pipe_end_read K fd s of
        (Inl e, s') \<Rightarrow> (Return (Inl e), fd, calls + 1, s')
      | (Inr _, s') \<Rightarrow> (Return (Inr Remove), fd, calls + 1, s'))"

definition blew_up :: io_error where "blew_up = Custom OtherKind ''handler blew up''"

definition failing_handler :: "(pipe_end, nat, 'w) handler" where
  "failing_handler fd calls s =
     (let calls' = calls + 1 in
      if calls' > 5 then (Return (Inr Stop), fd, calls', s) else (Return (Inl blew_up), fd, calls', s))"

definition live_failing_handler :: "(pipe_end, nat, 'w) handler" where
  "live_failing_handler fd calls s = (Return (Inl blew_up), fd, calls, s)"

definition naming_handler :: "'w kernel \<Rightarrow> string \<Rightarrow> (pipe_end, string list, 'w) handler" where
  "naming_handler K name fd seen s =
     (case pipe_end_read K fd s of
        (Inl e, s') \<Rightarrow> (Return (Inl e), fd, seen, s')
      | (Inr _, s') \<Rightarrow> (Return (Inr Remove), fd, seen @ [name], s'))"

definition hangup_removes_source_despite_continue where
  "hangup_removes_source_despite_continue K S =
     run_sources K S (\<lambda>fd. fd) [(10, continue_handler K)] 0"

definition hangup_swallows_handler_error where
  "hangup_swallows_handler_error K S = run_sources K S (\<lambda>fd. fd) [(10, failing_handler)] 0"

definition handler_error_propagates_on_live_fd where
  "handler_error_propagates_on_live_fd K S = run_sources K S (\<lambda>fd. fd) [(10, live_failing_handler)] 0"

definition two_sources_share_one_context where
  "two_sources_share_one_context K S = run_sources K S (\<lambda>fd. fd)
     [(10, naming_handler K ''first''), (11, naming_handler K ''second'')] []"

definition remove_deregisters_only_that_source where
  "remove_deregisters_only_that_source K S =
     run_sources K S (\<lambda>fd. fd) [(10, remove_handler K)] 0"

lemmas pipe_eval = run_sources_def poller_new_def epoll_create_def register_mut_def poll_eval pipe_kernel_def
  idle_kernel_def pipes_def ready_events_def pipe_flags_def pipe_sim_read_def after_wait_def TIMER_def pipe_end_read_def continue_handler_def remove_handler_def
  failing_handler_def live_failing_handler_def naming_handler_def READABLE_def HANGUP_def

lemma hangup_removes_source_despite_continue_passes:
  "hangup_removes_source_despite_continue pipe_kernel assoc_slab (pipes [(10, [], False)])
     = Some (Return (Inr ()), 1)"
  by (simp add: hangup_removes_source_despite_continue_def pipe_eval)

lemma hangup_swallows_handler_error_passes:
  "hangup_swallows_handler_error pipe_kernel assoc_slab (pipes [(10, [], False)])
     = Some (Return (Inr ()), 1)"
  by (simp add: hangup_swallows_handler_error_def pipe_eval)

lemma handler_error_propagates_on_live_fd_passes:
  "handler_error_propagates_on_live_fd pipe_kernel assoc_slab (pipes [(10, [120], True)])
     = Some (Return (Inl blew_up), 0)"
  by (simp add: handler_error_propagates_on_live_fd_def pipe_eval)

lemma two_sources_share_one_context_passes:
  "\<exists>seen. two_sources_share_one_context pipe_kernel assoc_slab (pipes [(10, [97], True), (11, [98], True)])
     = Some (Return (Inr ()), seen) \<and> mset seen = {#''first'', ''second''#}"
  by (simp add: two_sources_share_one_context_def pipe_eval)

lemma remove_deregisters_only_that_source_passes:
  "remove_deregisters_only_that_source pipe_kernel assoc_slab (pipes [(10, [120], True)])
     = Some (Return (Inr ()), 1)"
  by (simp add: remove_deregisters_only_that_source_def pipe_eval)

section \<open>The tests of \<open>timerfd\<close>\<close>

definition from_millis :: "nat \<Rightarrow> duration" where
  "from_millis ms = \<lparr>as_secs = of_nat (ms div 1000), subsec_nanos = of_nat (ms mod 1000 * 1000000)\<rparr>"

text \<open>Go on with the value of a result; \<open>unwrap\<close> of an error fails the test, \<open>None\<close>.\<close>

definition unwrap_then ::
    "(io_error + 'a) \<times> 'w os \<Rightarrow> ('a \<Rightarrow> 'w os \<Rightarrow> 'b option) \<Rightarrow> 'b option" where
  "unwrap_then r f = (case r of (Inl e, s) \<Rightarrow> None | (Inr x, s) \<Rightarrow> f x s)"

text \<open>\<open>std::thread::sleep\<close>, with what it does to the world as a parameter.\<close>

definition sleep :: "(nat \<Rightarrow> 'w \<Rightarrow> 'w) \<Rightarrow> nat \<Rightarrow> 'w os \<Rightarrow> 'w os" where
  "sleep pass ms s = s\<lparr>world := pass ms (world s)\<rparr>"

text \<open>The count read and the clock afterwards.\<close>

definition oneshot_fires_once_after_the_delay ::
    "'w kernel \<Rightarrow> ('w \<Rightarrow> nat) \<Rightarrow> 'w os \<Rightarrow> (u64 \<times> nat) option" where
  "oneshot_fires_once_after_the_delay K now s =
     unwrap_then (timer_new K Monotonic s) (\<lambda>timer s1.
     let start = now (world s1) in
     unwrap_then (arm_oneshot K (from_millis 20) timer s1) (\<lambda>_ s2.
     unwrap_then (timer_read K timer s2) (\<lambda>n s3. Some (n, now (world s3) - start))))"

definition periodic_keeps_firing :: "'w kernel \<Rightarrow> 'w os \<Rightarrow> u64 option" where
  "periodic_keeps_firing K s =
     unwrap_then (timer_new K Monotonic s) (\<lambda>timer s1.
     unwrap_then (arm_periodic K (from_millis 5) timer s1) (\<lambda>_ s2.
     unwrap_then (timer_read K timer s2) (\<lambda>a s3.
     unwrap_then (timer_read K timer s3) (\<lambda>b s4.
     unwrap_then (timer_read K timer s4) (\<lambda>c s5. Some (a + b + c))))))"

definition falling_behind_reports_the_backlog ::
    "'w kernel \<Rightarrow> (nat \<Rightarrow> 'w \<Rightarrow> 'w) \<Rightarrow> 'w os \<Rightarrow> u64 option" where
  "falling_behind_reports_the_backlog K pass s =
     unwrap_then (timer_new K Monotonic s) (\<lambda>timer s1.
     unwrap_then (arm_periodic K (from_millis 2) timer s1) (\<lambda>_ s2.
     unwrap_then (timer_read K timer (sleep pass 50 s2)) (\<lambda>n s3. Some n)))"

definition read_counts_expirations_since_the_last_read ::
    "'w kernel \<Rightarrow> (nat \<Rightarrow> 'w \<Rightarrow> 'w) \<Rightarrow> 'w os \<Rightarrow> (u64 \<times> u64) option" where
  "read_counts_expirations_since_the_last_read K pass s =
     unwrap_then (timer_new K Monotonic s) (\<lambda>timer s1.
     unwrap_then (arm_periodic K (from_millis 2) timer s1) (\<lambda>_ s2.
     unwrap_then (timer_read K timer (sleep pass 40 s2)) (\<lambda>first s3.
     unwrap_then (timer_read K timer (sleep pass 10 s3)) (\<lambda>second s4. Some (first, second)))))"

definition zero_duration_is_rejected ::
    "'w kernel \<Rightarrow> 'w os \<Rightarrow> ((io_error + unit) \<times> (io_error + unit)) option" where
  "zero_duration_is_rejected K s =
     unwrap_then (timer_new K Monotonic s) (\<lambda>timer s1.
     case arm_periodic K (from_millis 0) timer s1 of (a, s2) \<Rightarrow>
       (case arm_oneshot K (from_millis 0) timer s2 of (b, s3) \<Rightarrow> Some (a, b)))"

definition disarm_stops_a_periodic_timer :: "'w kernel \<Rightarrow> 'w os \<Rightarrow> u64 option" where
  "disarm_stops_a_periodic_timer K s =
     unwrap_then (timer_new K Monotonic s) (\<lambda>timer s1.
     unwrap_then (arm_periodic K (from_millis 5) timer s1) (\<lambda>_ s2.
     unwrap_then (timer_read K timer s2) (\<lambda>_ s3.
     unwrap_then (disarm K timer s3) (\<lambda>_ s4.
     unwrap_then (arm_oneshot K (from_millis 10) timer s4) (\<lambda>_ s5.
     unwrap_then (timer_read K timer s5) (\<lambda>n s6. Some n))))))"

definition ticking_handler :: "'w kernel \<Rightarrow> (timer_fd, u64, 'w) handler" where
  "ticking_handler K t ticks s =
     (case timer_read K t s of
        (Inl e, s') \<Rightarrow> (Return (Inl e), t, ticks, s')
      | (Inr n, s') \<Rightarrow> (Return (Inr (if 3 \<le> ticks + n then Stop else Continue)), t, ticks + n, s'))"

definition drives_a_poller where
  "drives_a_poller K S s =
     unwrap_then (timer_new K Monotonic s) (\<lambda>timer s1.
     unwrap_then (arm_periodic K (from_millis 5) timer s1) (\<lambda>_ s2.
       run_sources K S timer_pollable_fd [(timer, ticking_handler K)] 0 s2))"

text \<open>Time passes in milliseconds.\<close>

definition pass :: "nat \<Rightarrow> pipe_world \<Rightarrow> pipe_world" where
  "pass ms w = w\<lparr>pw_now := pw_now w + ms * 1000000\<rparr>"

lemmas timer_eval = unwrap_then_def timer_new_def arm_periodic_def arm_oneshot_def disarm_def settime_def
  to_timespec_cases from_millis_def is_zero_def ZERO_def timespec_ns_def timer_read_def os_simps boot_def
  log_call_def pipe_kernel_def idle_kernel_def pipes_def timer_sim_read_def until_expiry_def TIMER_def sleep_def
  pass_def

lemma read_count: "le_u64 (fill (u64_le 0) (u64_le n)) = n"
  by (simp add: fill_exact u64.length_enc u64.dec_enc)

lemma oneshot_fires_once_after_the_delay_passes:
  "oneshot_fires_once_after_the_delay pipe_kernel pw_now (pipes []) = Some (1, 20000000)"
  by (simp add: oneshot_fires_once_after_the_delay_def timer_eval read_count)

lemma periodic_keeps_firing_passes:
  "periodic_keeps_firing pipe_kernel (pipes []) = Some 3"
  by (simp add: periodic_keeps_firing_def timer_eval read_count)

lemma falling_behind_reports_the_backlog_passes:
  "falling_behind_reports_the_backlog pipe_kernel pass (pipes []) = Some 25"
  by (simp add: falling_behind_reports_the_backlog_def timer_eval read_count)

lemma read_counts_expirations_since_the_last_read_passes:
  "read_counts_expirations_since_the_last_read pipe_kernel pass (pipes []) = Some (20, 5)"
  by (simp add: read_counts_expirations_since_the_last_read_def timer_eval read_count)

lemma zero_duration_is_rejected_passes:
  "timer_new K Monotonic s = (Inr t, s1) \<Longrightarrow>
     \<exists>a b. zero_duration_is_rejected K s = Some (Inl a, Inl b)"
  by (simp add: zero_duration_is_rejected_def unwrap_then_def arm_periodic_def arm_oneshot_def
      from_millis_def is_zero_def)

lemma disarm_stops_a_periodic_timer_passes:
  "disarm_stops_a_periodic_timer pipe_kernel (pipes []) = Some 1"
  by (simp add: disarm_stops_a_periodic_timer_def timer_eval read_count)

text \<open>One round of the last test: the wait lasts until the expiry, which is read and counted.\<close>

abbreviation ticking :: "(nat \<times> (timer_fd, u64, pipe_world) source) list poller" where
  "ticking \<equiv> \<lparr>poller_fd = 3, sources = [(0, \<lparr>src_fd = 5, src_r = \<lparr>timer_raw = 5\<rparr>,
     src_func = ticking_handler pipe_kernel\<rparr>)]\<rparr>"

abbreviation armed :: "nat \<Rightarrow> nat \<Rightarrow> pipe_world" where
  "armed t e \<equiv> \<lparr>pw_pipes = [], pw_timer = Some (5000000, e), pw_now = t, pw_interest = [(5, 0)]\<rparr>"

lemma tick_wait:
  assumes "world s = armed t e" "t < e"
  shows "\<exists>s1. wait_ready pipe_kernel 3 zero_events s
      = Some (Inr (1, fill zero_events [\<lparr>ee_events = 1, ee_data = 0\<rparr>]), s1) \<and> world s1 = armed e e"
  using assms by (simp add: wait_ready.simps os_simps pipe_kernel_def idle_kernel_def ready_events_def
      pipe_flags_def after_wait_def until_expiry_def TIMER_def COUNT_def)

lemma tick_read:
  assumes "world s = armed e e"
  shows "\<exists>s1. timer_read pipe_kernel \<lparr>timer_raw = 5\<rparr> s = (Inr 1, s1) \<and> world s1 = armed e (e + 5000000)"
  using assms by (simp add: timer_read_def os_simps pipe_kernel_def timer_sim_read_def until_expiry_def
      TIMER_def read_count)

lemma tick_round:
  assumes "world s = armed t e" "t < e"
  shows "\<exists>s1. poll_once pipe_kernel assoc_slab ticking n s
      = Some (Return (Inr (if 3 \<le> n + 1 then Stop else Continue)), ticking, n + 1, s1)
    \<and> world s1 = armed e (e + 5000000)"
proof -
  obtain s1 where w: "wait_ready pipe_kernel 3 zero_events s
      = Some (Inr (1, fill zero_events [\<lparr>ee_events = 1, ee_data = 0\<rparr>]), s1)" "world s1 = armed e e"
    using tick_wait [OF assms] by blast
  obtain s2 where r: "timer_read pipe_kernel \<lparr>timer_raw = 5\<rparr> s1 = (Inr 1, s2)" "world s2 = armed e (e + 5000000)"
    using tick_read [OF w(2)] by blast
  have "take 1 (fill zero_events [\<lparr>ee_events = 1, ee_data = 0\<rparr>]) = [\<lparr>ee_events = 1, ee_data = 0\<rparr>]"
    "fill zero_events [\<lparr>ee_events = 1, ee_data = 0\<rparr>] \<noteq> []"
    by (simp_all add: zero_events_def COUNT_def fill_def)
  moreover have "handle_event pipe_kernel assoc_slab \<lparr>ee_events = 1, ee_data = 0\<rparr> ticking n s1 =
      (Return (Inr (if 3 \<le> n + 1 then StopNow else NextEvent)), ticking, n + 1, s2)"
    using r(1) by (simp add: handle_event_def epoll_constants call_func_def ticking_handler_def resolve_action_def)
  ultimately show ?thesis using w(1) r(2) by (simp add: poll_once_def split: flow.splits)
qed

lemma drives_a_poller_passes:
  "drives_a_poller pipe_kernel assoc_slab (pipes []) = Some (Return (Inr ()), 3)"
proof -
  obtain s0 where start: "drives_a_poller pipe_kernel assoc_slab (pipes [])
      = map_option (\<lambda>(out, p, ctx, s). (out, ctx)) (run pipe_kernel assoc_slab ticking 0 s0)"
      "world s0 = armed 0 5000000"
    by (simp add: drives_a_poller_def timer_eval run_sources_def poller_new_def epoll_create_def register_mut_def
        timer_pollable_fd_def)
  obtain s1 where r1: "poll_once pipe_kernel assoc_slab ticking 0 s0 = Some (Return (Inr Continue), ticking, 1, s1)"
      "world s1 = armed 5000000 10000000" using tick_round [OF start(2), of 0] by (auto simp: word_le_nat_alt)
  obtain s2 where r2: "poll_once pipe_kernel assoc_slab ticking 1 s1 = Some (Return (Inr Continue), ticking, 2, s2)"
      "world s2 = armed 10000000 15000000" using tick_round [OF r1(2), of 1] by (auto simp: word_le_nat_alt)
  obtain s3 where r3: "poll_once pipe_kernel assoc_slab ticking 2 s2 = Some (Return (Inr Stop), ticking, 3, s3)"
    using tick_round [OF r2(2), of 2] by (auto simp: word_le_nat_alt)
  have "run pipe_kernel assoc_slab ticking 0 s0 = Some (Return (Inr ()), ticking, 3, s3)"
    by (simp add: run_unfold [of _ _ _ 0] run_unfold [of _ _ _ 1] run_unfold [of _ _ _ 2] r1 r2 r3 run_result_def)
  with start(1) show ?thesis by simp
qed

section \<open>The tests of \<open>mqueue\<close>\<close>

text \<open>A stock kernel: \<open>msg_max\<close> is 10, and a deeper queue is \<open>EINVAL\<close>.\<close>

definition stock_kernel :: "unit kernel" where
  "stock_kernel = idle_kernel\<lparr>
     k_errno := (\<lambda>w. EINVAL),
     k_mq_open := (\<lambda>path flags mode attr w. (if mq_maxmsg attr \<le> 10 then 6 else -1, w)),
     k_read_file := (\<lambda>path w. (if path = MSG_MAX_PATH then Some (show_int 10 @ ''\<newline>'') else None, w))\<rparr>"

definition opens_even_when_desired_depth_exceeds_the_kernel_limit :: "'w kernel \<Rightarrow> 'w os \<Rightarrow> 'w os option" where
  "opens_even_when_desired_depth_exceeds_the_kernel_limit K s =
     (case mq_new K 8 ''/threadstat-mqueue-depth-test'' s of
        (Inl e, s1) \<Rightarrow> None
      | (Inr q, s1) \<Rightarrow> Some (mq_drop K q s1))"

definition reports_a_plausible_kernel_limit :: "'w kernel \<Rightarrow> 'w os \<Rightarrow> bool" where
  "reports_a_plausible_kernel_limit K s \<longleftrightarrow> 0 < fst (kernel_maxmsg_limit K s) \<and> 0 < DESIRED_MAXMSG"

lemma stock_limit: "fst (kernel_maxmsg_limit stock_kernel s) = 10"
proof -
  have "parse_i64 (trim (show_int 10 @ ''\<newline>'')) = Some 10"
    by (simp add: trim_newline show_int_ends parse_show_i64)
  then show ?thesis
    by (simp add: kernel_maxmsg_limit_def sys_read_file_def stock_kernel_def split: prod.splits)
qed

lemma opens_even_when_desired_depth_exceeds_the_kernel_limit_passes:
  "\<exists>s. opens_even_when_desired_depth_exceeds_the_kernel_limit stock_kernel (boot ()) = Some s
     \<and> asked_depths (trace s) = [50, 10]"
proof -
  obtain s1 where o1: "mq_open_queue stock_kernel 8 ''/threadstat-mqueue-depth-test'' DESIRED_MAXMSG (boot ())
      = (Inl (Os EINVAL), s1)"
    by (simp add: mq_open_queue_def os_simps stock_kernel_def idle_kernel_def Let_def DESIRED_MAXMSG_def)
  obtain s2 where lim: "kernel_maxmsg_limit stock_kernel s1 = (10, s2)"
    using stock_limit [of s1] by (metis prod.collapse)
  obtain fd s3 where o2: "mq_open_queue stock_kernel 8 ''/threadstat-mqueue-depth-test'' 10 s2 = (Inr fd, s3)"
    by (simp add: mq_open_queue_def os_simps stock_kernel_def idle_kernel_def Let_def)
  have depths: "asked_depths (trace s3) = [50, 10]"
    using asked_depths_open [OF o1] asked_depths_open [OF o2] kernel_maxmsg_limit_trace [OF lim]
    by (simp add: DESIRED_MAXMSG_def boot_def asked_depths_def List.map_filter_def)
  from o1 lim o2 have "mq_new stock_kernel 8 ''/threadstat-mqueue-depth-test'' (boot ()) =
      (Inr \<lparr>mq_fd = fd, mq_name = ''/threadstat-mqueue-depth-test''\<rparr>, s3)"
    by (simp add: mq_new_def EINVAL_def EINTR_def)
  with depths show ?thesis
    by (simp add: opens_even_when_desired_depth_exceeds_the_kernel_limit_def mq_drop_def asked_depths_def
        List.map_filter_def)
qed

lemma reports_a_plausible_kernel_limit_passes: "reports_a_plausible_kernel_limit stock_kernel s"
  by (simp add: reports_a_plausible_kernel_limit_def stock_limit DESIRED_MAXMSG_def)

end
