(* ===== verification/Spec2Isabelle.thy ===== *)
theory Spec2Isabelle
  imports Prelude Kernel Non_Empty Slab Simulation Poll Bytes Timer_Fd Signals Text Mqueue Message
    Perf_Config Perf_Group Csv_Writer Parse_Perf Monitor_State Threadstat_Main
    Defined_Behaviour Serving World_Frame Panics Watching Preload Endless
    Setup_Frame Recording Last_Samples Recorded_Files Watched_Groups Heap_Discipline
    Diagnostics Unit_Tests
begin

text \<open>
  A verification development for \<^emph>\<open>threadstat-rust\<close>, a monitor that samples hardware performance
  counters of every thread of a program.

  \<^bold>\<open>The program.\<close> A library preloaded into the monitored program (\<open>wrapper/wrapper.c\<close>) sends a
  message over a POSIX message queue when a thread starts and when it ends. The monitor
  (\<open>threadstat-rust/src/main.rs\<close>) opens the queue, parses the event names of its command line,
  opens three CSV files, blocks SIGINT, and then runs an event loop over an epoll descriptor with
  up to three sources: a signalfd (stop), the queue (open or close the counters of a thread) and a
  timerfd (sample all counters). When the loop stops it samples once more and drops everything.

  \<^bold>\<open>The theories\<close>, each on those before it, and the code each models:

  \<^item> \<open>Prelude\<close>: machine integers, the three ways in which a call ends (\<open>Return\<close>, \<open>Panic\<close>,
    \<open>Undefined\<close> for undefined behaviour), decimal text, arrays the kernel fills in part, memory
    that may be uninitialised, and the collections \<open>os_simps\<close>, \<open>trace_simps\<close>, \<open>step_simps\<close>.
  \<^item> \<open>Kernel\<close>: the operating system as a record of functions on an abstract world (every libc,
    libpfm and allocator entry point the code calls), the state \<open>os\<close> threaded through the program
    (world, the \<open>LazyLock\<close> cell of libpfm, the trace of the calls made), and the multisets of
    descriptors a trace opens and closes. Nothing is assumed of the kernel there; \<open>Simulation\<close>
    holds concrete kernels.
  \<^item> \<open>Non_Empty\<close> (\<open>non-empty/src/lib.rs\<close>): slices with at least one element; unchecked accesses.
  \<^item> \<open>Slab\<close>: the crate \<open>slab\<close> as a parameter, with the laws its documentation gives, and an
    implementation that satisfies them.
  \<^item> \<open>Poll\<close> (\<open>poll/src/lib.rs\<close>): \<open>Poller::new\<close>, \<open>register_mut\<close>, \<open>deregister\<close>, \<open>poll_once\<close>, \<open>run\<close>.
    The wait loop and \<open>run\<close> may go on for ever and are partial functions with result \<open>None\<close> then.
    The locale \<open>context_invariant\<close> is the contract between the loop and its handlers: what every
    handler and every call of the loop keeps of the context holds after \<open>run\<close>; \<open>safe_context\<close>
    extends it by what the handlers may fail with.
  \<^item> \<open>Bytes\<close>: little endian words; the locale \<open>codec\<close> is the contract between a struct and its image
    in memory, interpreted here for words and later for the messages and the samples.
  \<^item> \<open>Timer_Fd\<close> (\<open>timerfd/src/lib.rs\<close>), \<open>Signals\<close> (\<open>signals/src/lib.rs\<close>): the two descriptor crates.
  \<^item> \<open>Text\<close>: the validity of UTF-8, trimming of Unicode white space in UTF-8 text, splitting, joining and the parsing of
    numbers, as the standard library documents them. \<open>Mqueue\<close> (\<open>mqueue/src/lib.rs\<close>): the queue reader.
  \<^item> \<open>Message\<close> (\<open>threadstat-message/src/lib.rs\<close>, \<open>wrapper/shared_def.h\<close>, the messages of
    \<open>wrapper/wrapper.c\<close>): the layout of a message, its flags and \<open>TryFrom\<close>.
  \<^item> \<open>Perf_Config\<close> (\<open>perf-ffi/src/perf_event_config.rs\<close>, \<open>pfm.rs\<close>): attributes of counters, libpfm
    behind its \<open>LazyLock\<close>. \<open>Perf_Group\<close> (\<open>perf_stat.rs\<close>, \<open>group_reader.rs\<close>, \<open>read_structs.rs\<close>,
    \<open>error.rs\<close>): opening, reading and dropping a group; the reader's growing heap block, with the
    cells that are not initialised yet written out.
  \<^item> \<open>Csv_Writer\<close> (\<open>threadstat-shared/src/csv_writer.rs\<close>): the three files, on a model of
    \<open>BufWriter\<close>; the locale \<open>appending_sink\<close> is the contract of a writer that only appends.
  \<^item> \<open>Parse_Perf\<close> (\<open>parse_perf.rs\<close>): the scanner by byte index, with slices that panic off a
    character boundary, and a structural reference lexer it is proved equal to.
  \<^item> \<open>Monitor_State\<close> (\<open>state.rs\<close>, \<open>handlers.rs\<close>): the state shared by the handlers and its operations.
  \<^item> \<open>Threadstat_Main\<close> (\<open>threadstat-rust/src/main.rs\<close>): \<open>main\<close> as nested scopes, each of which makes a
    value, runs the rest and drops the value, also when the rest panics.
  \<^item> \<open>Defined_Behaviour\<close>: that no run of the program has undefined behaviour, through the operations,
    the handlers, the loop and the scopes.
  \<^item> \<open>Serving\<close> extends the contract of the loop by the kernel's interest list (locale
    \<open>serving_context\<close>); \<open>World_Frame\<close> shows that the handlers keep whatever each of their system
    calls keeps (locales \<open>io_frame\<close>, \<open>file_frame\<close>, \<open>os_frame\<close>, \<open>call_frame\<close> and \<open>world_frame\<close>, each on
    the one before), so that they register nothing; \<open>Panics\<close> puts the two together
    and lists the messages a run of the program can panic with, those of failed prints included.
  \<^item> \<open>Watching\<close>: an abstract machine, the set of watched threads driven by the messages delivered
    (the relations \<open>watch_step\<close> and \<open>watch_run\<close>), and the proof that the event loop simulates it.
  \<^item> \<open>Preload\<close> (\<open>wrapper/wrapper.c\<close>): the preloaded library over a record of the C library's functions;
    the threads of a monitored process, in any interleaving, as the step relation \<open>process\<close>; and the
    two programs put together by the queue between them.
  \<^item> \<open>Endless\<close>: when the loop, and so the program, goes on for ever.
  \<^item> \<open>Setup_Frame\<close>: the frame of a whole run. The locale \<open>setup_frame\<close> is what the set-up keeps,
    \<open>session_frame\<close> adds the handlers, \<open>program_frame\<close> what every call of the program keeps;
    \<open>monitored_run\<close> takes an invariant of the handlers and one of the scopes around the loop through
    \<open>main\<close>, and \<open>staged_run\<close>, of which it is a case, takes three: one before the loop, one while it
    runs and one after the last flush. \<open>Recording\<close> interprets them at
    the \<^emph>\<open>tape\<close>, what the kernel delivered during a run (the samples read and the times before them,
    the identifiers given, read off the trace), and proves that the files record it.
    \<open>Last_Samples\<close> interprets them at the \<^emph>\<open>book\<close> of a trace (record \<open>book\<close>: the counters open, the leaders
    of groups among them, and those not read since the last wait for events): in a run that returns
    a leader is
    closed only after a flush has read it. It also shows that a tick of the timer reads
    every group. \<open>Recorded_Files\<close> holds the properties of a whole run, and a concrete run with a
    thread, a counter and a sample. \<open>Watched_Groups\<close> interprets \<open>monitored_run\<close> at the shape of the
    state: distinct threads, and for each the groups of the command line with a counter per event. \<open>Heap_Discipline\<close> interprets them at a heap on which the allocator calls are replayed.
  \<^item> \<open>Diagnostics\<close>: the texts of the errors of \<open>error.rs\<close>, \<open>mqueue\<close> and \<open>threadstat-message\<close>, and of
    every line on stderr. \<open>Unit_Tests\<close>: the unit tests of \<open>poll\<close>, \<open>timerfd\<close> and \<open>mqueue\<close> as definitions
    over the model, and their assertions on a simulated kernel with pipes, a clock and a timer.

  \<^bold>\<open>State.\<close> A Rust struct is a record with its fields; \<open>&mut self\<close> is explicit state passing; a
  closure registered with the poller is a function that is given its source, the context and the
  world and returns them updated. An owned descriptor is its number, and dropping it is a call of
  \<open>close\<close>. A \<open>HashMap\<close> is an association list with distinct keys, iterated in an order that is a
  parameter. \<open>Result\<close> is a sum, a panic the value \<open>Panic\<close> with its message.

  \<^bold>\<open>What is proved.\<close> For the whole program: the files that a run leaves record all that
  the kernel delivered during the run and nothing else, and can be read back; no run, however it
  ends, leaks a descriptor or closes one twice, and every allocator call respects the allocator's
  contract; no count is lost, since a run that returns closes the counters of a thread only after
  it has tried to read them a last time; none has undefined behaviour; what arrives at run time makes none panic, but for the
  listed failures of calls and of prints; and a run goes on for ever only in the event loop. These rest on
  invariants of the event loop, obtained by interpreting \<open>context_invariant\<close> and its extensions at
  the invariants of the monitor: the descriptors held are accounted for, every group has a counter
  and a buffer can hold it, and the \<^emph>\<open>record\<close> holds, that the text of each file is its header and
  the rows of the samples that were read off the counters so far, or of the identifiers given so far.
  For the loop: it does not panic, it ends when all sources hang up or SIGINT is reported, hung
  sources are dropped, errors are handled by the stated policy, the slab and the kernel's interest
  list agree. For the monitor: the queue handler refines a set of watched threads, and over a
  whole run a thread is watched exactly when the last message about it was that it started; with
  the preloaded library at the other end of the queue, the threads watched are those that were
  running when what was delivered had been sent; every tick samples every group, and the groups of
  every watched thread have the names, and as many counters, as the groups asked for. For
  the data: samples, rows and event texts make round trips; the parser equals its reference, and
  a rendered list of groups is parsed as exactly those groups, in order;
  buffers fit; periods and timer values are exact; the umask is restored and libpfm is initialised
  once.
  Each property is a theorem after a text block with its label \<open>C\<close>\<^emph>\<open>n\<close>, and where it has
  hypotheses a theorem \<open>_witness\<close> applies it at concrete values.

  \<^bold>\<open>Hypotheses.\<close> Laws of what is outside the repository are named predicates that appear as
  hypotheses where they are used: \<open>slab_laws\<close>, \<open>epoll_laws\<close>, \<open>sigset_laws\<close>, \<open>zerocopy_laws\<close>,
  \<open>allocator_laws\<close>, \<open>interner_laws\<close>, \<open>map_order_laws\<close>, \<open>file_laws\<close>, \<open>writes_succeed\<close>,
  \<open>whole_reads\<close>, \<open>whole_messages\<close>, \<open>registration_laws\<close>, \<open>delivery_laws\<close>, \<open>interner_defined\<close>,
  \<open>umasks_honest\<close>, \<open>sampling_laws\<close>, \<open>recorder_laws\<close>; \<open>bk_sound\<close> of a book, that the kernel gives no new
  counter the number of one that is still open. Of the threads of a monitored process the relation
  \<open>process\<close> assumes that \<open>malloc\<close> gives no live block and \<open>gettid\<close> no id in use. Each is shown to hold of a concrete instance.

  \<^bold>\<open>Bounds.\<close> No fuel is used: loops over data are structural or have a measure, and the two loops
  that may go on for ever are partial functions, whose termination is proved as such. Machine
  integers have their width: read ids, counts, flags and masks are words; buffer sizes wrap modulo
  \<open>2^64\<close>; the frequency is rounded to a period exactly as the two floating point operations do.

  \<^bold>\<open>Platform.\<close> A 64 bit little endian Linux target and a release build, in which integer addition
  wraps and \<open>debug_assert!\<close> is skipped. After undefined behaviour Rust promises nothing; the model
  then drops the open values as after a panic.

  \<^bold>\<open>Prints.\<close> \<open>println!\<close> and \<open>eprintln!\<close> panic when stdout or stderr cannot be written. The operations and
  the properties are about the runs in which every print succeeds; the exception is the property on the panics
  of \<open>main\<close>, whose \<open>main_outcome\<close> (theory \<open>Panics\<close>) is how \<open>main\<close> ends for any prints that fail.

  \<^bold>\<open>Not modelled.\<close> The parsing of the command line by clap; the bindings that bindgen generates and
  the build scripts, whose constants are written out from the kernel's headers; re-exports and
  marker traits; the texts of the standard library's errors, which are parameters (what the program
  prints on stderr is in the trace as a constructor per message with its values); the message of a
  panic on stderr; in the preloaded library the texts on stderr before
  \<open>exit\<close>, and processes that fork. Opening
  and writing a file stand for the standard library's calls, which retry after \<open>EINTR\<close>.
\<close>

end
